(* ===== verification/Prelude.thy ===== *)
theory Prelude
  imports Main "HOL-Library.Word" "HOL-Library.Multiset"
begin

text \<open>
  Shared vocabulary of the development: the fixed-width integer types the C sources use, the
  collections of rewrite rules the component theories feed, and the generic facts about unsigned
  words, lists and pairwise relations that several components rely on.
\<close>

unbundle bit_operations_syntax

section \<open>Machine types\<close>

type_synonym u8 = "8 word"
type_synonym u16 = "16 word"
type_synonym u32 = "32 word"
type_synonym u64 = "64 word"

text \<open>Addresses of heap objects; a NULL pointer is the value None of the option type.\<close>

type_synonym ptr = nat

abbreviation UINT64_MAX :: u64 where
  "UINT64_MAX \<equiv> - 1"

abbreviation UINT32_MAX :: u32 where
  "UINT32_MAX \<equiv> - 1"

named_theorems sal_defs \<open>definitions of the operations on the state abstraction layer\<close>
named_theorems range_simps \<open>facts about the byte ranges of lock descriptions\<close>

section \<open>Unsigned words\<close>

lemma word_max_le [simp]: "(x :: 'a::len word) \<le> - 1"
  by (fact word_order.extremum)

lemma word_less_max_iff: "(x :: 'a::len word) < - 1 \<longleftrightarrow> x \<noteq> - 1"
  by (simp add: word_order.not_eq_extremum)

lemma word_lt_imp_neq_max: "(x :: 'a::len word) < y \<Longrightarrow> x \<noteq> - 1"
  using word_max_le [of y] by (metis leD)

lemma word_plus1_le_iff: "(x :: 'a::len word) \<noteq> - 1 \<Longrightarrow> x + 1 \<le> y \<longleftrightarrow> x < y"
  by (simp add: inc_less_eq_iff)

lemma word_less_plus1_iff: "(x :: 'a::len word) \<noteq> - 1 \<Longrightarrow> y < x + 1 \<longleftrightarrow> y \<le> x"
  by (metis not_le word_plus1_le_iff)

lemma word_le_minus1_iff: "(y :: 'a::len word) \<noteq> 0 \<Longrightarrow> x \<le> y - 1 \<longleftrightarrow> x < y"
  using word_less_plus1_iff [of "y - 1" x] by auto

section \<open>Pairwise relations on lists\<close>

text \<open>
  A symmetric relation holds between any two distinct positions of a list exactly when the list
  is sorted with respect to it; the order of the list is then irrelevant.
\<close>

lemma sorted_wrt_sym_middle:
  assumes sym: "\<And>a b. P a b \<Longrightarrow> P b a"
  shows "sorted_wrt P (xs @ x # ys) \<longleftrightarrow> sorted_wrt P (xs @ ys) \<and> (\<forall>y \<in> set (xs @ ys). P x y)"
  using sym by (auto simp: sorted_wrt_append)

lemma sorted_wrt_sym_append_commute:
  assumes sym: "\<And>a b. P a b \<Longrightarrow> P b a"
  shows "sorted_wrt P (xs @ ys) \<longleftrightarrow> sorted_wrt P (ys @ xs)"
  using sym by (auto simp: sorted_wrt_append)

lemma sorted_wrt_sym_perm:
  assumes sym: "\<And>a b. P a b \<Longrightarrow> P b a" and "mset xs = mset ys"
  shows "sorted_wrt P xs \<longleftrightarrow> sorted_wrt P ys"
  using assms(2)
proof (induction xs arbitrary: ys)
  case (Cons x xs)
  then have "x \<in> set ys" by (metis list.set_intros(1) set_mset_mset)
  then obtain as bs where ys: "ys = as @ x # bs" by (meson split_list)
  with Cons have perm: "mset xs = mset (as @ bs)" by simp
  then have "set xs = set (as @ bs)" by (rule mset_eq_setD)
  moreover have "sorted_wrt P ys \<longleftrightarrow> sorted_wrt P (as @ bs) \<and> (\<forall>y \<in> set (as @ bs). P x y)"
    unfolding ys by (rule sorted_wrt_sym_middle) (rule sym)
  ultimately show ?case
    using Cons.IH [OF perm] by auto
qed simp

lemma remove1_length_mem: "x \<in> set xs \<Longrightarrow> int (length (remove1 x xs)) = int (length xs) - 1"
  by (induction xs) auto

end
