(* ===== verification/LockTypes.thy ===== *)
theory LockTypes
  imports Prelude
begin

text \<open>
  The data of the byte-range lock manager: lock descriptions (include/fsal_types.h), lock owners
  and their comparison (SAL/state_misc.c, SAL/nlm_owner.c, SAL/9p_owner.c, SAL/nfs4_owner.c),
  and lock entries with their blocking data (include/sal_data.h).  A pointer to an owner or a
  client is modelled by the structure it points to together with its address, so that pointer
  equality is equality of the tagged structures.
\<close>

section \<open>Lock descriptions\<close>

datatype fsal_lock_t = FSAL_LOCK_R | FSAL_LOCK_W | FSAL_NO_LOCK

datatype fsal_sle_type = FSAL_POSIX_LOCK | FSAL_LEASE_LOCK

datatype fsal_lock_op_t =
  FSAL_OP_LOCKT | FSAL_OP_LOCK | FSAL_OP_LOCKB | FSAL_OP_UNLOCK | FSAL_OP_CANCEL

record fsal_lock_param =
  lock_sle_type :: fsal_sle_type
  lock_type :: fsal_lock_t
  lock_start :: u64
  lock_length :: u64
  lock_reclaim :: bool

definition lock_end :: "fsal_lock_param \<Rightarrow> u64" where
  "lock_end lock =
     (if lock_length lock = 0 then UINT64_MAX else lock_start lock + lock_length lock - 1)"

definition different_lock :: "fsal_lock_param \<Rightarrow> fsal_lock_param \<Rightarrow> bool" where
  "different_lock lock1 lock2 \<longleftrightarrow>
     lock_type lock1 \<noteq> lock_type lock2 \<or> lock_start lock1 \<noteq> lock_start lock2
     \<or> lock_length lock1 \<noteq> lock_length lock2"

text \<open>
  The bytes a description covers, and the descriptions whose last byte does not wrap around.
\<close>

definition bytes :: "fsal_lock_param \<Rightarrow> u64 set" where
  "bytes lock = {lock_start lock .. lock_end lock}"

definition range_ok :: "fsal_lock_param \<Rightarrow> bool" where
  "range_ok lock \<longleftrightarrow> lock_start lock \<le> lock_end lock"

lemma mem_bytes [range_simps]: "b \<in> bytes l \<longleftrightarrow> lock_start l \<le> b \<and> b \<le> lock_end l"
  by (auto simp: bytes_def)

lemma bytes_overlap_iff [range_simps]:
  assumes "range_ok k" and "range_ok l"
  shows "bytes k \<inter> bytes l \<noteq> {} \<longleftrightarrow> lock_start l \<le> lock_end k \<and> lock_start k \<le> lock_end l"
proof -
  have "max (lock_start k) (lock_start l) \<in> bytes k \<inter> bytes l"
    if "lock_start l \<le> lock_end k" "lock_start k \<le> lock_end l"
    using that assms by (auto simp: mem_bytes range_ok_def)
  moreover have "lock_start l \<le> lock_end k \<and> lock_start k \<le> lock_end l"
    if "bytes k \<inter> bytes l \<noteq> {}"
    using that by (auto simp: mem_bytes)
  ultimately show ?thesis by blast
qed

lemma lock_end_of_end [range_simps]:
  assumes "s \<le> e"
  shows "lock_end (l\<lparr>lock_start := s, lock_length := e - s + 1\<rparr>) = e"
proof (cases "e - s + 1 = 0")
  case True
  moreover have "e = (e - s + 1) + (s - 1)" by simp
  ultimately have "e = s - 1" by simp
  with assms have "s = 0" by (simp add: less_eq_dec_self_iff_eq)
  with \<open>e = s - 1\<close> True show ?thesis by (simp add: lock_end_def)
next
  case False
  then show ?thesis by (simp add: lock_end_def)
qed

lemma lock_end_of_length [range_simps]:
  "s < t \<Longrightarrow> lock_start l = s \<Longrightarrow> lock_end (l\<lparr>lock_length := t - s\<rparr>) = t - 1"
  by (simp add: lock_end_def) (metis less_irrefl)

lemma lock_end_of_right [range_simps]:
  "e < f \<Longrightarrow> lock_end (l\<lparr>lock_start := e + 1, lock_length := f - e\<rparr>) = f"
  by (simp add: lock_end_def) (metis less_irrefl)

section \<open>Lock owners\<close>

datatype sockaddr = AF_INET u32 u16 | AF_INET6 "u8 list" u16 | AF_UNSPEC

record nsm_client =
  ssc_ptr :: ptr
  ssc_client :: ptr
  ssc_nlm_caller_name :: "u8 list"

record nlm_client =
  slc_ptr :: ptr
  slc_nsm_client :: nsm_client
  slc_client_type :: nat
  slc_server_addr :: sockaddr
  slc_nlm_caller_name :: "u8 list"

text \<open>The owner type together with the member of the union it selects.\<close>

datatype so_kind =
    STATE_LOCK_OWNER_UNKNOWN
  | is_STATE_LOCK_OWNER_NLM: STATE_LOCK_OWNER_NLM (so_client: nlm_client) (so_nlm_svid: u32)
  | is_STATE_LOCK_OWNER_9P: STATE_LOCK_OWNER_9P (proc_id: u32) (client_addr: sockaddr)
  | STATE_OPEN_OWNER_NFSV4 (so_clientid: u64)
  | STATE_LOCK_OWNER_NFSV4 (so_clientid: u64)
  | STATE_CLIENTID_OWNER_NFSV4 (so_clientid: u64)

text \<open>The type of an owner, by its position in the enumeration.\<close>

fun so_type :: "so_kind \<Rightarrow> nat" where
  "so_type STATE_LOCK_OWNER_UNKNOWN = 0"
| "so_type (STATE_LOCK_OWNER_NLM _ _) = 1"
| "so_type (STATE_LOCK_OWNER_9P _ _) = 2"
| "so_type (STATE_OPEN_OWNER_NFSV4 _) = 3"
| "so_type (STATE_LOCK_OWNER_NFSV4 _) = 4"
| "so_type (STATE_CLIENTID_OWNER_NFSV4 _) = 5"

record state_owner =
  so_ptr :: ptr
  so_owner :: so_kind
  so_owner_val :: "u8 list"

text \<open>The build has no AF_VSOCK addresses (RPC_VSOCK is not defined).\<close>

definition cmp_sockaddr :: "sockaddr \<Rightarrow> sockaddr \<Rightarrow> bool \<Rightarrow> bool" where
  "cmp_sockaddr addr1 addr2 ignore_port =
     (case (addr1, addr2) of
        (AF_INET a p, AF_INET b q) \<Rightarrow> a = b \<and> (ignore_port \<or> p = q)
      | (AF_INET6 a p, AF_INET6 b q) \<Rightarrow> a = b \<and> (ignore_port \<or> p = q)
      | _ \<Rightarrow> False)"

text \<open>
  The comparison functions return a non-zero value when their arguments differ; that value is
  modelled by True.  The first argument is the configuration parameter
  \<open>nfs_param.core_param.nsm_use_caller_name\<close>.
\<close>

definition compare_nsm_client :: "bool \<Rightarrow> nsm_client \<Rightarrow> nsm_client \<Rightarrow> bool" where
  "compare_nsm_client use_name client1 client2 =
     (if client1 = client2 then False
      else if \<not> use_name then ssc_client client1 \<noteq> ssc_client client2
      else if length (ssc_nlm_caller_name client1) \<noteq> length (ssc_nlm_caller_name client2)
        then True
      else ssc_nlm_caller_name client1 \<noteq> ssc_nlm_caller_name client2)"

definition compare_nlm_client :: "bool \<Rightarrow> nlm_client \<Rightarrow> nlm_client \<Rightarrow> bool" where
  "compare_nlm_client use_name client1 client2 =
     (if client1 = client2 then False
      else if compare_nsm_client use_name (slc_nsm_client client1) (slc_nsm_client client2)
        then True
      else if \<not> cmp_sockaddr (slc_server_addr client1) (slc_server_addr client2) True then True
      else if slc_client_type client1 \<noteq> slc_client_type client2 then True
      else if length (slc_nlm_caller_name client1) \<noteq> length (slc_nlm_caller_name client2)
        then True
      else slc_nlm_caller_name client1 \<noteq> slc_nlm_caller_name client2)"

definition compare_owner_val :: "state_owner \<Rightarrow> state_owner \<Rightarrow> bool" where
  "compare_owner_val owner1 owner2 =
     (if length (so_owner_val owner1) \<noteq> length (so_owner_val owner2) then True
      else so_owner_val owner1 \<noteq> so_owner_val owner2)"

definition compare_nlm_owner :: "bool \<Rightarrow> state_owner \<Rightarrow> state_owner \<Rightarrow> bool" where
  "compare_nlm_owner use_name owner1 owner2 =
     (if owner1 = owner2 then False
      else if compare_nlm_client use_name (so_client (so_owner owner1)) (so_client (so_owner owner2))
        then True
      else if so_nlm_svid (so_owner owner1) \<noteq> so_nlm_svid (so_owner owner2) then True
      else compare_owner_val owner1 owner2)"

definition compare_9p_owner :: "state_owner \<Rightarrow> state_owner \<Rightarrow> bool" where
  "compare_9p_owner owner1 owner2 =
     (if owner1 = owner2 then False else proc_id (so_owner owner1) \<noteq> proc_id (so_owner owner2))"

definition compare_nfs4_owner :: "state_owner \<Rightarrow> state_owner \<Rightarrow> bool" where
  "compare_nfs4_owner owner1 owner2 =
     (if owner1 = owner2 then False
      else if so_type (so_owner owner1) \<noteq> so_type (so_owner owner2) then True
      else if so_clientid (so_owner owner1) \<noteq> so_clientid (so_owner owner2) then True
      else compare_owner_val owner1 owner2)"

definition different_owners ::
  "bool \<Rightarrow> state_owner option \<Rightarrow> state_owner option \<Rightarrow> bool" where
  "different_owners use_name owner1 owner2 =
     (case (owner1, owner2) of
        (Some a, Some b) \<Rightarrow>
          if a = b then False
          else (case (so_owner a, so_owner b) of
                  (STATE_LOCK_OWNER_NLM _ _, STATE_LOCK_OWNER_NLM _ _) \<Rightarrow>
                    compare_nlm_owner use_name a b
                | (STATE_LOCK_OWNER_9P _ _, STATE_LOCK_OWNER_9P _ _) \<Rightarrow> compare_9p_owner a b
                | (STATE_OPEN_OWNER_NFSV4 _, STATE_OPEN_OWNER_NFSV4 _) \<Rightarrow> compare_nfs4_owner a b
                | (STATE_LOCK_OWNER_NFSV4 _, STATE_LOCK_OWNER_NFSV4 _) \<Rightarrow> compare_nfs4_owner a b
                | (STATE_CLIENTID_OWNER_NFSV4 _, STATE_CLIENTID_OWNER_NFSV4 _) \<Rightarrow>
                    compare_nfs4_owner a b
                | _ \<Rightarrow> True)
      | _ \<Rightarrow> True)"

subsection \<open>The contract of owner comparison\<close>

text \<open>
  What the lock manager relies on: a missing owner differs from every owner, and not being
  different is an equivalence on the owners there are.
\<close>

locale owner_identity =
  fixes differ :: "'o option \<Rightarrow> 'o option \<Rightarrow> bool"
  assumes differ_NULL: "differ None y" "differ x None"
    and differ_refl: "\<not> differ (Some a) (Some a)"
    and differ_sym: "differ x y \<Longrightarrow> differ y x"
    and differ_trans: "\<not> differ x y \<Longrightarrow> \<not> differ y z \<Longrightarrow> \<not> differ x z"
begin

lemma differ_commute: "differ x y = differ y x"
  using differ_sym by blast

lemma differ_cong_left: "\<not> differ x y \<Longrightarrow> differ x z = differ y z"
  using differ_trans differ_sym by blast

lemma differ_cong_right: "\<not> differ x y \<Longrightarrow> differ z x = differ z y"
  using differ_cong_left differ_commute by metis

lemma same_not_NULL: "\<not> differ x y \<Longrightarrow> x \<noteq> None \<and> y \<noteq> None"
  using differ_NULL by metis

end

lemma cmp_sockaddr_sym: "cmp_sockaddr a b p = cmp_sockaddr b a p"
  by (auto simp: cmp_sockaddr_def split: sockaddr.splits)

lemma cmp_sockaddr_trans: "cmp_sockaddr a b p \<Longrightarrow> cmp_sockaddr b c p \<Longrightarrow> cmp_sockaddr a c p"
  by (auto simp: cmp_sockaddr_def split: sockaddr.splits)

lemma compare_nsm_client_sym: "compare_nsm_client u a b = compare_nsm_client u b a"
  by (auto simp: compare_nsm_client_def)

lemma compare_nsm_client_trans:
  "\<not> compare_nsm_client u a b \<Longrightarrow> \<not> compare_nsm_client u b c \<Longrightarrow> \<not> compare_nsm_client u a c"
  by (auto simp: compare_nsm_client_def split: if_splits)

lemma compare_nlm_client_iff:
  "\<not> compare_nlm_client u a b \<longleftrightarrow>
     a = b \<or> (\<not> compare_nsm_client u (slc_nsm_client a) (slc_nsm_client b)
             \<and> cmp_sockaddr (slc_server_addr a) (slc_server_addr b) True
             \<and> slc_client_type a = slc_client_type b
             \<and> slc_nlm_caller_name a = slc_nlm_caller_name b)"
  unfolding compare_nlm_client_def by (simp split: if_split) metis

lemma compare_nlm_client_sym: "compare_nlm_client u a b = compare_nlm_client u b a"
  using compare_nlm_client_iff compare_nsm_client_sym cmp_sockaddr_sym by metis

lemma compare_nlm_client_trans:
  assumes ab: "\<not> compare_nlm_client u a b" and bc: "\<not> compare_nlm_client u b c"
  shows "\<not> compare_nlm_client u a c"
proof (cases "a = b \<or> b = c")
  case True
  with assms show ?thesis by blast
next
  case False
  note 1 = ab [unfolded compare_nlm_client_iff] and 2 = bc [unfolded compare_nlm_client_iff]
  from False 1 2 have "\<not> compare_nsm_client u (slc_nsm_client a) (slc_nsm_client c)"
    using compare_nsm_client_trans by blast
  moreover from False 1 2 have "cmp_sockaddr (slc_server_addr a) (slc_server_addr c) True"
    using cmp_sockaddr_trans by blast
  ultimately show ?thesis
    using False 1 2 by (simp add: compare_nlm_client_iff)
qed

text \<open>The part of the comparison that looks at the owner type and the selected union member.\<close>

fun same_kind :: "bool \<Rightarrow> so_kind \<Rightarrow> so_kind \<Rightarrow> bool" where
  "same_kind u (STATE_LOCK_OWNER_NLM c s) (STATE_LOCK_OWNER_NLM d t) \<longleftrightarrow>
     \<not> compare_nlm_client u c d \<and> s = t"
| "same_kind u (STATE_LOCK_OWNER_9P p _) (STATE_LOCK_OWNER_9P q _) \<longleftrightarrow> p = q"
| "same_kind u (STATE_OPEN_OWNER_NFSV4 x) (STATE_OPEN_OWNER_NFSV4 y) \<longleftrightarrow> x = y"
| "same_kind u (STATE_LOCK_OWNER_NFSV4 x) (STATE_LOCK_OWNER_NFSV4 y) \<longleftrightarrow> x = y"
| "same_kind u (STATE_CLIENTID_OWNER_NFSV4 x) (STATE_CLIENTID_OWNER_NFSV4 y) \<longleftrightarrow> x = y"
| "same_kind u _ _ \<longleftrightarrow> False"

lemma same_kind_sym: "same_kind u k l \<Longrightarrow> same_kind u l k"
  using compare_nlm_client_sym by (cases "(u, k, l)" rule: same_kind.cases) auto

lemma same_kind_trans:
  assumes "same_kind u k l" and "same_kind u l m"
  shows "same_kind u k m"
  using assms(1)
proof (cases rule: same_kind.elims(2))
  case (1 c s d t)
  with assms(2) compare_nlm_client_trans [of u c d] show ?thesis by (cases m) auto
qed (use assms(2) in \<open>cases m; simp\<close>)+

lemma same_kind_9P: "same_kind u k l \<Longrightarrow> is_STATE_LOCK_OWNER_9P k = is_STATE_LOCK_OWNER_9P l"
  by (cases "(u, k, l)" rule: same_kind.cases) auto

lemma different_owners_Some:
  "different_owners u (Some a) (Some b) \<longleftrightarrow>
     a \<noteq> b \<and> \<not> (same_kind u (so_owner a) (so_owner b)
                 \<and> (is_STATE_LOCK_OWNER_9P (so_owner a) \<or> so_owner_val a = so_owner_val b))"
  by (cases "so_owner a"; cases "so_owner b")
    (simp_all only: different_owners_def compare_nlm_owner_def compare_9p_owner_def
       compare_nfs4_owner_def compare_owner_val_def option.case prod.case so_kind.case
       so_kind.sel so_kind.disc same_kind.simps so_type.simps, auto)

lemma different_owners_sym: "different_owners u a b = different_owners u b a"
proof (cases "\<exists>x y. a = Some x \<and> b = Some y")
  case True
  then show ?thesis
    using same_kind_sym same_kind_9P by (auto simp: different_owners_Some)
next
  case False
  then show ?thesis by (auto simp: different_owners_def split: option.splits)
qed

lemma different_owners_trans:
  assumes "\<not> different_owners u a b" and "\<not> different_owners u b c"
  shows "\<not> different_owners u a c"
proof -
  obtain x y z where "a = Some x" "b = Some y" "c = Some z"
    using assms by (auto simp: different_owners_def split: option.splits)
  then show ?thesis
    using assms same_kind_trans same_kind_9P by (auto simp: different_owners_Some)
qed

interpretation own: owner_identity "different_owners u" for u
proof
  show "different_owners u None y" for y by (simp add: different_owners_def)
  show "different_owners u x None" for x by (simp add: different_owners_def split: option.splits)
  show "\<not> different_owners u (Some a) (Some a)" for a by (simp add: different_owners_def)
  show "different_owners u x y \<Longrightarrow> different_owners u y x" for x y
    by (simp add: different_owners_sym)
  show "\<not> different_owners u x y \<Longrightarrow> \<not> different_owners u y z \<Longrightarrow> \<not> different_owners u x z" for x y z
    by (rule different_owners_trans)
qed

section \<open>Lock entries\<close>

datatype state_blocking =
  STATE_NON_BLOCKING | STATE_NLM_BLOCKING | STATE_NFSV4_BLOCKING | STATE_GRANTING | STATE_CANCELED

datatype state_grant_type =
    STATE_GRANT_NONE
  | STATE_GRANT_INTERNAL
  | STATE_GRANT_FSAL
  | STATE_GRANT_FSAL_AVAILABLE
  | STATE_GRANT_POLL

datatype state_block_type =
  STATE_BLOCK_NONE | STATE_BLOCK_INTERNAL | STATE_BLOCK_ASYNC | STATE_BLOCK_POLL

text \<open>
  The data of a blocked lock.  The attached cookie is given by its bytes, which are its key in the
  cookie table.
\<close>

record state_block_data =
  sbd_grant_type :: state_grant_type
  sbd_block_type :: state_block_type
  sbd_blocked_cookie :: "u8 list option"

record sle =
  sle_id :: ptr
  sle_obj :: ptr
  sle_export :: ptr
  sle_block_data :: "state_block_data option"
  sle_owner :: "state_owner option"
  sle_state :: "ptr option"
  sle_blocked :: state_blocking
  sle_ref_count :: int
  sle_lock :: fsal_lock_param

end
