(* ===== verification/StateErrors.thy ===== *)
theory StateErrors
  imports Prelude
begin

text \<open>
  Status codes of the state abstraction layer (include/gsh_status.h) and of the file system
  abstraction layer (include/fsal_types.h), and their translation into each other and into the
  protocol errors of NFSv4, NFSv3 (SAL/state_misc.c) and NLM (Protocols/NLM/nlm_util.c).  Of the
  NFSv4 errors only those the modelled code produces are listed.
\<close>

datatype (plugins only: code) state_status =
    STATE_SUCCESS | STATE_MALLOC_ERROR | STATE_POOL_MUTEX_INIT_ERROR
  | STATE_GET_NEW_LRU_ENTRY | STATE_INIT_ENTRY_FAILED | STATE_FSAL_ERROR
  | STATE_LRU_ERROR | STATE_HASH_SET_ERROR | STATE_NOT_A_DIRECTORY
  | STATE_INCONSISTENT_ENTRY | STATE_BAD_TYPE | STATE_ENTRY_EXISTS
  | STATE_DIR_NOT_EMPTY | STATE_NOT_FOUND | STATE_INVALID_ARGUMENT
  | STATE_INSERT_ERROR | STATE_HASH_TABLE_ERROR | STATE_FSAL_EACCESS
  | STATE_IS_A_DIRECTORY | STATE_FSAL_EPERM | STATE_NO_SPACE_LEFT
  | STATE_READ_ONLY_FS | STATE_IO_ERROR | STATE_ESTALE
  | STATE_FSAL_ERR_SEC | STATE_LOCKED | STATE_QUOTA_EXCEEDED
  | STATE_ASYNC_POST_ERROR | STATE_NOT_SUPPORTED | STATE_STATE_ERROR
  | STATE_FSAL_DELAY | STATE_NAME_TOO_LONG | STATE_LOCK_CONFLICT
  | STATE_LOCK_BLOCKED | STATE_LOCK_DEADLOCK | STATE_BAD_COOKIE
  | STATE_FILE_BIG | STATE_GRACE_PERIOD | STATE_CACHE_INODE_ERR
  | STATE_SIGNAL_ERROR | STATE_FILE_OPEN | STATE_MLINK
  | STATE_SERVERFAULT | STATE_TOOSMALL | STATE_XDEV
  | STATE_SHARE_DENIED | STATE_IN_GRACE | STATE_BADHANDLE
  | STATE_BAD_RANGE

datatype (plugins only: code) fsal_errors =
    ERR_FSAL_NO_ERROR | ERR_FSAL_PERM | ERR_FSAL_NOENT
  | ERR_FSAL_IO | ERR_FSAL_NXIO | ERR_FSAL_NOMEM
  | ERR_FSAL_ACCESS | ERR_FSAL_FAULT | ERR_FSAL_STILL_IN_USE
  | ERR_FSAL_EXIST | ERR_FSAL_XDEV | ERR_FSAL_NOTDIR
  | ERR_FSAL_ISDIR | ERR_FSAL_INVAL | ERR_FSAL_FBIG
  | ERR_FSAL_NOSPC | ERR_FSAL_ROFS | ERR_FSAL_MLINK
  | ERR_FSAL_DQUOT | ERR_FSAL_NO_DATA | ERR_FSAL_NAMETOOLONG
  | ERR_FSAL_NOTEMPTY | ERR_FSAL_STALE | ERR_FSAL_BADHANDLE
  | ERR_FSAL_BADCOOKIE | ERR_FSAL_NOTSUPP | ERR_FSAL_TOOSMALL
  | ERR_FSAL_SERVERFAULT | ERR_FSAL_BADTYPE | ERR_FSAL_DELAY
  | ERR_FSAL_LOCKED | ERR_FSAL_FHEXPIRED | ERR_FSAL_SHARE_DENIED
  | ERR_FSAL_SYMLINK | ERR_FSAL_ATTRNOTSUPP | ERR_FSAL_BAD_RANGE
  | ERR_FSAL_NOT_INIT | ERR_FSAL_ALREADY_INIT | ERR_FSAL_BAD_INIT
  | ERR_FSAL_SEC | ERR_FSAL_NO_QUOTA | ERR_FSAL_NOT_OPENED
  | ERR_FSAL_DEADLOCK | ERR_FSAL_OVERFLOW | ERR_FSAL_INTERRUPT
  | ERR_FSAL_BLOCKED | ERR_FSAL_TIMEOUT | ERR_FSAL_FILE_OPEN
  | ERR_FSAL_UNION_NOTSUPP | ERR_FSAL_IN_GRACE | ERR_FSAL_NO_ACE
  | ERR_FSAL_CROSS_JUNCTION | ERR_FSAL_BADNAME

datatype (plugins only: code) nfsstat4 =
    NFS4_OK | NFS4ERR_RESOURCE | NFS4ERR_SERVERFAULT
  | NFS4ERR_INVAL | NFS4ERR_NOTDIR | NFS4ERR_EXIST
  | NFS4ERR_NOTEMPTY | NFS4ERR_NOENT | NFS4ERR_IO
  | NFS4ERR_ACCESS | NFS4ERR_PERM | NFS4ERR_NOSPC
  | NFS4ERR_ISDIR | NFS4ERR_ROFS | NFS4ERR_FILE_OPEN
  | NFS4ERR_NAMETOOLONG | NFS4ERR_STALE | NFS4ERR_SHARE_DENIED
  | NFS4ERR_LOCKED | NFS4ERR_DQUOT | NFS4ERR_NOTSUPP
  | NFS4ERR_DELAY | NFS4ERR_FBIG | NFS4ERR_DEADLOCK
  | NFS4ERR_DENIED | NFS4ERR_BAD_STATEID | NFS4ERR_BAD_COOKIE
  | NFS4ERR_GRACE | NFS4ERR_MLINK | NFS4ERR_TOOSMALL
  | NFS4ERR_XDEV | NFS4ERR_BADHANDLE | NFS4ERR_BAD_RANGE
  | NFS4ERR_BADSESSION | NFS4ERR_BADSLOT | NFS4ERR_SEQ_MISORDERED
  | NFS4ERR_RETRY_UNCACHED_REP | NFS4ERR_CONN_NOT_BOUND_TO_SESSION | NFS4ERR_SEQUENCE_POS
  | NFS4ERR_BAD_SEQID | NFS4ERR_STALE_CLIENTID | NFS4ERR_EXPIRED
  | NFS4ERR_REP_TOO_BIG | NFS4ERR_REP_TOO_BIG_TO_CACHE | NFS4ERR_REQ_TOO_BIG
  | NFS4ERR_TOO_MANY_OPS | NFS4ERR_OLD_STATEID | NFS4ERR_LOCKS_HELD

datatype (plugins only: code) nfsstat3 =
    NFS3_OK | NFS3ERR_IO | NFS3ERR_INVAL
  | NFS3ERR_NOTDIR | NFS3ERR_EXIST | NFS3ERR_NOTEMPTY
  | NFS3ERR_NOENT | NFS3ERR_ACCES | NFS3ERR_PERM
  | NFS3ERR_NOSPC | NFS3ERR_ISDIR | NFS3ERR_ROFS
  | NFS3ERR_STALE | NFS3ERR_DQUOT | NFS3ERR_BADTYPE
  | NFS3ERR_NOTSUPP | NFS3ERR_JUKEBOX | NFS3ERR_NAMETOOLONG
  | NFS3ERR_FBIG | NFS3ERR_BAD_COOKIE | NFS3ERR_MLINK
  | NFS3ERR_SERVERFAULT | NFS3ERR_TOOSMALL | NFS3ERR_XDEV
  | NFS3ERR_BADHANDLE

datatype nlm4_stats =
    NLM4_GRANTED | NLM4_DENIED | NLM4_DENIED_NOLOCKS | NLM4_BLOCKED | NLM4_DENIED_GRACE_PERIOD
  | NLM4_DEADLCK | NLM4_ROFS | NLM4_STALE_FH | NLM4_FBIG | NLM4_FAILED

primrec state_error_convert :: "fsal_errors \<Rightarrow> state_status" where
  "state_error_convert ERR_FSAL_NO_ERROR = STATE_SUCCESS"
| "state_error_convert ERR_FSAL_NOENT = STATE_NOT_FOUND"
| "state_error_convert ERR_FSAL_DELAY = STATE_LOCK_CONFLICT"
| "state_error_convert ERR_FSAL_ACCESS = STATE_LOCK_CONFLICT"
| "state_error_convert ERR_FSAL_PERM = STATE_FSAL_EPERM"
| "state_error_convert ERR_FSAL_NOSPC = STATE_NO_SPACE_LEFT"
| "state_error_convert ERR_FSAL_ROFS = STATE_READ_ONLY_FS"
| "state_error_convert ERR_FSAL_IO = STATE_IO_ERROR"
| "state_error_convert ERR_FSAL_NXIO = STATE_IO_ERROR"
| "state_error_convert ERR_FSAL_STALE = STATE_ESTALE"
| "state_error_convert ERR_FSAL_FHEXPIRED = STATE_ESTALE"
| "state_error_convert ERR_FSAL_INVAL = STATE_INVALID_ARGUMENT"
| "state_error_convert ERR_FSAL_OVERFLOW = STATE_INVALID_ARGUMENT"
| "state_error_convert ERR_FSAL_SEC = STATE_FSAL_ERR_SEC"
| "state_error_convert ERR_FSAL_NOTSUPP = STATE_NOT_SUPPORTED"
| "state_error_convert ERR_FSAL_ATTRNOTSUPP = STATE_NOT_SUPPORTED"
| "state_error_convert ERR_FSAL_UNION_NOTSUPP = STATE_NOT_SUPPORTED"
| "state_error_convert ERR_FSAL_NOMEM = STATE_MALLOC_ERROR"
| "state_error_convert ERR_FSAL_DEADLOCK = STATE_LOCK_DEADLOCK"
| "state_error_convert ERR_FSAL_BADCOOKIE = STATE_BAD_COOKIE"
| "state_error_convert ERR_FSAL_NOT_OPENED = STATE_FSAL_ERROR"
| "state_error_convert ERR_FSAL_SYMLINK = STATE_BAD_TYPE"
| "state_error_convert ERR_FSAL_BADTYPE = STATE_BAD_TYPE"
| "state_error_convert ERR_FSAL_ISDIR = STATE_IS_A_DIRECTORY"
| "state_error_convert ERR_FSAL_FBIG = STATE_FILE_BIG"
| "state_error_convert ERR_FSAL_FILE_OPEN = STATE_FILE_OPEN"
| "state_error_convert ERR_FSAL_SHARE_DENIED = STATE_SHARE_DENIED"
| "state_error_convert ERR_FSAL_BLOCKED = STATE_LOCK_BLOCKED"
| "state_error_convert ERR_FSAL_IN_GRACE = STATE_IN_GRACE"
| "state_error_convert ERR_FSAL_BADHANDLE = STATE_BADHANDLE"
| "state_error_convert ERR_FSAL_BAD_RANGE = STATE_BAD_RANGE"
| "state_error_convert ERR_FSAL_LOCKED = STATE_LOCKED"
| "state_error_convert ERR_FSAL_TOOSMALL = STATE_TOOSMALL"
| "state_error_convert ERR_FSAL_DQUOT = STATE_FSAL_ERROR"
| "state_error_convert ERR_FSAL_NAMETOOLONG = STATE_FSAL_ERROR"
| "state_error_convert ERR_FSAL_STILL_IN_USE = STATE_FSAL_ERROR"
| "state_error_convert ERR_FSAL_EXIST = STATE_FSAL_ERROR"
| "state_error_convert ERR_FSAL_NOTEMPTY = STATE_FSAL_ERROR"
| "state_error_convert ERR_FSAL_NOTDIR = STATE_FSAL_ERROR"
| "state_error_convert ERR_FSAL_INTERRUPT = STATE_FSAL_ERROR"
| "state_error_convert ERR_FSAL_FAULT = STATE_FSAL_ERROR"
| "state_error_convert ERR_FSAL_NOT_INIT = STATE_FSAL_ERROR"
| "state_error_convert ERR_FSAL_ALREADY_INIT = STATE_FSAL_ERROR"
| "state_error_convert ERR_FSAL_BAD_INIT = STATE_FSAL_ERROR"
| "state_error_convert ERR_FSAL_NO_QUOTA = STATE_FSAL_ERROR"
| "state_error_convert ERR_FSAL_XDEV = STATE_FSAL_ERROR"
| "state_error_convert ERR_FSAL_MLINK = STATE_FSAL_ERROR"
| "state_error_convert ERR_FSAL_TIMEOUT = STATE_FSAL_ERROR"
| "state_error_convert ERR_FSAL_SERVERFAULT = STATE_FSAL_ERROR"
| "state_error_convert ERR_FSAL_NO_DATA = STATE_FSAL_ERROR"
| "state_error_convert ERR_FSAL_NO_ACE = STATE_FSAL_ERROR"
| "state_error_convert ERR_FSAL_CROSS_JUNCTION = STATE_FSAL_ERROR"
| "state_error_convert ERR_FSAL_BADNAME = STATE_FSAL_ERROR"

primrec nfs4_Errno_state :: "state_status \<Rightarrow> nfsstat4" where
  "nfs4_Errno_state STATE_SUCCESS = NFS4_OK"
| "nfs4_Errno_state STATE_MALLOC_ERROR = NFS4ERR_RESOURCE"
| "nfs4_Errno_state STATE_POOL_MUTEX_INIT_ERROR = NFS4ERR_SERVERFAULT"
| "nfs4_Errno_state STATE_GET_NEW_LRU_ENTRY = NFS4ERR_SERVERFAULT"
| "nfs4_Errno_state STATE_INIT_ENTRY_FAILED = NFS4ERR_SERVERFAULT"
| "nfs4_Errno_state STATE_BAD_TYPE = NFS4ERR_INVAL"
| "nfs4_Errno_state STATE_NOT_A_DIRECTORY = NFS4ERR_NOTDIR"
| "nfs4_Errno_state STATE_ENTRY_EXISTS = NFS4ERR_EXIST"
| "nfs4_Errno_state STATE_DIR_NOT_EMPTY = NFS4ERR_NOTEMPTY"
| "nfs4_Errno_state STATE_NOT_FOUND = NFS4ERR_NOENT"
| "nfs4_Errno_state STATE_FSAL_ERROR = NFS4ERR_IO"
| "nfs4_Errno_state STATE_INSERT_ERROR = NFS4ERR_IO"
| "nfs4_Errno_state STATE_LRU_ERROR = NFS4ERR_IO"
| "nfs4_Errno_state STATE_HASH_SET_ERROR = NFS4ERR_IO"
| "nfs4_Errno_state STATE_FSAL_EACCESS = NFS4ERR_ACCESS"
| "nfs4_Errno_state STATE_FSAL_EPERM = NFS4ERR_PERM"
| "nfs4_Errno_state STATE_FSAL_ERR_SEC = NFS4ERR_PERM"
| "nfs4_Errno_state STATE_NO_SPACE_LEFT = NFS4ERR_NOSPC"
| "nfs4_Errno_state STATE_IS_A_DIRECTORY = NFS4ERR_ISDIR"
| "nfs4_Errno_state STATE_READ_ONLY_FS = NFS4ERR_ROFS"
| "nfs4_Errno_state STATE_IO_ERROR = NFS4ERR_IO"
| "nfs4_Errno_state STATE_FILE_OPEN = NFS4ERR_FILE_OPEN"
| "nfs4_Errno_state STATE_NAME_TOO_LONG = NFS4ERR_NAMETOOLONG"
| "nfs4_Errno_state STATE_ESTALE = NFS4ERR_STALE"
| "nfs4_Errno_state STATE_SHARE_DENIED = NFS4ERR_SHARE_DENIED"
| "nfs4_Errno_state STATE_LOCKED = NFS4ERR_LOCKED"
| "nfs4_Errno_state STATE_QUOTA_EXCEEDED = NFS4ERR_DQUOT"
| "nfs4_Errno_state STATE_NOT_SUPPORTED = NFS4ERR_NOTSUPP"
| "nfs4_Errno_state STATE_FSAL_DELAY = NFS4ERR_DELAY"
| "nfs4_Errno_state STATE_FILE_BIG = NFS4ERR_FBIG"
| "nfs4_Errno_state STATE_LOCK_DEADLOCK = NFS4ERR_DEADLOCK"
| "nfs4_Errno_state STATE_LOCK_BLOCKED = NFS4ERR_DENIED"
| "nfs4_Errno_state STATE_LOCK_CONFLICT = NFS4ERR_DENIED"
| "nfs4_Errno_state STATE_STATE_ERROR = NFS4ERR_BAD_STATEID"
| "nfs4_Errno_state STATE_BAD_COOKIE = NFS4ERR_BAD_COOKIE"
| "nfs4_Errno_state STATE_GRACE_PERIOD = NFS4ERR_GRACE"
| "nfs4_Errno_state STATE_SERVERFAULT = NFS4ERR_SERVERFAULT"
| "nfs4_Errno_state STATE_MLINK = NFS4ERR_MLINK"
| "nfs4_Errno_state STATE_TOOSMALL = NFS4ERR_TOOSMALL"
| "nfs4_Errno_state STATE_IN_GRACE = NFS4ERR_GRACE"
| "nfs4_Errno_state STATE_XDEV = NFS4ERR_XDEV"
| "nfs4_Errno_state STATE_BADHANDLE = NFS4ERR_BADHANDLE"
| "nfs4_Errno_state STATE_BAD_RANGE = NFS4ERR_BAD_RANGE"
| "nfs4_Errno_state STATE_INVALID_ARGUMENT = NFS4ERR_INVAL"
| "nfs4_Errno_state STATE_CACHE_INODE_ERR = NFS4ERR_INVAL"
| "nfs4_Errno_state STATE_INCONSISTENT_ENTRY = NFS4ERR_INVAL"
| "nfs4_Errno_state STATE_HASH_TABLE_ERROR = NFS4ERR_INVAL"
| "nfs4_Errno_state STATE_ASYNC_POST_ERROR = NFS4ERR_INVAL"
| "nfs4_Errno_state STATE_SIGNAL_ERROR = NFS4ERR_INVAL"

primrec nfs3_Errno_state :: "state_status \<Rightarrow> nfsstat3" where
  "nfs3_Errno_state STATE_SUCCESS = NFS3_OK"
| "nfs3_Errno_state STATE_MALLOC_ERROR = NFS3ERR_IO"
| "nfs3_Errno_state STATE_POOL_MUTEX_INIT_ERROR = NFS3ERR_IO"
| "nfs3_Errno_state STATE_GET_NEW_LRU_ENTRY = NFS3ERR_IO"
| "nfs3_Errno_state STATE_INIT_ENTRY_FAILED = NFS3ERR_IO"
| "nfs3_Errno_state STATE_INSERT_ERROR = NFS3ERR_IO"
| "nfs3_Errno_state STATE_LRU_ERROR = NFS3ERR_IO"
| "nfs3_Errno_state STATE_HASH_SET_ERROR = NFS3ERR_IO"
| "nfs3_Errno_state STATE_FILE_OPEN = NFS3ERR_IO"
| "nfs3_Errno_state STATE_INVALID_ARGUMENT = NFS3ERR_INVAL"
| "nfs3_Errno_state STATE_FSAL_ERROR = NFS3ERR_IO"
| "nfs3_Errno_state STATE_NOT_A_DIRECTORY = NFS3ERR_NOTDIR"
| "nfs3_Errno_state STATE_ENTRY_EXISTS = NFS3ERR_EXIST"
| "nfs3_Errno_state STATE_DIR_NOT_EMPTY = NFS3ERR_NOTEMPTY"
| "nfs3_Errno_state STATE_NOT_FOUND = NFS3ERR_NOENT"
| "nfs3_Errno_state STATE_FSAL_EACCESS = NFS3ERR_ACCES"
| "nfs3_Errno_state STATE_LOCKED = NFS3ERR_PERM"
| "nfs3_Errno_state STATE_FSAL_EPERM = NFS3ERR_PERM"
| "nfs3_Errno_state STATE_FSAL_ERR_SEC = NFS3ERR_PERM"
| "nfs3_Errno_state STATE_NO_SPACE_LEFT = NFS3ERR_NOSPC"
| "nfs3_Errno_state STATE_IS_A_DIRECTORY = NFS3ERR_ISDIR"
| "nfs3_Errno_state STATE_READ_ONLY_FS = NFS3ERR_ROFS"
| "nfs3_Errno_state STATE_ESTALE = NFS3ERR_STALE"
| "nfs3_Errno_state STATE_QUOTA_EXCEEDED = NFS3ERR_DQUOT"
| "nfs3_Errno_state STATE_BAD_TYPE = NFS3ERR_BADTYPE"
| "nfs3_Errno_state STATE_NOT_SUPPORTED = NFS3ERR_NOTSUPP"
| "nfs3_Errno_state STATE_FSAL_DELAY = NFS3ERR_JUKEBOX"
| "nfs3_Errno_state STATE_SHARE_DENIED = NFS3ERR_JUKEBOX"
| "nfs3_Errno_state STATE_IO_ERROR = NFS3ERR_IO"
| "nfs3_Errno_state STATE_NAME_TOO_LONG = NFS3ERR_NAMETOOLONG"
| "nfs3_Errno_state STATE_FILE_BIG = NFS3ERR_FBIG"
| "nfs3_Errno_state STATE_BAD_COOKIE = NFS3ERR_BAD_COOKIE"
| "nfs3_Errno_state STATE_MLINK = NFS3ERR_MLINK"
| "nfs3_Errno_state STATE_SERVERFAULT = NFS3ERR_SERVERFAULT"
| "nfs3_Errno_state STATE_TOOSMALL = NFS3ERR_TOOSMALL"
| "nfs3_Errno_state STATE_XDEV = NFS3ERR_XDEV"
| "nfs3_Errno_state STATE_IN_GRACE = NFS3ERR_JUKEBOX"
| "nfs3_Errno_state STATE_BADHANDLE = NFS3ERR_BADHANDLE"
| "nfs3_Errno_state STATE_CACHE_INODE_ERR = NFS3ERR_INVAL"
| "nfs3_Errno_state STATE_INCONSISTENT_ENTRY = NFS3ERR_INVAL"
| "nfs3_Errno_state STATE_HASH_TABLE_ERROR = NFS3ERR_INVAL"
| "nfs3_Errno_state STATE_ASYNC_POST_ERROR = NFS3ERR_INVAL"
| "nfs3_Errno_state STATE_STATE_ERROR = NFS3ERR_INVAL"
| "nfs3_Errno_state STATE_LOCK_CONFLICT = NFS3ERR_INVAL"
| "nfs3_Errno_state STATE_LOCK_BLOCKED = NFS3ERR_INVAL"
| "nfs3_Errno_state STATE_LOCK_DEADLOCK = NFS3ERR_INVAL"
| "nfs3_Errno_state STATE_GRACE_PERIOD = NFS3ERR_INVAL"
| "nfs3_Errno_state STATE_SIGNAL_ERROR = NFS3ERR_INVAL"
| "nfs3_Errno_state STATE_BAD_RANGE = NFS3ERR_INVAL"

definition state_unlock_err_ok :: "state_status \<Rightarrow> bool" where
  "state_unlock_err_ok status \<longleftrightarrow> status = STATE_SUCCESS \<or> status = STATE_ESTALE"

definition nlm_convert_state_error :: "state_status \<Rightarrow> nlm4_stats" where
  "nlm_convert_state_error status =
     (case status of
        STATE_SUCCESS \<Rightarrow> NLM4_GRANTED
      | STATE_LOCK_CONFLICT \<Rightarrow> NLM4_DENIED
      | STATE_SHARE_DENIED \<Rightarrow> NLM4_DENIED
      | STATE_MALLOC_ERROR \<Rightarrow> NLM4_DENIED_NOLOCKS
      | STATE_LOCK_BLOCKED \<Rightarrow> NLM4_BLOCKED
      | STATE_GRACE_PERIOD \<Rightarrow> NLM4_DENIED_GRACE_PERIOD
      | STATE_LOCK_DEADLOCK \<Rightarrow> NLM4_DEADLCK
      | STATE_READ_ONLY_FS \<Rightarrow> NLM4_ROFS
      | STATE_NOT_FOUND \<Rightarrow> NLM4_STALE_FH
      | STATE_ESTALE \<Rightarrow> NLM4_STALE_FH
      | STATE_FILE_BIG \<Rightarrow> NLM4_FBIG
      | STATE_BAD_RANGE \<Rightarrow> NLM4_FBIG
      | _ \<Rightarrow> NLM4_FAILED)"

section \<open>Success and failure are kept apart\<close>

lemma state_error_convert_SUCCESS [simp]:
  "state_error_convert e = STATE_SUCCESS \<longleftrightarrow> e = ERR_FSAL_NO_ERROR"
  by (cases e) simp_all

lemma nfs4_Errno_state_OK [simp]: "nfs4_Errno_state s = NFS4_OK \<longleftrightarrow> s = STATE_SUCCESS"
  by (cases s) simp_all

lemma nfs3_Errno_state_OK [simp]: "nfs3_Errno_state s = NFS3_OK \<longleftrightarrow> s = STATE_SUCCESS"
  by (cases s) simp_all

lemma nlm_convert_state_error_GRANTED [simp]:
  "nlm_convert_state_error s = NLM4_GRANTED \<longleftrightarrow> s = STATE_SUCCESS"
  by (cases s) (simp_all add: nlm_convert_state_error_def)

lemma state_error_convert_BLOCKED [simp]:
  "state_error_convert e = STATE_LOCK_BLOCKED \<longleftrightarrow> e = ERR_FSAL_BLOCKED"
  by (cases e) simp_all

lemma state_error_convert_CONFLICT [simp]:
  "state_error_convert e = STATE_LOCK_CONFLICT \<longleftrightarrow> e = ERR_FSAL_DELAY \<or> e = ERR_FSAL_ACCESS"
  by (cases e) simp_all

end
