(* ===== verification/SalState.thy ===== *)
theory SalState
  imports LockTypes StateErrors
begin

text \<open>
  The state the lock manager of SAL/state_lock.c works on, and the primitives that create, share
  and release lock entries and call the file system.  The entries of a file are kept by value in
  its lock list (the list linked through \<open>sle_list\<close>); the other lists an entry is linked on hold
  its address, and \<open>sle_file\<close> gives the file of an address.  An entry that is off the list of its
  file but still referenced lives in \<open>detached\<close>; a freed entry is nowhere, and its address leads to
  nothing any more.  Reference counts are integers; those of lock entries, the only ones the code
  tests, never leave the range of their C type (theory LockGuarantees).  A result of None stands for
  the dereference of a NULL or dangling pointer.  The field \<open>async_queue\<close> holds the blocked locks handed to the
  asynchronous thread of SAL/state_async.c.
\<close>

section \<open>State\<close>

record state_cookie_entry =
  sce_obj :: ptr
  sce_lock_entry :: ptr
  sce_cookie :: "u8 list"

record granted_cookie =
  gc_seconds :: u64
  gc_microseconds :: u64
  gc_cookie :: u64

record 'f sal =
  sal_next :: ptr
  sle_file :: "ptr \<Rightarrow> ptr"
  lock_list :: "ptr \<Rightarrow> sle list"
  detached :: "sle list"
  so_lock_list :: "ptr \<Rightarrow> ptr list"
  state_locklist :: "ptr \<Rightarrow> ptr list"
  exp_lock_list :: "ptr \<Rightarrow> ptr list"
  ssc_lock_list :: "ptr \<Rightarrow> ptr list"
  so_refcount :: "ptr \<Rightarrow> int"
  state_refcount :: "ptr \<Rightarrow> int"
  export_refcount :: "ptr \<Rightarrow> int"
  obj_refcount :: "ptr \<Rightarrow> int"
  ssc_refcount :: "ptr \<Rightarrow> int"
  slc_refcount :: "ptr \<Rightarrow> int"
  state_seqid :: "ptr \<Rightarrow> u32"
  state_blocked_locks :: "ptr list"
  ht_lock_cookies :: "u8 list \<rightharpoonup> state_cookie_entry"
  granted_cookie_ctr :: granted_cookie
  async_queue :: "ptr list"
  fsal_state :: 'f

text \<open>
  The operations of the file system an export is served by, and the context of a request: the
  configuration, the export and the outcome of handing work to the asynchronous thread.
\<close>

record 'f fsal_ops =
  fso_lock_support :: bool
  fso_lock_support_async_block :: bool
  lock_op2 :: "ptr \<Rightarrow> ptr option \<Rightarrow> state_owner option \<Rightarrow> fsal_lock_op_t \<Rightarrow> fsal_lock_param \<Rightarrow> 'f
    \<Rightarrow> fsal_errors \<times> fsal_lock_param \<times> 'f"

record 'f op_ctx =
  nsm_use_caller_name :: bool
  ctx_export :: ptr
  export_fsal :: "ptr \<Rightarrow> 'f fsal_ops"
  export_ready :: "ptr \<Rightarrow> bool"
  obj_is_regular :: "ptr \<Rightarrow> bool"
  async_submit_ok :: bool

abbreviation fsal_export :: "'f op_ctx \<Rightarrow> 'f fsal_ops" where
  "fsal_export cx \<equiv> export_fsal cx (ctx_export cx)"

definition unknown_owner :: state_owner where
  "unknown_owner =
     \<lparr>so_ptr = 0, so_owner = STATE_LOCK_OWNER_UNKNOWN,
      so_owner_val = [103, 97, 110, 101, 115, 104, 97, 95, 117, 110, 107, 110, 111, 119, 110, 95,
                      111, 119, 110, 101, 114]\<rparr>"

abbreviation incr :: "(ptr \<Rightarrow> int) \<Rightarrow> ptr \<Rightarrow> ptr \<Rightarrow> int" where
  "incr f p \<equiv> f(p := f p + 1)"

abbreviation decr :: "(ptr \<Rightarrow> int) \<Rightarrow> ptr \<Rightarrow> ptr \<Rightarrow> int" where
  "decr f p \<equiv> f(p := f p - 1)"

abbreviation link :: "(ptr \<Rightarrow> ptr list) \<Rightarrow> ptr \<Rightarrow> ptr \<Rightarrow> ptr \<Rightarrow> ptr list" where
  "link f p i \<equiv> f(p := f p @ [i])"

abbreviation unlink :: "(ptr \<Rightarrow> ptr list) \<Rightarrow> ptr \<Rightarrow> ptr \<Rightarrow> ptr \<Rightarrow> ptr list" where
  "unlink f p i \<equiv> f(p := remove1 i (f p))"

abbreviation owner_nsm :: "state_owner \<Rightarrow> ptr" where
  "owner_nsm owner \<equiv> ssc_ptr (slc_nsm_client (so_client (so_owner owner)))"

section \<open>Lock entries\<close>

definition create_state_lock_entry ::
  "ptr \<Rightarrow> ptr \<Rightarrow> state_blocking \<Rightarrow> state_owner \<Rightarrow> ptr option \<Rightarrow> fsal_lock_param \<Rightarrow> 'f sal
    \<Rightarrow> sle \<times> 'f sal" where
  [sal_defs]: "create_state_lock_entry obj exp blocked owner state lock w =
     (let i = sal_next w;
          new_entry = \<lparr>sle_id = i, sle_obj = obj, sle_export = exp, sle_block_data = None,
                       sle_owner = Some owner, sle_state = state, sle_blocked = blocked,
                       sle_ref_count = 1, sle_lock = lock\<rparr>;
          w1 = w\<lparr>sal_next := Suc i, sle_file := (sle_file w)(i := obj)\<rparr>;
          w2 = (if is_STATE_LOCK_OWNER_NLM (so_owner owner)
                then w1\<lparr>ssc_refcount := incr (ssc_refcount w1) (owner_nsm owner),
                        ssc_lock_list := link (ssc_lock_list w1) (owner_nsm owner) i\<rparr>
                else w1);
          w3 = w2\<lparr>exp_lock_list := link (exp_lock_list w2) exp i,
                  export_refcount := incr (export_refcount w2) exp,
                  obj_refcount := incr (obj_refcount w2) obj,
                  so_refcount := incr (so_refcount w2) (so_ptr owner)\<rparr>;
          w4 = (case state of
                  None \<Rightarrow> w3
                | Some s \<Rightarrow> w3\<lparr>state_locklist := link (state_locklist w3) s i,
                               state_refcount := incr (state_refcount w3) s\<rparr>)
      in (new_entry, w4\<lparr>so_lock_list := link (so_lock_list w4) (so_ptr owner) i\<rparr>))"

definition state_lock_entry_t_dup :: "sle \<Rightarrow> 'f sal \<Rightarrow> (sle \<times> 'f sal) option" where
  [sal_defs]: "state_lock_entry_t_dup e w =
     (case sle_owner e of
        None \<Rightarrow> None
      | Some owner \<Rightarrow>
          Some (create_state_lock_entry (sle_obj e) (sle_export e) (sle_blocked e) owner
                  (sle_state e) (sle_lock e) w))"

text \<open>Write a changed entry back to wherever it is kept.\<close>

definition put_entry :: "sle \<Rightarrow> 'f sal \<Rightarrow> 'f sal" where
  [sal_defs]: "put_entry e w =
     (let subst = map (\<lambda>x. if sle_id x = sle_id e then e else x)
      in w\<lparr>lock_list := (lock_list w)(sle_obj e := subst (lock_list w (sle_obj e))),
           detached := subst (detached w)\<rparr>)"

definition lock_entry_inc_ref :: "sle \<Rightarrow> 'f sal \<Rightarrow> sle \<times> 'f sal" where
  [sal_defs]: "lock_entry_inc_ref e w =
     (let e' = e\<lparr>sle_ref_count := sle_ref_count e + 1\<rparr> in (e', put_entry e' w))"

text \<open>
  The part of releasing the last reference that follows the decrement.  The memory is gone even when
  the entry was still linked on the list of its file.
\<close>

definition free_lock_entry :: "sle \<Rightarrow> 'f sal \<Rightarrow> 'f sal" where
  [sal_defs]: "free_lock_entry e w =
     w\<lparr>state_blocked_locks := (if sle_block_data e \<noteq> None
                               then remove1 (sle_id e) (state_blocked_locks w)
                               else state_blocked_locks w),
       obj_refcount := decr (obj_refcount w) (sle_obj e),
       export_refcount := decr (export_refcount w) (sle_export e),
       lock_list := (lock_list w)
         (sle_obj e := filter (\<lambda>x. sle_id x \<noteq> sle_id e) (lock_list w (sle_obj e))),
       detached := filter (\<lambda>x. sle_id x \<noteq> sle_id e) (detached w)\<rparr>"

definition lock_entry_dec_ref :: "sle \<Rightarrow> 'f sal \<Rightarrow> 'f sal" where
  [sal_defs]: "lock_entry_dec_ref e w =
     (let e' = e\<lparr>sle_ref_count := sle_ref_count e - 1\<rparr>
      in if sle_ref_count e' = 0 then free_lock_entry e' w else put_entry e' w)"

text \<open>The links an entry with an owner has to its owner, client, export and state.\<close>

definition unlink_owner :: "sle \<Rightarrow> 'f sal \<Rightarrow> 'f sal" where
  [sal_defs]: "unlink_owner e w =
     (case sle_owner e of
        None \<Rightarrow> w
      | Some owner \<Rightarrow>
          (let i = sle_id e;
               w1 = (if is_STATE_LOCK_OWNER_NLM (so_owner owner)
                     then w\<lparr>ssc_lock_list := unlink (ssc_lock_list w) (owner_nsm owner) i,
                            ssc_refcount := decr (ssc_refcount w) (owner_nsm owner)\<rparr>
                     else w);
               w2 = w1\<lparr>exp_lock_list := unlink (exp_lock_list w1) (sle_export e) i,
                       so_lock_list := unlink (so_lock_list w1) (so_ptr owner) i,
                       so_refcount := decr (so_refcount w1) (so_ptr owner)\<rparr>
           in (case sle_state e of
                 None \<Rightarrow> w2
               | Some s \<Rightarrow> w2\<lparr>state_locklist := unlink (state_locklist w2) s i,
                              state_refcount := decr (state_refcount w2) s\<rparr>)))"

text \<open>
  Remove an entry from every list it is on and drop the reference the lists held.  An entry that
  is still referenced after that stays allocated, without an owner.
\<close>

definition remove_from_locklist :: "sle \<Rightarrow> 'f sal \<Rightarrow> 'f sal" where
  [sal_defs]: "remove_from_locklist e w =
     (let w1 = unlink_owner e w;
          w2 = w1\<lparr>lock_list := (lock_list w1)
                     (sle_obj e := filter (\<lambda>x. sle_id x \<noteq> sle_id e) (lock_list w1 (sle_obj e)))\<rparr>;
          e' = e\<lparr>sle_owner := None, sle_ref_count := sle_ref_count e - 1\<rparr>
      in if sle_ref_count e' = 0 then free_lock_entry e' w2
         else w2\<lparr>detached := e' # detached w2\<rparr>)"

fun free_list :: "sle list \<Rightarrow> 'f sal \<Rightarrow> 'f sal" where
  "free_list [] w = w"
| "free_list (e # es) w = free_list es (remove_from_locklist e w)"

section \<open>File system calls\<close>

text \<open>
  The out-parameters \<open>holder\<close> and \<open>conflict\<close> are the last component of the result; the caller
  asks for them with \<open>want\<close>.
\<close>

definition do_lock_op ::
  "'f op_ctx \<Rightarrow> ptr \<Rightarrow> ptr option \<Rightarrow> fsal_lock_op_t \<Rightarrow> state_owner option \<Rightarrow> fsal_lock_param \<Rightarrow> bool
    \<Rightarrow> 'f sal \<Rightarrow> state_status \<times> 'f sal \<times> (state_owner \<times> fsal_lock_param) option" where
  [sal_defs]: "do_lock_op cx obj state lock_op owner lock want w =
     (let x = fsal_export cx; async = fso_lock_support_async_block x in
      if \<not> fso_lock_support x \<or> (\<not> async \<and> lock_op = FSAL_OP_CANCEL) then (STATE_SUCCESS, w, None)
      else
        let fsal_lock_op = (if lock_op = FSAL_OP_LOCKB \<and> \<not> async then FSAL_OP_LOCK else lock_op);
            (major, conflicting_lock, f') =
              lock_op2 x obj state owner fsal_lock_op (lock\<lparr>lock_sle_type := FSAL_POSIX_LOCK\<rparr>)
                (fsal_state w);
            status0 = state_error_convert major;
            status = (if status0 = STATE_LOCK_BLOCKED \<and> fsal_lock_op \<noteq> FSAL_OP_LOCKB
                        then STATE_FSAL_ERROR
                      else if status0 = STATE_LOCK_CONFLICT \<and> lock_op = FSAL_OP_LOCKB
                        then STATE_LOCK_BLOCKED
                      else status0);
            w' = w\<lparr>fsal_state := f'\<rparr>
        in if status = STATE_LOCK_CONFLICT \<and> want
           then (status,
                 w'\<lparr>so_refcount := incr (so_refcount w') (so_ptr unknown_owner)\<rparr>,
                 Some (unknown_owner, conflicting_lock))
           else (status, w', None))"

end
