(* ===== verification/LockList.thy ===== *)
theory LockList
  imports SalState
begin

text \<open>
  The list operations of the lock manager: search for a conflicting entry, merge of a new lock
  into the list of its file, subtraction of an unlocked range (SAL/state_lock.c).  The loops over
  a list (glist_for_each_safe) are written over the part of the list already passed and the part
  still to visit; the successor of an entry is taken before its body runs, so an entry appended
  while the last entry is processed is not visited.
\<close>

section \<open>Operations\<close>

fun get_overlapping_entry ::
  "bool \<Rightarrow> sle list \<Rightarrow> state_owner option \<Rightarrow> fsal_lock_param \<Rightarrow> sle option" where
  "get_overlapping_entry u [] owner lock = None"
| "get_overlapping_entry u (found_entry # rest) owner lock =
     (if sle_blocked found_entry = STATE_NLM_BLOCKING
         \<or> sle_blocked found_entry = STATE_NFSV4_BLOCKING
         \<or> sle_blocked found_entry = STATE_CANCELED
      then get_overlapping_entry u rest owner lock
      else if lock_start lock \<le> lock_end (sle_lock found_entry)
              \<and> lock_start (sle_lock found_entry) \<le> lock_end lock
              \<and> (lock_type (sle_lock found_entry) = FSAL_LOCK_W \<or> lock_type lock = FSAL_LOCK_W)
              \<and> different_owners u (sle_owner found_entry) owner
      then Some found_entry
      else get_overlapping_entry u rest owner lock)"

subsection \<open>Merging a lock into the list\<close>

text \<open>
  What the body of the merge loop decides about one entry of the list: keep it, possibly shrunk;
  split it into a left part and a description for a new entry on the right; or take it over into
  the lock being merged.
\<close>

datatype merge_outcome = Keep sle | Split sle fsal_lock_param | Absorb sle

definition merge_step :: "bool \<Rightarrow> sle \<Rightarrow> sle \<Rightarrow> merge_outcome" where
  "merge_step u lock_entry check_entry =
     (if sle_id check_entry = sle_id lock_entry then Keep check_entry
      else if different_owners u (sle_owner check_entry) (sle_owner lock_entry)
        then Keep check_entry
      else if sle_blocked check_entry \<noteq> STATE_NON_BLOCKING then Keep check_entry
      else
        let check_entry_end = lock_end (sle_lock check_entry);
            lock_entry_end = lock_end (sle_lock lock_entry);
            check_start = lock_start (sle_lock check_entry);
            start = lock_start (sle_lock lock_entry)
        in if check_entry_end + 1 < start then Keep check_entry
           else if lock_entry_end + 1 < check_start then Keep check_entry
           else if lock_type (sle_lock check_entry) \<noteq> lock_type (sle_lock lock_entry)
                   \<and> (lock_entry_end < check_entry_end \<or> check_start < start)
           then
             let right = (sle_lock check_entry)\<lparr>lock_start := lock_entry_end + 1,
                                                lock_length := check_entry_end - lock_entry_end\<rparr>;
                 left = (sle_lock check_entry)\<lparr>lock_length := start - check_start\<rparr>
             in if lock_entry_end < check_entry_end \<and> check_start < start
                then Split (check_entry\<lparr>sle_lock := left\<rparr>) right
                else if lock_entry_end < check_entry_end
                then Keep (check_entry\<lparr>sle_lock := right\<rparr>)
                else Keep (check_entry\<lparr>sle_lock := left\<rparr>)
           else
             let new_end = (if lock_entry_end < check_entry_end then check_entry_end
                            else lock_entry_end);
                 new_start = (if check_start < start then check_start else start)
             in Absorb (lock_entry\<lparr>sle_lock := (sle_lock lock_entry)
                          \<lparr>lock_start := new_start, lock_length := new_end - new_start + 1\<rparr>\<rparr>))"

partial_function (option) merge_loop ::
  "bool \<Rightarrow> 'f sal \<Rightarrow> sle \<Rightarrow> sle list \<Rightarrow> sle list \<Rightarrow> ('f sal \<times> sle \<times> sle list) option" where
  "merge_loop u w lock_entry passed pending =
     (case pending of
        [] \<Rightarrow> Some (w, lock_entry, passed)
      | check_entry # rest \<Rightarrow>
          (case merge_step u lock_entry check_entry of
             Keep e \<Rightarrow> merge_loop u w lock_entry (passed @ [e]) rest
           | Split left right \<Rightarrow>
               (case state_lock_entry_t_dup check_entry w of
                  None \<Rightarrow> None
                | Some (dup, w') \<Rightarrow>
                    (if rest = [] then Some (w', lock_entry, passed @ [left, dup\<lparr>sle_lock := right\<rparr>])
                     else merge_loop u w' lock_entry (passed @ [left])
                            (rest @ [dup\<lparr>sle_lock := right\<rparr>])))
           | Absorb lock_entry' \<Rightarrow>
               merge_loop u (remove_from_locklist check_entry w) lock_entry' passed rest))"

text \<open>The entry being merged may itself be on the list; it is then changed in place.\<close>

definition merge_lock_entry ::
  "bool \<Rightarrow> ptr \<Rightarrow> sle \<Rightarrow> 'f sal \<Rightarrow> (sle \<times> 'f sal) option" where
  "merge_lock_entry u obj lock_entry w =
     (case merge_loop u w lock_entry [] (lock_list w obj) of
        None \<Rightarrow> None
      | Some (w', lock_entry', entries) \<Rightarrow>
          Some (lock_entry',
                w'\<lparr>lock_list := (lock_list w')
                     (obj := map (\<lambda>x. if sle_id x = sle_id lock_entry' then lock_entry' else x)
                               entries)\<rparr>))"

subsection \<open>Subtracting a range\<close>

text \<open>
  The result is the status, whether the entry was removed, the fragments that remain of it and
  the new state; the caller moves a removed entry to its remove list.
\<close>

definition subtract_lock_from_entry ::
  "sle \<Rightarrow> fsal_lock_param \<Rightarrow> 'f sal \<Rightarrow> (state_status \<times> bool \<times> sle list \<times> 'f sal) option" where
  "subtract_lock_from_entry found_entry lock w =
     (let found_entry_end = lock_end (sle_lock found_entry);
          range_end = lock_end lock;
          found_start = lock_start (sle_lock found_entry)
      in if range_end < found_start then Some (STATE_SUCCESS, False, [], w)
         else if found_entry_end < lock_start lock then Some (STATE_SUCCESS, False, [], w)
         else if lock_start lock \<le> found_start \<and> found_entry_end \<le> range_end
           then Some (STATE_SUCCESS, True, [], w)
         else
           (case (if found_start < lock_start lock
                  then map_option (\<lambda>(d, w1). ([d\<lparr>sle_lock := (sle_lock d)
                         \<lparr>lock_length := lock_start lock - found_start\<rparr>\<rparr>], w1))
                         (state_lock_entry_t_dup found_entry w)
                  else Some ([], w)) of
              None \<Rightarrow> None
            | Some (left, w1) \<Rightarrow>
                (case (if range_end < found_entry_end
                       then map_option (\<lambda>(d, w2). ([d\<lparr>sle_lock := (sle_lock d)
                              \<lparr>lock_start := range_end + 1,
                               lock_length := (if found_entry_end = UINT64_MAX then 0
                                               else found_entry_end - range_end)\<rparr>\<rparr>], w2))
                              (state_lock_entry_t_dup found_entry w1)
                       else Some ([], w1)) of
                   None \<Rightarrow> None
                 | Some (right, w2) \<Rightarrow> Some (STATE_SUCCESS, True, left @ right, w2))))"

text \<open>
  Whether the loop over the list passes over an entry.  The state number is compared only for the
  entries of the owner; an entry without a state makes that comparison undefined.
\<close>

definition subtract_skips ::
  "bool \<Rightarrow> state_owner option \<Rightarrow> bool \<Rightarrow> u32 \<Rightarrow> 'f sal \<Rightarrow> sle \<Rightarrow> bool option" where
  "subtract_skips u owner state_applies state w found_entry =
     (if owner \<noteq> None \<and> different_owners u (sle_owner found_entry) owner then Some True
      else if sle_blocked found_entry \<noteq> STATE_NON_BLOCKING then Some True
      else if state_applies
        then map_option (\<lambda>s. state_seqid w s = state) (sle_state found_entry)
      else Some False)"

fun subtract_loop ::
  "bool \<Rightarrow> state_owner option \<Rightarrow> bool \<Rightarrow> u32 \<Rightarrow> fsal_lock_param \<Rightarrow> 'f sal
    \<Rightarrow> sle list \<Rightarrow> sle list \<Rightarrow> sle list \<Rightarrow> bool \<Rightarrow> sle list
    \<Rightarrow> (state_status \<times> 'f sal \<times> sle list \<times> sle list \<times> sle list \<times> bool) option" where
  "subtract_loop u owner sa st lock w passed split_list remove_list removed [] =
     Some (STATE_SUCCESS, w, passed, split_list, remove_list, removed)"
| "subtract_loop u owner sa st lock w passed split_list remove_list removed (found_entry # rest) =
     (case subtract_skips u owner sa st w found_entry of
        None \<Rightarrow> None
      | Some True \<Rightarrow>
          subtract_loop u owner sa st lock w (passed @ [found_entry]) split_list remove_list removed
            rest
      | Some False \<Rightarrow>
          (case subtract_lock_from_entry found_entry lock w of
             None \<Rightarrow> None
           | Some (status, removed_one, fragments, w') \<Rightarrow>
               (let passed' = (if removed_one then passed else passed @ [found_entry]);
                    remove_list' = (if removed_one then remove_list @ [found_entry]
                                    else remove_list)
                in if status \<noteq> STATE_SUCCESS
                   then Some (status, w', passed' @ rest, split_list @ fragments, remove_list',
                              removed \<or> removed_one)
                   else subtract_loop u owner sa st lock w' passed' (split_list @ fragments)
                          remove_list' (removed \<or> removed_one) rest)))"

definition subtract_lock_from_list ::
  "bool \<Rightarrow> state_owner option \<Rightarrow> bool \<Rightarrow> u32 \<Rightarrow> fsal_lock_param \<Rightarrow> ptr \<Rightarrow> 'f sal
    \<Rightarrow> (state_status \<times> bool \<times> 'f sal) option" where
  "subtract_lock_from_list u owner state_applies state lock obj w =
     (case subtract_loop u owner state_applies state lock w [] [] [] False (lock_list w obj) of
        None \<Rightarrow> None
      | Some (status, w1, passed, split_list, remove_list, removed) \<Rightarrow>
          if status \<noteq> STATE_SUCCESS
          then Some (status, removed,
                     w1\<lparr>lock_list := (lock_list w1)(obj := passed @ remove_list)\<rparr>)
          else
            let w2 = free_list remove_list w1
            in Some (status, removed,
                     w2\<lparr>lock_list := (lock_list w2)(obj := passed @ split_list)\<rparr>))"

end
