(* ===== verification/BlockedLocks.thy ===== *)
theory BlockedLocks
  imports LockList "HOL-Library.Monad_Syntax"
begin

text \<open>
  Blocked locks and their grants (SAL/state_lock.c, Protocols/NLM/nlm_util.c, SAL/state_async.c):
  the table of grant cookies, the NLM grant callback, the attempt to grant a blocked lock, its
  completion, release and cancellation.  A cookie in flight is in the table and holds a reference
  to its lock entry.  Every operation runs in the option monad; None is the dereference of a NULL
  or dangling pointer.
\<close>

section \<open>Grant cookies\<close>

definition find_entry :: "ptr \<Rightarrow> ptr \<Rightarrow> 'f sal \<Rightarrow> sle option" where
  "find_entry obj i w = List.find (\<lambda>e. sle_id e = i) (lock_list w obj @ detached w)"

text \<open>An entry by its address.\<close>

definition entry_at :: "ptr \<Rightarrow> 'f sal \<Rightarrow> sle option" where
  "entry_at i w = find_entry (sle_file w i) i w"

text \<open>The memory of a cookie structure, three little-endian integers.\<close>

definition bytes_of_ulong :: "u64 \<Rightarrow> u8 list" where
  "bytes_of_ulong x = map (\<lambda>i. ucast (drop_bit (8 * i) x)) [0..<8]"

definition cookie_bytes :: "granted_cookie \<Rightarrow> u8 list" where
  "cookie_bytes c =
     bytes_of_ulong (gc_seconds c) @ bytes_of_ulong (gc_microseconds c) @ bytes_of_ulong (gc_cookie c)"

definition next_granted_cookie :: "'f sal \<Rightarrow> u8 list \<times> 'f sal" where
  "next_granted_cookie w =
     (let c = (granted_cookie_ctr w)\<lparr>gc_cookie := gc_cookie (granted_cookie_ctr w) + 1\<rparr>
      in (cookie_bytes c, w\<lparr>granted_cookie_ctr := c\<rparr>))"

definition free_cookie :: "state_cookie_entry \<Rightarrow> bool \<Rightarrow> 'f sal \<Rightarrow> 'f sal option" where
  "free_cookie cookie_entry unblock w =
     (if unblock
      then do {
        lock_entry \<leftarrow> find_entry (sce_obj cookie_entry) (sce_lock_entry cookie_entry) w;
        Some (lock_entry_dec_ref
                (lock_entry\<lparr>sle_block_data :=
                   map_option (\<lambda>b. b\<lparr>sbd_blocked_cookie := None\<rparr>) (sle_block_data lock_entry)\<rparr>) w)
      }
      else Some w)"

text \<open>
  The file system call a grant of the given type needs; the switch of the source.
\<close>

definition grant_fsal_lock ::
  "'f op_ctx \<Rightarrow> ptr \<Rightarrow> sle \<Rightarrow> state_grant_type \<Rightarrow> 'f sal \<Rightarrow> state_status \<times> 'f sal" where
  "grant_fsal_lock cx obj e grant_type w =
     (case grant_type of
        STATE_GRANT_NONE \<Rightarrow> (STATE_INCONSISTENT_ENTRY, w)
      | STATE_GRANT_POLL \<Rightarrow>
          (let (st, w', _) = do_lock_op cx obj (sle_state e) FSAL_OP_LOCKB (sle_owner e) (sle_lock e)
                               False w in (st, w'))
      | STATE_GRANT_FSAL_AVAILABLE \<Rightarrow>
          (let (st, w', _) = do_lock_op cx obj (sle_state e) FSAL_OP_LOCKB (sle_owner e) (sle_lock e)
                               False w in (st, w'))
      | STATE_GRANT_INTERNAL \<Rightarrow>
          (let (st, w', _) = do_lock_op cx obj (sle_state e) FSAL_OP_LOCK (sle_owner e) (sle_lock e)
                               False w in (st, w'))
      | STATE_GRANT_FSAL \<Rightarrow> (STATE_SUCCESS, w))"

definition state_add_grant_cookie ::
  "'f op_ctx \<Rightarrow> ptr \<Rightarrow> u8 list \<Rightarrow> sle \<Rightarrow> 'f sal
    \<Rightarrow> state_status \<times> state_cookie_entry option \<times> 'f sal" where
  "state_add_grant_cookie cx obj cookie lock_entry w =
     (case sle_block_data lock_entry of
        None \<Rightarrow> (STATE_INCONSISTENT_ENTRY, None, w)
      | Some block_data \<Rightarrow>
          if cookie = [] then (STATE_INCONSISTENT_ENTRY, None, w)
          else if ht_lock_cookies w cookie \<noteq> None then (STATE_HASH_TABLE_ERROR, None, w)
          else
            let hash_entry = \<lparr>sce_obj = obj, sce_lock_entry = sle_id lock_entry, sce_cookie = cookie\<rparr>;
                w1 = w\<lparr>ht_lock_cookies := (ht_lock_cookies w)(cookie \<mapsto> hash_entry)\<rparr>;
                (status, w2) = grant_fsal_lock cx obj lock_entry (sbd_grant_type block_data) w1
            in if status \<noteq> STATE_SUCCESS
               then (status, None, w2\<lparr>ht_lock_cookies := (ht_lock_cookies w2)(cookie := None)\<rparr>)
               else
                 let e = lock_entry\<lparr>sle_ref_count := sle_ref_count lock_entry + 1,
                           sle_block_data := Some (block_data\<lparr>sbd_blocked_cookie := Some cookie\<rparr>)\<rparr>
                 in (status, Some hash_entry, put_entry e w2))"

definition state_cancel_grant ::
  "'f op_ctx \<Rightarrow> state_cookie_entry \<Rightarrow> 'f sal \<Rightarrow> (state_status \<times> 'f sal) option" where
  "state_cancel_grant cx cookie_entry w =
     do {
       e \<leftarrow> find_entry (sce_obj cookie_entry) (sce_lock_entry cookie_entry) w;
       let (status, w1, _) = do_lock_op cx (sce_obj cookie_entry) (sle_state e) FSAL_OP_UNLOCK
                               (sle_owner e) (sle_lock e) False w;
       w2 \<leftarrow> free_cookie cookie_entry True w1;
       Some (status, w2)
     }"

definition state_find_grant ::
  "u8 list \<Rightarrow> 'f sal \<Rightarrow> state_status \<times> state_cookie_entry option \<times> 'f sal" where
  "state_find_grant cookie w =
     (case ht_lock_cookies w cookie of
        None \<Rightarrow> (STATE_BAD_COOKIE, None, w)
      | Some entry \<Rightarrow>
          (STATE_SUCCESS, Some entry,
           w\<lparr>ht_lock_cookies := (ht_lock_cookies w)(cookie := None)\<rparr>))"

section \<open>Granting\<close>

definition state_async_schedule :: "'f op_ctx \<Rightarrow> state_status" where
  "state_async_schedule cx = (if async_submit_ok cx then STATE_SUCCESS else STATE_SIGNAL_ERROR)"

definition state_block_schedule :: "'f op_ctx \<Rightarrow> ptr \<Rightarrow> 'f sal \<Rightarrow> state_status \<times> 'f sal" where
  "state_block_schedule cx block w =
     (if async_submit_ok cx then (STATE_SUCCESS, w\<lparr>async_queue := async_queue w @ [block]\<rparr>)
      else (STATE_SIGNAL_ERROR, w))"

text \<open>
  The callback of a blocked NLM lock.  It reads the NLM client from the union in the owner; for an
  owner of another type that pointer is wild.  The message itself is not modelled; the reference to
  the NLM client it carries is.
\<close>

definition nlm_granted_callback ::
  "'f op_ctx \<Rightarrow> ptr \<Rightarrow> sle \<Rightarrow> 'f sal \<Rightarrow> (state_status \<times> 'f sal) option" where
  "nlm_granted_callback cx obj lock_entry w =
     do {
       owner \<leftarrow> sle_owner lock_entry;
       client \<leftarrow> (case so_owner owner of STATE_LOCK_OWNER_NLM c _ \<Rightarrow> Some (slc_ptr c) | _ \<Rightarrow> None);
       let (cookie, w1) = next_granted_cookie w;
       let (state_status, cookie_entry, w2) = state_add_grant_cookie cx obj cookie lock_entry w1;
       if state_status \<noteq> STATE_SUCCESS then Some (state_status, w2)
       else do {
         let w3 = w2\<lparr>slc_refcount := incr (slc_refcount w2) client\<rparr>;
         let state_status = state_async_schedule cx;
         if state_status = STATE_SUCCESS then Some (state_status, w3)
         else do {
           let w4 = w3\<lparr>slc_refcount := decr (slc_refcount w3) client\<rparr>;
           entry \<leftarrow> cookie_entry;
           (_, w5) \<leftarrow> state_cancel_grant cx entry w4;
           Some (state_status, w5)
         }
       }
     }"

definition try_to_grant_lock :: "'f op_ctx \<Rightarrow> sle \<Rightarrow> 'f sal \<Rightarrow> 'f sal option" where
  "try_to_grant_lock cx lock_entry w =
     (if sle_blocked lock_entry = STATE_CANCELED \<or> sle_block_data lock_entry = None
         \<or> \<not> export_ready cx (sle_export lock_entry)
      then Some (remove_from_locklist lock_entry w)
      else do {
        block_data \<leftarrow> sle_block_data lock_entry;
        let blocked = sle_blocked lock_entry;
        let grant_type = (if sbd_grant_type block_data = STATE_GRANT_NONE then STATE_GRANT_INTERNAL
                          else sbd_grant_type block_data);
        let e1 = lock_entry\<lparr>sle_blocked := STATE_GRANTING,
                            sle_block_data := Some (block_data\<lparr>sbd_grant_type := grant_type\<rparr>)\<rparr>;
        (status, w1) \<leftarrow> nlm_granted_callback cx (sle_obj lock_entry) e1 (put_entry e1 w);
        e2 \<leftarrow> find_entry (sle_obj lock_entry) (sle_id lock_entry) w1;
        if status = STATE_LOCK_BLOCKED
        then Some (put_entry (e2\<lparr>sle_blocked := blocked,
                    sle_block_data := map_option (\<lambda>b. b\<lparr>sbd_grant_type := STATE_GRANT_NONE\<rparr>)
                                        (sle_block_data e2)\<rparr>) w1)
        else do {
          let w2 = w1\<lparr>state_blocked_locks := remove1 (sle_id lock_entry) (state_blocked_locks w1)\<rparr>;
          if status = STATE_SUCCESS then Some w2 else Some (remove_from_locklist e2 w2)
        }
      })"

definition process_blocked_lock_upcall :: "'f op_ctx \<Rightarrow> ptr \<Rightarrow> 'f sal \<Rightarrow> 'f sal option" where
  "process_blocked_lock_upcall cx i w =
     do {
       lock_entry \<leftarrow> entry_at i w;
       let (e, w1) = lock_entry_inc_ref lock_entry w;
       w2 \<leftarrow> try_to_grant_lock cx e w1;
       e2 \<leftarrow> entry_at i w2;
       Some (lock_entry_dec_ref e2 w2)
     }"

text \<open>The body of the asynchronous thread: it takes a request context for the export of the lock.\<close>

definition state_blocked_lock_caller :: "'f op_ctx \<Rightarrow> ptr \<Rightarrow> 'f sal \<Rightarrow> 'f sal option" where
  "state_blocked_lock_caller cx i w =
     do {
       e \<leftarrow> entry_at i w;
       let exp = sle_export e;
       if export_ready cx exp
       then do {
         w1 \<leftarrow> process_blocked_lock_upcall (cx\<lparr>ctx_export := exp\<rparr>) i
                (w\<lparr>export_refcount := incr (export_refcount w) exp\<rparr>);
         Some (w1\<lparr>export_refcount := decr (export_refcount w1) exp\<rparr>)
       }
       else process_blocked_lock_upcall cx i w
     }"

text \<open>
  The loop over the lock list.  An attempt to grant an entry touches that entry only, so the
  successors taken beforehand are the identities of the entries of the list.
\<close>

fun grant_loop :: "'f op_ctx \<Rightarrow> ptr \<Rightarrow> ptr list \<Rightarrow> 'f sal \<Rightarrow> 'f sal option" where
  "grant_loop cx obj [] w = Some w"
| "grant_loop cx obj (i # is) w =
     (case List.find (\<lambda>e. sle_id e = i) (lock_list w obj) of
        None \<Rightarrow> None
      | Some found_entry \<Rightarrow>
          if sle_blocked found_entry \<noteq> STATE_NLM_BLOCKING
             \<and> sle_blocked found_entry \<noteq> STATE_NFSV4_BLOCKING
          then grant_loop cx obj is w
          else if get_overlapping_entry (nsm_use_caller_name cx) (lock_list w obj)
                    (sle_owner found_entry) (sle_lock found_entry) \<noteq> None
          then grant_loop cx obj is w
          else (case try_to_grant_lock cx found_entry w of
                  None \<Rightarrow> None
                | Some w' \<Rightarrow> grant_loop cx obj is w'))"

definition grant_blocked_locks :: "'f op_ctx \<Rightarrow> ptr \<Rightarrow> 'f sal \<Rightarrow> 'f sal option" where
  "grant_blocked_locks cx obj w =
     (if fso_lock_support_async_block (fsal_export cx) then Some w
      else grant_loop cx obj (map sle_id (lock_list w obj)) w)"

definition grant_blocked_lock_immediate ::
  "'f op_ctx \<Rightarrow> ptr \<Rightarrow> sle \<Rightarrow> 'f sal \<Rightarrow> 'f sal option" where
  "grant_blocked_lock_immediate cx obj lock_entry w =
     (let grant = (\<lambda>w1. do {
            e \<leftarrow> find_entry obj (sle_id lock_entry) w1;
            let e1 = e\<lparr>sle_blocked := STATE_NON_BLOCKING\<rparr>;
            (_, w2) \<leftarrow> merge_lock_entry (nsm_use_caller_name cx) obj e1 (put_entry e1 w1);
            grant_blocked_locks cx obj w2
          })
      in case sle_block_data lock_entry of
           None \<Rightarrow> grant w
         | Some block_data \<Rightarrow>
             (case sbd_blocked_cookie block_data of
                None \<Rightarrow> grant (put_entry (lock_entry\<lparr>sle_block_data := None\<rparr>) w)
              | Some cookie \<Rightarrow>
                  (case state_find_grant cookie w of
                     (_, None, w1) \<Rightarrow> Some w1
                   | (_, Some entry, w1) \<Rightarrow> free_cookie entry True w1 \<bind> grant)))"

definition state_complete_grant ::
  "'f op_ctx \<Rightarrow> state_cookie_entry \<Rightarrow> 'f sal \<Rightarrow> 'f sal option" where
  "state_complete_grant cx cookie_entry w =
     do {
       let obj = sce_obj cookie_entry;
       lock_entry \<leftarrow> find_entry obj (sce_lock_entry cookie_entry) w;
       w3 \<leftarrow> (if sle_blocked lock_entry = STATE_GRANTING
              then do {
                let e1 = lock_entry\<lparr>sle_blocked := STATE_NON_BLOCKING\<rparr>;
                (_, w2) \<leftarrow> merge_lock_entry (nsm_use_caller_name cx) obj e1 (put_entry e1 w);
                grant_blocked_locks cx obj w2
              }
              else Some w);
       free_cookie cookie_entry True w3
     }"

section \<open>Cancelling\<close>

definition cancel_blocked_lock :: "'f op_ctx \<Rightarrow> ptr \<Rightarrow> sle \<Rightarrow> 'f sal \<Rightarrow> 'f sal option" where
  "cancel_blocked_lock cx obj lock_entry w =
     (let e1 = lock_entry\<lparr>sle_blocked := STATE_CANCELED\<rparr>;
          w1 = put_entry e1 w;
          remove = (\<lambda>w2. do {
            e2 \<leftarrow> find_entry (sle_obj lock_entry) (sle_id lock_entry) w2;
            Some (remove_from_locklist e2 w2)
          })
      in case Option.bind (sle_block_data lock_entry) sbd_blocked_cookie of
           Some cookie \<Rightarrow>
             (case state_find_grant cookie w1 of
                (_, None, w2) \<Rightarrow> remove w2
              | (_, Some entry, w2) \<Rightarrow> free_cookie entry True w2 \<bind> remove)
         | None \<Rightarrow>
             (let (status, w2, _) = do_lock_op cx obj (sle_state e1) FSAL_OP_CANCEL (sle_owner e1)
                                      (sle_lock e1) False w1
              in if status \<noteq> STATE_SUCCESS then Some w2 else remove w2))"

fun cancel_loop ::
  "'f op_ctx \<Rightarrow> state_owner option \<Rightarrow> bool \<Rightarrow> u32 \<Rightarrow> fsal_lock_param \<Rightarrow> ptr \<Rightarrow> ptr list \<Rightarrow> 'f sal
    \<Rightarrow> 'f sal option" where
  "cancel_loop cx owner state_applies state lock obj [] w = Some w"
| "cancel_loop cx owner state_applies state lock obj (i # is) w =
     (case List.find (\<lambda>e. sle_id e = i) (lock_list w obj) of
        None \<Rightarrow> None
      | Some found_entry \<Rightarrow>
          if owner \<noteq> None \<and> different_owners (nsm_use_caller_name cx) (sle_owner found_entry) owner
          then cancel_loop cx owner state_applies state lock obj is w
          else if state_applies \<and> sle_state found_entry = None then None
          else if state_applies \<and> state_seqid w (the (sle_state found_entry)) = state
          then cancel_loop cx owner state_applies state lock obj is w
          else if sle_blocked found_entry = STATE_NON_BLOCKING
          then cancel_loop cx owner state_applies state lock obj is w
          else if lock_start lock \<le> lock_end (sle_lock found_entry)
                  \<and> lock_start (sle_lock found_entry) \<le> lock_end lock
          then (case cancel_blocked_lock cx obj found_entry w of
                  None \<Rightarrow> None
                | Some w' \<Rightarrow> cancel_loop cx owner state_applies state lock obj is w')
          else cancel_loop cx owner state_applies state lock obj is w)"

definition cancel_blocked_locks_range ::
  "'f op_ctx \<Rightarrow> ptr \<Rightarrow> state_owner option \<Rightarrow> bool \<Rightarrow> u32 \<Rightarrow> fsal_lock_param \<Rightarrow> 'f sal
    \<Rightarrow> 'f sal option" where
  "cancel_blocked_locks_range cx obj owner state_applies state lock w =
     cancel_loop cx owner state_applies state lock obj (map sle_id (lock_list w obj)) w"

definition state_release_grant ::
  "'f op_ctx \<Rightarrow> state_cookie_entry \<Rightarrow> 'f sal \<Rightarrow> (state_status \<times> 'f sal) option" where
  "state_release_grant cx cookie_entry w =
     do {
       let obj = sce_obj cookie_entry;
       lock_entry \<leftarrow> find_entry obj (sce_lock_entry cookie_entry) w;
       let (status, w2) =
         (if sle_blocked lock_entry = STATE_GRANTING
          then let e1 = lock_entry\<lparr>sle_blocked := STATE_CANCELED\<rparr>;
                   (status, w1, _) = do_lock_op cx obj (sle_state e1) FSAL_OP_UNLOCK (sle_owner e1)
                                       (sle_lock e1) False (put_entry e1 w)
               in (status, if status \<noteq> STATE_SUCCESS then w1 else remove_from_locklist e1 w1)
          else (STATE_SUCCESS, w));
       w3 \<leftarrow> free_cookie cookie_entry True w2;
       w4 \<leftarrow> grant_blocked_locks cx obj w3;
       Some (status,
             if lock_list w4 obj = [] then w4\<lparr>obj_refcount := decr (obj_refcount w4) obj\<rparr> else w4)
     }"

text \<open>
  The reply of an NLM client to a grant message; it is processed in the context of the export of the
  lock.  A cookie of the table always has a lock entry.  The signal to the thread that waits for the
  reply is left out: it touches no lock.
\<close>

definition nlm4_Granted_Res :: "'f op_ctx \<Rightarrow> u8 list \<Rightarrow> bool \<Rightarrow> 'f sal \<Rightarrow> 'f sal option" where
  "nlm4_Granted_Res cx cookie granted w =
     (case state_find_grant cookie w of
        (_, None, w1) \<Rightarrow> Some w1
      | (_, Some entry, w1) \<Rightarrow> do {
          e \<leftarrow> find_entry (sce_obj entry) (sce_lock_entry entry) w1;
          if sle_block_data e = None then Some w1
          else do {
            let w2 = w1\<lparr>export_refcount := incr (export_refcount w1) (sle_export e)\<rparr>;
            let cx' = cx\<lparr>ctx_export := sle_export e\<rparr>;
            if \<not> granted \<or> \<not> export_ready cx' (ctx_export cx')
            then map_option snd (state_release_grant cx' entry w2)
            else state_complete_grant cx' entry w2
          }
        })"

end
