(* ===== verification/Samples.thy ===== *)
theory Samples
  imports SalState
begin

text \<open>
  Concrete owners, locks, entries and states on which the definitions of the lock manager are
  evaluated.
\<close>

definition sample_owner :: "nat \<Rightarrow> state_owner" where
  "sample_owner n = \<lparr>so_ptr = n, so_owner = STATE_LOCK_OWNER_NFSV4 1, so_owner_val = [of_nat n]\<rparr>"

definition sample_lock :: "fsal_lock_t \<Rightarrow> u64 \<Rightarrow> u64 \<Rightarrow> fsal_lock_param" where
  "sample_lock t s n =
     \<lparr>lock_sle_type = FSAL_POSIX_LOCK, lock_type = t, lock_start = s, lock_length = n,
      lock_reclaim = False\<rparr>"

definition sample_entry :: "nat \<Rightarrow> nat \<Rightarrow> fsal_lock_param \<Rightarrow> sle" where
  "sample_entry i n l =
     \<lparr>sle_id = i, sle_obj = 5, sle_export = 6, sle_block_data = None,
      sle_owner = Some (sample_owner n), sle_state = Some n, sle_blocked = STATE_NON_BLOCKING,
      sle_ref_count = 1, sle_lock = l\<rparr>"

text \<open>A state in which the file 5 has the given lock list.\<close>

definition sample_sal :: "sle list \<Rightarrow> unit sal" where
  "sample_sal xs =
     \<lparr>sal_next = 100, sle_file = (\<lambda>_. 5), lock_list = (\<lambda>_. [])(5 := xs), detached = [],
      so_lock_list = (\<lambda>_. []), state_locklist = (\<lambda>_. []), exp_lock_list = (\<lambda>_. []),
      ssc_lock_list = (\<lambda>_. []), so_refcount = (\<lambda>_. 1), state_refcount = (\<lambda>_. 1),
      export_refcount = (\<lambda>_. 1), obj_refcount = (\<lambda>_. 1), ssc_refcount = (\<lambda>_. 1),
      slc_refcount = (\<lambda>_. 1),
      state_seqid = (\<lambda>_. 1), state_blocked_locks = [], ht_lock_cookies = Map.empty,
      granted_cookie_ctr = \<lparr>gc_seconds = 0, gc_microseconds = 0, gc_cookie = 0\<rparr>, async_queue = [],
      fsal_state = ()\<rparr>"

text \<open>A request for the export 6, whose file system keeps no locks of its own.\<close>

definition sample_fsal :: "unit fsal_ops" where
  "sample_fsal =
     \<lparr>fso_lock_support = False, fso_lock_support_async_block = False,
      lock_op2 = (\<lambda>obj state owner op lock f. (ERR_FSAL_NO_ERROR, lock, f))\<rparr>"

definition sample_ctx :: "unit op_ctx" where
  "sample_ctx =
     \<lparr>nsm_use_caller_name = False, ctx_export = 6, export_fsal = (\<lambda>_. sample_fsal),
      export_ready = (\<lambda>_. True), obj_is_regular = (\<lambda>_. True), async_submit_ok = True\<rparr>"

lemma sample_ctx_sel [simp]:
  "nsm_use_caller_name sample_ctx = False" "ctx_export sample_ctx = 6" "export_fsal sample_ctx = (\<lambda>_. sample_fsal)"
  "export_ready sample_ctx = (\<lambda>_. True)" "obj_is_regular sample_ctx = (\<lambda>_. True)" "async_submit_ok sample_ctx"
  "\<not> fso_lock_support sample_fsal" "\<not> fso_lock_support_async_block sample_fsal"
  by (simp_all add: sample_ctx_def sample_fsal_def)

lemmas sample_defs = sample_owner_def sample_lock_def sample_entry_def sample_sal_def

lemma sample_different [simp]:
  "different_owners u (Some (sample_owner m)) (Some (sample_owner n))
     \<longleftrightarrow> (of_nat m :: u8) \<noteq> of_nat n"
  by (auto simp: sample_owner_def different_owners_Some)

lemma sample_lock_end [simp]:
  "lock_end (sample_lock t s n) = (if n = 0 then UINT64_MAX else s + n - 1)"
  "lock_start (sample_lock t s n) = s" "lock_type (sample_lock t s n) = t"
  by (simp_all add: sample_lock_def lock_end_def)

lemma sample_entry_sel [simp]:
  "sle_id (sample_entry i n l) = i" "sle_owner (sample_entry i n l) = Some (sample_owner n)"
  "sle_state (sample_entry i n l) = Some n" "sle_obj (sample_entry i n l) = 5"
  "sle_blocked (sample_entry i n l) = STATE_NON_BLOCKING" "sle_lock (sample_entry i n l) = l"
  by (simp_all add: sample_entry_def)

lemma sample_sal_sel [simp]:
  "lock_list (sample_sal xs) 5 = xs" "sal_next (sample_sal xs) = 100"
  "state_seqid (sample_sal xs) = (\<lambda>_. 1)"
  by (simp_all add: sample_sal_def)

end
