(* ===== verification/LockSemantics.thy ===== *)
theory LockSemantics
  imports LockList Samples
begin

text \<open>
  What the list operations of the lock manager do to the set of bytes each owner holds.  The
  meaning of a lock list is the relation \<open>holds\<close> between owners, lock types and bytes; a list is
  canonical when the granted entries of one owner cover disjoint ranges.
\<close>

section \<open>The meaning of a lock list\<close>

definition granted :: "sle \<Rightarrow> bool" where
  "granted e \<longleftrightarrow> sle_blocked e = STATE_NON_BLOCKING"

abbreviation sle_bytes :: "sle \<Rightarrow> u64 set" where
  "sle_bytes e \<equiv> bytes (sle_lock e)"

abbreviation sle_type :: "sle \<Rightarrow> fsal_lock_t" where
  "sle_type e \<equiv> lock_type (sle_lock e)"

abbreviation to_eof :: "fsal_lock_param \<Rightarrow> bool" where
  "to_eof l \<equiv> lock_end l = UINT64_MAX"

definition holds :: "bool \<Rightarrow> sle list \<Rightarrow> state_owner option \<Rightarrow> fsal_lock_t \<Rightarrow> u64 \<Rightarrow> bool" where
  "holds u xs p t b \<longleftrightarrow>
     (\<exists>e \<in> set xs. granted e \<and> \<not> different_owners u (sle_owner e) p \<and> sle_type e = t
                  \<and> b \<in> sle_bytes e)"

definition apart :: "bool \<Rightarrow> sle \<Rightarrow> sle \<Rightarrow> bool" where
  "apart u a b \<longleftrightarrow>
     (granted a \<and> granted b \<and> \<not> different_owners u (sle_owner a) (sle_owner b)
      \<longrightarrow> sle_bytes a \<inter> sle_bytes b = {})"

definition canonical :: "bool \<Rightarrow> sle list \<Rightarrow> bool" where
  "canonical u xs \<longleftrightarrow> sorted_wrt (apart u) xs"

definition others :: "sle \<Rightarrow> sle list \<Rightarrow> sle list" where
  "others e xs = filter (\<lambda>x. sle_id x \<noteq> sle_id e) xs"

lemma holds_Nil [simp]: "\<not> holds u [] p t b"
  by (simp add: holds_def)

lemma holds_append [simp]: "holds u (xs @ ys) p t b \<longleftrightarrow> holds u xs p t b \<or> holds u ys p t b"
  by (auto simp: holds_def)

lemma holds_Cons:
  "holds u (e # xs) p t b \<longleftrightarrow>
     granted e \<and> \<not> different_owners u (sle_owner e) p \<and> sle_type e = t \<and> b \<in> sle_bytes e
     \<or> holds u xs p t b"
  by (auto simp: holds_def)

lemma apart_sym: "apart u a b \<Longrightarrow> apart u b a"
  using own.differ_commute by (auto simp: apart_def)

lemma canonical_middle:
  "canonical u (xs @ x # ys) \<longleftrightarrow> canonical u (xs @ ys) \<and> (\<forall>y \<in> set (xs @ ys). apart u x y)"
  unfolding canonical_def by (rule sorted_wrt_sym_middle) (rule apart_sym)

lemma canonical_append:
  "canonical u (xs @ ys) \<longleftrightarrow> canonical u xs \<and> canonical u ys \<and> (\<forall>x \<in> set xs. \<forall>y \<in> set ys. apart u x y)"
  by (simp add: canonical_def sorted_wrt_append)

lemma apart_subset:
  "apart u a b \<Longrightarrow> sle_owner a' = sle_owner a \<Longrightarrow> sle_blocked a' = sle_blocked a
    \<Longrightarrow> sle_bytes a' \<subseteq> sle_bytes a \<Longrightarrow> apart u a' b"
  by (auto simp: apart_def granted_def)

lemma others_append [simp]: "others e (xs @ ys) = others e xs @ others e ys"
  by (simp add: others_def)

lemma others_Nil [simp]: "others e [] = []"
  by (simp add: others_def)

lemma others_Cons:
  "others e (x # xs) = (if sle_id x = sle_id e then others e xs else x # others e xs)"
  by (simp add: others_def)

lemma others_cong: "sle_id e = sle_id f \<Longrightarrow> others e = others f"
  by (simp add: others_def fun_eq_iff)

section \<open>One step of the merge loop\<close>

definition mergeable :: "bool \<Rightarrow> sle \<Rightarrow> sle \<Rightarrow> bool" where
  "mergeable u lock c \<longleftrightarrow>
     sle_id c \<noteq> sle_id lock \<and> \<not> different_owners u (sle_owner c) (sle_owner lock) \<and> granted c"

lemma merge_step_not_mergeable: "\<not> mergeable u lock c \<Longrightarrow> merge_step u lock c = Keep c"
  by (auto simp: mergeable_def merge_step_def granted_def)

text \<open>The parts of an entry to the left and to the right of a range.\<close>

definition left_of :: "fsal_lock_param \<Rightarrow> fsal_lock_param \<Rightarrow> fsal_lock_param" where
  "left_of c l = c\<lparr>lock_length := lock_start l - lock_start c\<rparr>"

definition right_of :: "fsal_lock_param \<Rightarrow> fsal_lock_param \<Rightarrow> fsal_lock_param" where
  "right_of c l = c\<lparr>lock_start := lock_end l + 1, lock_length := lock_end c - lock_end l\<rparr>"

definition hull :: "fsal_lock_param \<Rightarrow> fsal_lock_param \<Rightarrow> fsal_lock_param" where
  "hull c l =
     (let e = (if lock_end l < lock_end c then lock_end c else lock_end l);
          s = (if lock_start c < lock_start l then lock_start c else lock_start l)
      in l\<lparr>lock_start := s, lock_length := e - s + 1\<rparr>)"

lemma left_of [range_simps]:
  assumes "lock_start c < lock_start l"
  shows "lock_start (left_of c l) = lock_start c" "lock_end (left_of c l) = lock_start l - 1"
    "lock_type (left_of c l) = lock_type c"
  using assms by (simp_all add: left_of_def lock_end_of_length)

lemma right_of [range_simps]:
  assumes "lock_end l < lock_end c"
  shows "lock_start (right_of c l) = lock_end l + 1" "lock_end (right_of c l) = lock_end c"
    "lock_type (right_of c l) = lock_type c"
  using assms by (simp_all add: right_of_def lock_end_of_right)

lemma hull [range_simps]:
  assumes "range_ok l"
  shows "lock_start (hull c l) = min (lock_start c) (lock_start l)"
    "lock_end (hull c l) = max (lock_end c) (lock_end l)"
    "lock_type (hull c l) = lock_type l"
proof -
  define e where "e = (if lock_end l < lock_end c then lock_end c else lock_end l)"
  define s where "s = (if lock_start c < lock_start l then lock_start c else lock_start l)"
  have "s \<le> e" using assms by (auto simp: s_def e_def range_ok_def)
  moreover have h: "hull c l = l\<lparr>lock_start := s, lock_length := e - s + 1\<rparr>"
    by (simp add: hull_def s_def e_def Let_def)
  ultimately show "lock_end (hull c l) = max (lock_end c) (lock_end l)"
    by (simp add: lock_end_of_end) (auto simp: e_def max_def)
  show "lock_start (hull c l) = min (lock_start c) (lock_start l)"
    "lock_type (hull c l) = lock_type l"
    by (auto simp: h) (auto simp: s_def min_def)
qed

lemma merge_step_mergeable:
  assumes "mergeable u lock c"
  defines "k \<equiv> sle_lock c" and "l \<equiv> sle_lock lock"
  shows "merge_step u lock c =
    (if lock_end k + 1 < lock_start l \<or> lock_end l + 1 < lock_start k then Keep c
     else if lock_type k \<noteq> lock_type l \<and> lock_end l < lock_end k \<and> lock_start k < lock_start l
       then Split (c\<lparr>sle_lock := left_of k l\<rparr>) (right_of k l)
     else if lock_type k \<noteq> lock_type l \<and> lock_end l < lock_end k
       then Keep (c\<lparr>sle_lock := right_of k l\<rparr>)
     else if lock_type k \<noteq> lock_type l \<and> lock_start k < lock_start l
       then Keep (c\<lparr>sle_lock := left_of k l\<rparr>)
     else Absorb (lock\<lparr>sle_lock := hull k l\<rparr>))"
  using assms(1) unfolding k_def l_def mergeable_def granted_def
  by (simp add: merge_step_def Let_def left_of_def right_of_def hull_def)

text \<open>What a step does to the bytes, for ranges that end before the last representable byte.\<close>

lemma bytes_left_of:
  assumes "range_ok c" "lock_start c < lock_start l" "lock_start l \<le> lock_end c + 1"
  shows "bytes (left_of c l) = {b \<in> bytes c. b < lock_start l}" "range_ok (left_of c l)"
    "\<not> to_eof (left_of c l)"
proof -
  have nz: "lock_start l \<noteq> 0" using assms(2) by auto
  then have "lock_start l - 1 < lock_start l"
    using word_le_minus1_iff by blast
  then have "lock_start l - 1 \<le> lock_end c"
    using assms(3) by (cases "to_eof c") (simp_all flip: word_less_plus1_iff)
  then have "b \<le> lock_end c" if "b < lock_start l" for b
    using that nz by (meson order_trans word_le_minus1_iff)
  then show "bytes (left_of c l) = {b \<in> bytes c. b < lock_start l}"
    using assms(2) nz by (auto simp: mem_bytes left_of word_le_minus1_iff)
  show "range_ok (left_of c l)"
    using assms(2) nz by (simp add: range_ok_def left_of word_le_minus1_iff)
  show "\<not> to_eof (left_of c l)"
    using assms(2) nz by (auto simp: left_of)
qed

lemma bytes_right_of:
  assumes "range_ok c" "lock_end l < lock_end c" "lock_start c \<le> lock_end l + 1"
  shows "bytes (right_of c l) = {b \<in> bytes c. lock_end l < b}" "range_ok (right_of c l)"
    "to_eof (right_of c l) = to_eof c"
proof -
  have nm: "lock_end l \<noteq> UINT64_MAX" using assms(2) by (rule word_lt_imp_neq_max)
  show "bytes (right_of c l) = {b \<in> bytes c. lock_end l < b}"
    using assms(2,3) nm by (auto simp: mem_bytes right_of word_plus1_le_iff) (meson order_trans inc_le)
  show "range_ok (right_of c l)"
    using assms(2) nm by (simp add: range_ok_def right_of word_plus1_le_iff)
  show "to_eof (right_of c l) = to_eof c"
    using assms(2) by (simp add: right_of)
qed

text \<open>
  Whether one of the two ends is the last representable byte decides whether the adjacency test
  of the loop can wrap around; only then an entry that overlaps the lock may be left as it is.
\<close>

lemma merge_step_cases:
  assumes m: "mergeable u lock c" and ok: "range_ok (sle_lock c)" "range_ok (sle_lock lock)"
  obtains
    (Wrap) "merge_step u lock c = Keep c" "to_eof (sle_lock c) \<or> to_eof (sle_lock lock)"
  | (Keep) l where "merge_step u lock c = Keep (c\<lparr>sle_lock := l\<rparr>)" "range_ok l"
      "lock_type l = sle_type c" "to_eof l \<longrightarrow> to_eof (sle_lock c)"
      "bytes l = sle_bytes c - sle_bytes lock"
  | (Split) l r where "merge_step u lock c = Split (c\<lparr>sle_lock := l\<rparr>) r" "range_ok l" "range_ok r"
      "lock_type l = sle_type c" "lock_type r = sle_type c" "\<not> to_eof l"
      "to_eof r \<longrightarrow> to_eof (sle_lock c)"
      "bytes l \<union> bytes r = sle_bytes c - sle_bytes lock" "bytes l \<inter> bytes r = {}"
  | (Absorb) l where "merge_step u lock c = Absorb (lock\<lparr>sle_lock := l\<rparr>)" "range_ok l"
      "lock_type l = sle_type lock" "to_eof l \<longrightarrow> to_eof (sle_lock c) \<or> to_eof (sle_lock lock)"
      "bytes l = sle_bytes lock \<union> sle_bytes c"
      "sle_type c = sle_type lock \<or> sle_bytes c \<subseteq> sle_bytes lock"
proof -
  define k where "k = sle_lock c"
  define l where "l = sle_lock lock"
  note step = merge_step_mergeable [OF m, folded k_def l_def]
  note ok = ok [folded k_def l_def]
  consider (far) "lock_end k + 1 < lock_start l \<or> lock_end l + 1 < lock_start k"
    | (near) "lock_start l \<le> lock_end k + 1" "lock_start k \<le> lock_end l + 1"
    by fastforce
  then show ?thesis
  proof cases
    case far
    show ?thesis
    proof (cases "to_eof k \<or> to_eof l")
      case True
      with far show ?thesis by (intro Wrap) (auto simp: step k_def l_def)
    next
      case False
      then have "lock_end k < lock_start l \<or> lock_end l < lock_start k"
        using far word_plus1_le_iff less_imp_le by blast
      then have "bytes k - bytes l = bytes k" by (auto simp: mem_bytes)
      with far ok show ?thesis
        by (intro Keep [of k]) (simp_all add: step k_def l_def)
    qed
  next
    case near
    have nf: "\<not> (lock_end k + 1 < lock_start l \<or> lock_end l + 1 < lock_start k)"
      using near by auto
    note L = bytes_left_of [OF ok(1) _ near(1)]
    note R = bytes_right_of [OF ok(1) _ near(2)]
    consider (split) "lock_type k \<noteq> lock_type l" "lock_end l < lock_end k" "lock_start k < lock_start l"
      | (right) "lock_type k \<noteq> lock_type l" "lock_end l < lock_end k" "lock_start l \<le> lock_start k"
      | (left) "lock_type k \<noteq> lock_type l" "lock_end k \<le> lock_end l" "lock_start k < lock_start l"
      | (absorb) "lock_type k = lock_type l \<or> lock_end k \<le> lock_end l \<and> lock_start l \<le> lock_start k"
      by (meson not_le)
    then show ?thesis
    proof cases
      case split
      have "bytes (left_of k l) \<union> bytes (right_of k l) = bytes k - bytes l"
        "bytes (left_of k l) \<inter> bytes (right_of k l) = {}"
        using ok(2) by (auto simp: L(1) [OF split(3)] R(1) [OF split(2)] mem_bytes range_ok_def)
      with split nf show ?thesis
        by (intro Split [of "left_of k l" "right_of k l"])
          (simp_all add: step L R left_of(3) right_of(3) flip: k_def l_def)
    next
      case right
      have "bytes (right_of k l) = bytes k - bytes l"
        using right by (auto simp: R(1) [OF right(2)] mem_bytes)
      with right nf show ?thesis
        by (intro Keep [of "right_of k l"])
          (simp_all add: step R right_of(3) leD flip: k_def l_def)
    next
      case left
      have "bytes (left_of k l) = bytes k - bytes l"
        using left by (auto simp: L(1) [OF left(3)] mem_bytes)
      with left nf show ?thesis
        by (intro Keep [of "left_of k l"])
          (simp_all add: step L left_of(3) leD flip: k_def l_def)
    next
      case absorb
      have st: "merge_step u lock c = Absorb (lock\<lparr>sle_lock := hull k l\<rparr>)"
        using absorb nf by (auto simp: step leD)
      have "b \<le> e \<or> s \<le> b" if "s \<le> e + 1" for b e s :: u64
        using that word_plus1_le_iff [of e b] by (cases "e = - 1") auto
      from this [OF near(1)] this [OF near(2)] have "bytes (hull k l) = bytes l \<union> bytes k"
        by (simp add: set_eq_iff mem_bytes hull ok min_le_iff_disj le_max_iff_disj) blast
      then show ?thesis
        using absorb ok st
        by (intro Absorb [of "hull k l"])
          (auto simp: hull range_ok_def max_def min_def bytes_def simp flip: k_def l_def)
    qed
  qed
qed

section \<open>The merge loop\<close>

text \<open>
  A rule for the loop: a property of the state, the merged entry, the entries passed and the
  entries pending that every step keeps holds when the loop ends.
\<close>

lemma merge_loop_invariant:
  assumes "merge_loop u w lock dn pend = Some (w', lock', xs')"
    and "P w lock dn pend"
    and keep: "\<And>w lock dn c rest e. P w lock dn (c # rest) \<Longrightarrow> merge_step u lock c = Keep e
      \<Longrightarrow> P w lock (dn @ [e]) rest"
    and split: "\<And>w lock dn c rest l r d w1. P w lock dn (c # rest) \<Longrightarrow> merge_step u lock c = Split l r
      \<Longrightarrow> state_lock_entry_t_dup c w = Some (d, w1) \<Longrightarrow> rest \<noteq> []
      \<Longrightarrow> P w1 lock (dn @ [l]) (rest @ [d\<lparr>sle_lock := r\<rparr>])"
    and last: "\<And>w lock dn c l r d w1. P w lock dn [c] \<Longrightarrow> merge_step u lock c = Split l r
      \<Longrightarrow> state_lock_entry_t_dup c w = Some (d, w1)
      \<Longrightarrow> P w1 lock (dn @ [l, d\<lparr>sle_lock := r\<rparr>]) []"
    and absorb: "\<And>w lock dn c rest lock1. P w lock dn (c # rest) \<Longrightarrow> merge_step u lock c = Absorb lock1
      \<Longrightarrow> P (remove_from_locklist c w) lock1 dn rest"
  shows "P w' lock' xs' []"
proof -
  have "u = u \<longrightarrow> P w lock dn pend \<longrightarrow> (case (w', lock', xs') of (a, b, c) \<Rightarrow> P a b c [])"
  proof (rule merge_loop.raw_induct [where P = "\<lambda>v w lock dn pend y. v = u \<longrightarrow> P w lock dn pend
      \<longrightarrow> (case y of (a, b, c) \<Rightarrow> P a b c [])", OF _ assms(1)], goal_cases)
    case (1 f v w lock dn pend y)
    show ?case
    proof (intro impI, cases pend)
      case (Cons c rest)
      assume [simp]: "v = u" and P: "P w lock dn pend"
      note eq = 1(2) [unfolded Cons, simplified] and P = P [unfolded Cons]
      show "case y of (a, b, c) \<Rightarrow> P a b c []"
      proof (cases "merge_step u lock c")
        case (Keep e)
        with eq keep [OF P] show ?thesis by (auto dest: 1(1))
      next
        case (Split l r)
        with eq obtain d w1 where d: "state_lock_entry_t_dup c w = Some (d, w1)"
          by (auto split: option.splits)
        show ?thesis
        proof (cases "rest = []")
          case True
          with eq Split d last [of w lock dn c l r d w1] P show ?thesis by auto
        next
          case False
          with eq Split d split [OF P Split d] show ?thesis by (auto dest: 1(1))
        qed
      next
        case (Absorb lock1)
        with eq absorb [OF P] show ?thesis by (auto dest: 1(1))
      qed
    qed (use 1 in auto)
  qed
  with assms(2) show ?thesis by simp
qed

text \<open>
  The loop ends for every well-formed lock, whatever the list holds: a right part that is appended
  does not start below the lock, so it cannot be split again.
\<close>

definition merge_measure :: "sle \<Rightarrow> sle list \<Rightarrow> nat" where
  "merge_measure lock pend =
     length pend + length (filter (\<lambda>c. lock_start (sle_lock c) < lock_start (sle_lock lock)) pend)"

lemma length_filter_mono:
  "(\<And>x. P x \<Longrightarrow> Q x) \<Longrightarrow> length (filter P xs) \<le> length (filter Q xs)"
  by (induction xs) (auto intro: le_SucI)

lemma merge_step_Split_shape:
  "merge_step u lock c = Split l r \<Longrightarrow>
     mergeable u lock c \<and> lock_start (sle_lock c) < lock_start (sle_lock lock)
     \<and> lock_end (sle_lock lock) < lock_end (sle_lock c)
     \<and> l = c\<lparr>sle_lock := left_of (sle_lock c) (sle_lock lock)\<rparr>
     \<and> r = right_of (sle_lock c) (sle_lock lock)"
  by (cases "mergeable u lock c")
    (auto simp: merge_step_mergeable merge_step_not_mergeable split: if_splits)

lemma merge_step_Absorb_shape:
  "merge_step u lock c = Absorb lock1 \<Longrightarrow>
     mergeable u lock c \<and> lock1 = lock\<lparr>sle_lock := hull (sle_lock c) (sle_lock lock)\<rparr>"
  by (cases "mergeable u lock c")
    (auto simp: merge_step_mergeable merge_step_not_mergeable split: if_splits)

lemma dup_Some: "sle_owner c \<noteq> None \<Longrightarrow> \<exists>d w1. state_lock_entry_t_dup c w = Some (d, w1)"
  by (auto simp: state_lock_entry_t_dup_def)

lemma mergeable_owner: "mergeable u lock c \<Longrightarrow> sle_owner c \<noteq> None"
  using own.same_not_NULL by (auto simp: mergeable_def)

lemma merge_loop_total:
  "range_ok (sle_lock lock) \<Longrightarrow> \<exists>y. merge_loop u w lock dn pend = Some y"
proof (induction "merge_measure lock pend" arbitrary: w lock dn pend rule: less_induct)
  case less
  show ?case
  proof (cases pend)
    case Nil
    then show ?thesis by (subst merge_loop.simps) simp
  next
    case (Cons c rest)
    show ?thesis
    proof (cases "merge_step u lock c")
      case (Keep e)
      with less show ?thesis
        by (subst merge_loop.simps) (simp add: Cons merge_measure_def)
    next
      case (Absorb lock1)
      note shape = merge_step_Absorb_shape [OF Absorb]
      have "range_ok (sle_lock lock1)" "lock_start (sle_lock lock1) \<le> lock_start (sle_lock lock)"
        using shape less.prems by (auto simp: hull range_ok_def min_le_iff_disj le_max_iff_disj)
      then have "\<exists>y. merge_loop u (remove_from_locklist c w) lock1 dn rest = Some y"
        by (intro less.hyps) (auto simp: Cons merge_measure_def less_Suc_eq_le
            intro!: add_mono length_filter_mono intro: order_less_le_trans le_SucI)
      then show ?thesis
        by (subst merge_loop.simps) (simp add: Cons Absorb)
    next
      case (Split l r)
      note shape = merge_step_Split_shape [OF Split]
      obtain d w1 where d: "state_lock_entry_t_dup c w = Some (d, w1)"
        using dup_Some mergeable_owner shape by blast
      have "lock_start (sle_lock lock) \<le> lock_start r"
        using shape less.prems word_less_plus1_iff [OF word_lt_imp_neq_max]
        by (auto simp: right_of range_ok_def intro: order_less_imp_le)
      then have "\<exists>y. merge_loop u w1 lock (dn @ [l]) (rest @ [d\<lparr>sle_lock := r\<rparr>]) = Some y"
        using less.prems shape by (intro less.hyps) (auto simp: Cons merge_measure_def)
      then show ?thesis
        by (subst merge_loop.simps) (simp add: Cons Split d)
    qed
  qed
qed

text \<open>
  The bytes after a merge.  While the loop runs, the entry being merged overrides what the other
  entries of its owner say; the entries already passed no longer overlap it.
\<close>

definition override :: "bool \<Rightarrow> sle \<Rightarrow> sle list \<Rightarrow> state_owner option \<Rightarrow> fsal_lock_t \<Rightarrow> u64 \<Rightarrow> bool" where
  "override u lock xs p t b \<longleftrightarrow>
     (if \<not> different_owners u (sle_owner lock) p \<and> b \<in> sle_bytes lock then t = sle_type lock
      else holds u xs p t b)"

definition merge_inv :: "bool \<Rightarrow> 'f sal \<Rightarrow> sle \<Rightarrow> sle list \<Rightarrow> sle list \<Rightarrow> bool" where
  "merge_inv u w lock dn pend \<longleftrightarrow>
     granted lock \<and> range_ok (sle_lock lock) \<and> \<not> to_eof (sle_lock lock) \<and> sle_id lock < sal_next w
     \<and> (\<forall>e \<in> set (dn @ pend). range_ok (sle_lock e) \<and> sle_id e < sal_next w)
     \<and> (\<forall>e \<in> set (dn @ pend). mergeable u lock e \<longrightarrow> \<not> to_eof (sle_lock e))
     \<and> canonical u (others lock (dn @ pend))
     \<and> (\<forall>e \<in> set (others lock dn). apart u lock e)"

lemma dup_simps:
  assumes "state_lock_entry_t_dup c w = Some (d, w1)"
  shows "sle_id d = sal_next w" "sal_next w1 = Suc (sal_next w)" "sle_owner d = sle_owner c"
    "sle_blocked d = sle_blocked c" "sle_lock d = sle_lock c" "sle_state d = sle_state c"
    "sle_obj d = sle_obj c" "sle_export d = sle_export c"
    "lock_list w1 = lock_list w"
  using assms
  by (cases "sle_owner c"; cases "sle_state c";
      clarsimp simp: state_lock_entry_t_dup_def create_state_lock_entry_def Let_def)+

lemma remove_from_locklist_next [simp]: "sal_next (remove_from_locklist c w) = sal_next w"
  by (simp add: remove_from_locklist_def unlink_owner_def free_lock_entry_def Let_def
      split: option.splits)

text \<open>
  One step, seen on the entries other than the one being merged: an entry of the same owner is
  replaced by pieces that cover what the merged entry does not take over.
\<close>

definition pieces_of :: "u64 set \<Rightarrow> sle \<Rightarrow> sle list \<Rightarrow> bool" where
  "pieces_of B c es \<longleftrightarrow>
     (\<forall>e \<in> set es. sle_owner e = sle_owner c \<and> sle_blocked e = sle_blocked c \<and> sle_type e = sle_type c)
     \<and> (\<Union>e \<in> set es. sle_bytes e) = sle_bytes c - B
     \<and> sorted_wrt (\<lambda>a b. sle_bytes a \<inter> sle_bytes b = {}) es"

definition grown :: "sle \<Rightarrow> sle \<Rightarrow> sle \<Rightarrow> bool" where
  "grown lock c lock' \<longleftrightarrow>
     sle_id lock' = sle_id lock \<and> sle_owner lock' = sle_owner lock \<and> sle_blocked lock' = sle_blocked lock
     \<and> sle_type lock' = sle_type lock
     \<and> (sle_bytes lock' = sle_bytes lock
        \<or> sle_bytes lock' = sle_bytes lock \<union> sle_bytes c
          \<and> (sle_type c = sle_type lock \<or> sle_bytes c \<subseteq> sle_bytes lock))"

lemma canonical_replace:
  assumes can: "canonical u (A @ c # B)" and pc: "pieces_of X c es"
  shows "canonical u (A @ B @ es)" "\<forall>e \<in> set es. \<forall>y \<in> set (A @ B). apart u e y"
proof -
  note AB = can [unfolded canonical_middle]
  show far: "\<forall>e \<in> set es. \<forall>y \<in> set (A @ B). apart u e y"
  proof (intro ballI)
    fix e y assume "e \<in> set es" "y \<in> set (A @ B)"
    with AB pc show "apart u e y"
      by (intro apart_subset [of u c y e]) (auto simp: pieces_of_def)
  qed
  have "canonical u es"
    using pc unfolding pieces_of_def canonical_def
    by (elim conjE sorted_wrt_mono_rel [rotated]) (simp add: apart_def)
  with AB far show "canonical u (A @ B @ es)"
    unfolding append_assoc [symmetric] by (subst canonical_append) (blast intro: apart_sym)
qed

lemma override_replace:
  assumes can: "canonical u (A @ c # B)" and m: "mergeable u lock c" and g: "granted lock"
    and pc: "pieces_of (sle_bytes lock') c es" and gr: "grown lock c lock'"
  shows "override u lock' (A @ B @ es) p t b = override u lock (A @ c # B) p t b"
proof (cases "different_owners u (sle_owner lock) p")
  case True
  then have "different_owners u (sle_owner c) p"
    using m own.differ_cong_left by (auto simp: mergeable_def)
  with True gr pc show ?thesis
    by (auto simp: override_def holds_def grown_def pieces_of_def)
next
  case False
  then have c: "\<not> different_owners u (sle_owner c) p" "granted c"
    using m own.differ_cong_left by (auto simp: mergeable_def)
  have es: "holds u es p t b \<longleftrightarrow> t = sle_type c \<and> b \<in> sle_bytes c - sle_bytes lock'"
    using c pc by (auto simp: holds_def pieces_of_def granted_def)
  have only: "\<not> holds u (A @ B) p t b" if "b \<in> sle_bytes c"
  proof
    assume "holds u (A @ B) p t b"
    then obtain e where e: "e \<in> set (A @ B)" "granted e" "\<not> different_owners u (sle_owner e) p"
      "b \<in> sle_bytes e" by (auto simp: holds_def)
    have "\<not> different_owners u (sle_owner c) (sle_owner e)"
      using c(1) e(3) own.differ_cong_left own.differ_commute by metis
    moreover have "apart u c e"
      using can e(1) by (simp add: canonical_middle)
    ultimately show False using c e that by (auto simp: apart_def)
  qed
  have "holds u (A @ c # B) p t b \<longleftrightarrow> t = sle_type c \<and> b \<in> sle_bytes c \<or> holds u (A @ B) p t b"
    using c by (auto simp: holds_Cons)
  moreover have "holds u (A @ B @ es) p t b
      \<longleftrightarrow> t = sle_type c \<and> b \<in> sle_bytes c - sle_bytes lock' \<or> holds u (A @ B) p t b"
    using es by auto
  moreover have "\<not> different_owners u (sle_owner lock') p" "sle_type lock' = sle_type lock"
    using gr False by (simp_all add: grown_def)
  moreover have "b \<in> sle_bytes lock' \<longleftrightarrow> b \<in> sle_bytes lock
      \<or> b \<in> sle_bytes lock' \<and> b \<in> sle_bytes c \<and> sle_type c = sle_type lock"
    using gr unfolding grown_def by blast
  ultimately show ?thesis
    using False only unfolding override_def by (simp del: holds_append) metis
qed

lemma override_cong: "set xs = set ys \<Longrightarrow> override u lock xs p t b = override u lock ys p t b"
  by (simp add: override_def holds_def)

lemma mergeable_cong:
  "grown lock c lock' \<Longrightarrow> mergeable u lock' e = mergeable u lock e"
  by (simp add: grown_def mergeable_def)

lemma merge_inv_replace:
  assumes inv: "merge_inv u w lock dn (c # rest)" and m: "mergeable u lock c"
    and pc: "pieces_of (sle_bytes lock') c (es1 @ es2)" and gr: "grown lock c lock'"
    and es: "\<forall>e \<in> set (es1 @ es2). sle_id e \<noteq> sle_id lock \<and> range_ok (sle_lock e)
               \<and> \<not> to_eof (sle_lock e) \<and> sle_id e < sal_next w1"
    and lk: "range_ok (sle_lock lock')" "\<not> to_eof (sle_lock lock')" "sal_next w \<le> sal_next w1"
  shows "merge_inv u w1 lock' (dn @ es1) (rest @ es2)"
    and "override u lock' (others lock' ((dn @ es1) @ rest @ es2)) p t b
         = override u lock (others lock (dn @ c # rest)) p t b"
proof -
  have id: "sle_id lock' = sle_id lock" and g': "granted lock' = granted lock"
    using gr by (simp_all add: grown_def granted_def)
  note oth = others_cong [OF id]
  define A B where "A = others lock dn" and "B = others lock rest"
  have c: "others lock (dn @ c # rest) = A @ c # B"
    using m by (simp add: others_Cons mergeable_def A_def B_def)
  have E: "others lock es1 = es1" "others lock es2 = es2"
    using es by (auto simp: others_def filter_id_conv)
  have can: "canonical u (A @ c # B)" and g: "granted lock" and apA: "\<forall>e \<in> set A. apart u lock e"
    using inv by (simp_all only: merge_inv_def c) (simp add: A_def)
  note R = canonical_replace [OF can pc]
  have can': "canonical u (others lock' ((dn @ es1) @ rest @ es2))"
    using R(1) by (auto simp: oth E canonical_append simp flip: A_def B_def intro: apart_sym)
  have apart_es: "apart u lock' e" if "e \<in> set es1" for e
    using that pc by (auto simp: pieces_of_def apart_def)
  have apart_A: "apart u lock' e" if "e \<in> set A" for e
  proof -
    have "apart u c e" using can that by (simp add: canonical_middle)
    then show ?thesis
      using apA that m gr own.differ_cong_left [of u "sle_owner c" "sle_owner lock"]
      unfolding apart_def grown_def mergeable_def granted_def by (metis Int_Un_distrib2 Un_empty_left)
  qed
  show "merge_inv u w1 lock' (dn @ es1) (rest @ es2)"
    using inv es lk can' apart_es apart_A id g' unfolding merge_inv_def
    by (simp add: mergeable_cong [OF gr] oth E ball_Un less_le_trans [OF _ lk(3)] flip: A_def)
  show "override u lock' (others lock' ((dn @ es1) @ rest @ es2)) p t b
         = override u lock (others lock (dn @ c # rest)) p t b"
    unfolding c override_replace [OF can m g pc gr, symmetric]
    by (rule override_cong) (auto simp: oth E A_def B_def)
qed

lemma merge_inv_skip:
  assumes "merge_inv u w lock dn (c # rest)" and "\<not> mergeable u lock c"
  shows "merge_inv u w lock (dn @ [c]) rest"
proof -
  have "apart u lock c" if "sle_id c \<noteq> sle_id lock"
    using assms(2) that own.differ_commute by (auto simp: apart_def mergeable_def)
  then show ?thesis
    using assms(1) unfolding merge_inv_def by (auto simp: others_Cons)
qed

definition merge_post :: "bool \<Rightarrow> sle \<Rightarrow> sle list \<Rightarrow> 'f sal \<Rightarrow> sle \<Rightarrow> sle list \<Rightarrow> sle list \<Rightarrow> bool" where
  "merge_post u lock xs w1 lock1 dn pend \<longleftrightarrow>
     merge_inv u w1 lock1 dn pend
     \<and> sle_id lock1 = sle_id lock \<and> sle_owner lock1 = sle_owner lock
     \<and> sle_blocked lock1 = sle_blocked lock \<and> sle_type lock1 = sle_type lock
     \<and> (\<forall>p t b. override u lock1 (others lock1 (dn @ pend)) p t b
                = override u lock (others lock xs) p t b)"

lemma merge_post_replace:
  assumes post: "merge_post u lock xs w lock1 dn (c # rest)" and m: "mergeable u lock1 c"
    and pc: "pieces_of (sle_bytes lock2) c (es1 @ es2)" and gr: "grown lock1 c lock2"
    and es: "\<forall>e \<in> set (es1 @ es2). sle_id e \<noteq> sle_id lock1 \<and> range_ok (sle_lock e)
               \<and> \<not> to_eof (sle_lock e) \<and> sle_id e < sal_next w1"
    and lk: "range_ok (sle_lock lock2)" "\<not> to_eof (sle_lock lock2)" "sal_next w \<le> sal_next w1"
  shows "merge_post u lock xs w1 lock2 (dn @ es1) (rest @ es2)"
proof -
  have inv: "merge_inv u w lock1 dn (c # rest)" using post by (simp add: merge_post_def)
  note R = merge_inv_replace [OF inv m pc gr es lk]
  show ?thesis
    using post R(1) gr R(2) unfolding merge_post_def grown_def by simp
qed

lemma merge_inv_lock:
  assumes "merge_inv u w lock dn (c # rest)"
  shows "range_ok (sle_lock c)" "range_ok (sle_lock lock)" "\<not> to_eof (sle_lock lock)"
    "sle_id c < sal_next w" "sle_id lock < sal_next w"
    "mergeable u lock c \<Longrightarrow> \<not> to_eof (sle_lock c)"
  using assms by (simp_all add: merge_inv_def)

lemma merge_inv_cases:
  assumes inv: "merge_inv u w lock dn (c # rest)" and m: "mergeable u lock c"
  shows "merge_step u lock c = Keep e \<Longrightarrow> \<exists>k. e = c\<lparr>sle_lock := k\<rparr> \<and> range_ok k \<and> \<not> to_eof k
      \<and> lock_type k = sle_type c \<and> bytes k = sle_bytes c - sle_bytes lock"
    and "merge_step u lock c = Split l r \<Longrightarrow> \<exists>k. l = c\<lparr>sle_lock := k\<rparr> \<and> range_ok k \<and> range_ok r
      \<and> \<not> to_eof k \<and> \<not> to_eof r \<and> lock_type k = sle_type c \<and> lock_type r = sle_type c
      \<and> bytes k \<union> bytes r = sle_bytes c - sle_bytes lock \<and> bytes k \<inter> bytes r = {}"
    and "merge_step u lock c = Absorb lock2 \<Longrightarrow> \<exists>k. lock2 = lock\<lparr>sle_lock := k\<rparr> \<and> range_ok k
      \<and> \<not> to_eof k \<and> lock_type k = sle_type lock \<and> bytes k = sle_bytes lock \<union> sle_bytes c
      \<and> (sle_type c = sle_type lock \<or> sle_bytes c \<subseteq> sle_bytes lock)"
  by (rule merge_step_cases [OF m merge_inv_lock(1,2) [OF inv]];
      insert merge_inv_lock(6) [OF inv m] merge_inv_lock(3) [OF inv]; auto)+

lemma merge_post_keep:
  assumes post: "merge_post u lock xs w lock1 dn (c # rest)" and st: "merge_step u lock1 c = Keep e"
  shows "merge_post u lock xs w lock1 (dn @ [e]) rest"
proof (cases "mergeable u lock1 c")
  case False
  with st post merge_inv_skip [of u w lock1 dn c rest] show ?thesis
    by (simp add: merge_post_def merge_step_not_mergeable)
next
  case True
  have inv: "merge_inv u w lock1 dn (c # rest)" using post by (simp add: merge_post_def)
  from merge_inv_cases(1) [OF inv True st] obtain k where k: "e = c\<lparr>sle_lock := k\<rparr>" "range_ok k"
    "lock_type k = sle_type c" "\<not> to_eof k" "bytes k = sle_bytes c - sle_bytes lock1"
    by blast
  have "pieces_of (sle_bytes lock1) c ([e] @ [])" "grown lock1 c lock1"
    using k by (simp_all add: pieces_of_def grown_def)
  from merge_post_replace [OF post True this, of w] show ?thesis
    using k merge_inv_lock [OF inv] True by (simp add: mergeable_def)
qed

lemma merge_post_split:
  assumes post: "merge_post u lock xs w lock1 dn (c # rest)"
    and st: "merge_step u lock1 c = Split l r" and d: "state_lock_entry_t_dup c w = Some (d, w1)"
  shows "merge_post u lock xs w1 lock1 (dn @ [l]) (rest @ [d\<lparr>sle_lock := r\<rparr>])"
    and "rest = [] \<Longrightarrow> merge_post u lock xs w1 lock1 (dn @ [l, d\<lparr>sle_lock := r\<rparr>]) []"
proof -
  have inv: "merge_inv u w lock1 dn (c # rest)" using post by (simp add: merge_post_def)
  have m: "mergeable u lock1 c" using merge_step_Split_shape [OF st] by simp
  from merge_inv_cases(2) [OF inv m st] obtain k where k: "l = c\<lparr>sle_lock := k\<rparr>" "range_ok k"
    "range_ok r" "lock_type k = sle_type c" "lock_type r = sle_type c" "\<not> to_eof k" "\<not> to_eof r"
    "bytes k \<union> bytes r = sle_bytes c - sle_bytes lock1" "bytes k \<inter> bytes r = {}"
    by blast
  note D = dup_simps [OF d] and I = merge_inv_lock [OF inv]
  have pc: "pieces_of (sle_bytes lock1) c [l, d\<lparr>sle_lock := r\<rparr>]" and gr: "grown lock1 c lock1"
    using k by (simp_all add: pieces_of_def grown_def D)
  have es: "\<forall>e \<in> set [l, d\<lparr>sle_lock := r\<rparr>]. sle_id e \<noteq> sle_id lock1 \<and> range_ok (sle_lock e)
             \<and> \<not> to_eof (sle_lock e) \<and> sle_id e < sal_next w1"
    using k I m by (simp add: D mergeable_def)
  show "merge_post u lock xs w1 lock1 (dn @ [l]) (rest @ [d\<lparr>sle_lock := r\<rparr>])"
    using merge_post_replace [OF post m _ gr, of "[l]" "[d\<lparr>sle_lock := r\<rparr>]" w1] pc es I D by simp
  show "merge_post u lock xs w1 lock1 (dn @ [l, d\<lparr>sle_lock := r\<rparr>]) []" if "rest = []"
    using merge_post_replace [OF post m _ gr, of "[l, d\<lparr>sle_lock := r\<rparr>]" "[]" w1] pc es I D that
    by simp
qed

lemma merge_post_absorb:
  assumes post: "merge_post u lock xs w lock1 dn (c # rest)"
    and st: "merge_step u lock1 c = Absorb lock2"
  shows "merge_post u lock xs (remove_from_locklist c w) lock2 dn rest"
proof -
  have inv: "merge_inv u w lock1 dn (c # rest)" using post by (simp add: merge_post_def)
  have m: "mergeable u lock1 c" using merge_step_Absorb_shape [OF st] by simp
  from merge_inv_cases(3) [OF inv m st] obtain k where k: "lock2 = lock1\<lparr>sle_lock := k\<rparr>" "range_ok k"
    "lock_type k = sle_type lock1" "\<not> to_eof k" "bytes k = sle_bytes lock1 \<union> sle_bytes c"
    "sle_type c = sle_type lock1 \<or> sle_bytes c \<subseteq> sle_bytes lock1"
    by blast
  then have "pieces_of (sle_bytes lock2) c ([] @ [])" "grown lock1 c lock2"
    by (auto simp: pieces_of_def grown_def)
  from merge_post_replace [OF post m this, of "remove_from_locklist c w"] show ?thesis
    using k by simp
qed

lemma merge_loop_semantics:
  assumes "merge_loop u w lock [] xs = Some (w', lock', xs')" and "merge_inv u w lock [] xs"
  shows "merge_post u lock xs w' lock' xs' []"
proof (rule merge_loop_invariant [where P = "merge_post u lock xs", OF assms(1)])
  show "merge_post u lock xs w lock [] xs"
    using assms(2) by (simp add: merge_post_def)
qed (rule merge_post_keep merge_post_split merge_post_absorb; (assumption | rule refl))+

lemma others_map_put:
  "sle_id e = sle_id lock
    \<Longrightarrow> others lock (map (\<lambda>x. if sle_id x = sle_id lock then e else x) xs) = others lock xs"
  by (induction xs) (auto simp: others_Cons)

text \<open>The lock list after a merge; the entry merged is listed first.\<close>

lemma merge_lock_entry_semantics:
  assumes inv: "merge_inv u w lock [] (lock_list w obj)"
  obtains lock' w' where "merge_lock_entry u obj lock w = Some (lock', w')"
    "sle_id lock' = sle_id lock" "sle_owner lock' = sle_owner lock"
    "sle_blocked lock' = sle_blocked lock" "sle_type lock' = sle_type lock"
    "range_ok (sle_lock lock')"
    "\<forall>e \<in> set (others lock (lock_list w' obj)). range_ok (sle_lock e)"
    "canonical u (lock' # others lock (lock_list w' obj))"
    "\<And>p t b. holds u (lock' # others lock (lock_list w' obj)) p t b
       = override u lock (others lock (lock_list w obj)) p t b"
proof -
  have "range_ok (sle_lock lock)" using inv by (simp add: merge_inv_def)
  then obtain w1 lock' xs where run: "merge_loop u w lock [] (lock_list w obj) = Some (w1, lock', xs)"
    using merge_loop_total by (metis prod_cases3)
  note post = merge_loop_semantics [OF run inv]
  define w' where "w' = w1\<lparr>lock_list := (lock_list w1)
    (obj := map (\<lambda>x. if sle_id x = sle_id lock' then lock' else x) xs)\<rparr>"
  have eq: "merge_lock_entry u obj lock w = Some (lock', w')"
    using run by (simp add: merge_lock_entry_def w'_def)
  have id: "sle_id lock' = sle_id lock" using post by (simp add: merge_post_def)
  then have oth: "others lock (lock_list w' obj) = others lock' xs"
    by (simp add: w'_def others_map_put others_cong [OF id])
  have inv': "merge_inv u w1 lock' xs []" using post by (simp add: merge_post_def)
  then have ap: "granted lock'" "canonical u (others lock' xs)" "\<forall>e \<in> set (others lock' xs). apart u lock' e"
    by (simp_all add: merge_inv_def)
  have none: "\<not> holds u (others lock' xs) p t b"
    if "\<not> different_owners u (sle_owner lock') p" "b \<in> sle_bytes lock'" for p t b
  proof
    assume "holds u (others lock' xs) p t b"
    then obtain e where e: "e \<in> set (others lock' xs)" "granted e" "b \<in> sle_bytes e"
      "\<not> different_owners u (sle_owner e) p" by (auto simp: holds_def)
    then have "\<not> different_owners u (sle_owner lock') (sle_owner e)"
      using that(1) own.differ_cong_left own.differ_commute by metis
    with ap e that show False by (auto simp: apart_def)
  qed
  show thesis
  proof (rule that [OF eq])
    show "canonical u (lock' # others lock (lock_list w' obj))"
      using ap by (simp add: oth canonical_def)
    show "holds u (lock' # others lock (lock_list w' obj)) p t b
       = override u lock (others lock (lock_list w obj)) p t b" for p t b
    proof -
      have "override u lock' (others lock' xs) p t b = override u lock (others lock (lock_list w obj)) p t b"
        using post by (simp add: merge_post_def)
      then show ?thesis
        using ap(1) none by (auto simp: oth holds_Cons override_def split: if_splits)
    qed
    show "\<forall>e \<in> set (others lock (lock_list w' obj)). range_ok (sle_lock e)"
      unfolding oth using inv' by (auto simp: merge_inv_def others_def)
  qed (use post inv' in \<open>simp_all add: merge_post_def merge_inv_def\<close>)
qed

section \<open>Subtraction\<close>

lemma canonical_perm: "mset xs = mset ys \<Longrightarrow> canonical u xs = canonical u ys"
  unfolding canonical_def by (rule sorted_wrt_sym_perm) (auto intro: apart_sym)

lemma canonical_replace_all:
  "canonical u (A @ hits) \<Longrightarrow> list_all2 (pieces_of B) hits fs \<Longrightarrow> canonical u (A @ concat fs)"
proof (induction hits arbitrary: A fs)
  case (Cons c hits)
  from Cons.prems(2) obtain es fs' where fs: "fs = es # fs'" "pieces_of B c es"
    "list_all2 (pieces_of B) hits fs'"
    by (cases fs) auto
  have "canonical u (A @ hits @ es)"
    using canonical_replace(1) Cons.prems(1) fs(2) by blast
  then have "canonical u ((A @ es) @ hits)"
    by (rule canonical_perm [THEN iffD1, rotated]) simp
  with Cons.IH fs show ?case by fastforce
qed simp

lemma holds_pieces:
  "pieces_of B c es \<Longrightarrow>
     holds u es p t b \<longleftrightarrow> granted c \<and> \<not> different_owners u (sle_owner c) p \<and> sle_type c = t
       \<and> b \<in> sle_bytes c - B"
  by (auto simp: holds_def pieces_of_def granted_def)

lemma holds_replace_all:
  "list_all2 (pieces_of B) hits fs \<Longrightarrow> holds u (concat fs) p t b \<longleftrightarrow> b \<notin> B \<and> holds u hits p t b"
  by (induction hits fs rule: list_all2_induct) (auto simp: holds_Cons holds_pieces)

text \<open>Which entries an unlock works on, and which of them it changes.\<close>

definition matches ::
  "bool \<Rightarrow> state_owner option \<Rightarrow> bool \<Rightarrow> u32 \<Rightarrow> (ptr \<Rightarrow> u32) \<Rightarrow> sle \<Rightarrow> bool" where
  "matches u owner sa st seqid e \<longleftrightarrow>
     granted e \<and> (owner = None \<or> \<not> different_owners u (sle_owner e) owner)
     \<and> \<not> (sa \<and> seqid (the (sle_state e)) = st)"

abbreviation hit ::
  "bool \<Rightarrow> state_owner option \<Rightarrow> bool \<Rightarrow> u32 \<Rightarrow> fsal_lock_param \<Rightarrow> (ptr \<Rightarrow> u32) \<Rightarrow> sle \<Rightarrow> bool" where
  "hit u owner sa st lock seqid e \<equiv>
     matches u owner sa st seqid e \<and> sle_bytes e \<inter> bytes lock \<noteq> {}"

lemma subtract_skips_matches:
  "(sa \<Longrightarrow> sle_state e \<noteq> None) \<Longrightarrow>
     subtract_skips u owner sa st w e = Some (\<not> matches u owner sa st (state_seqid w) e)"
  by (cases sa) (auto simp: subtract_skips_def matches_def granted_def)

lemma dup_seqid: "state_lock_entry_t_dup c w = Some (d, w1) \<Longrightarrow> state_seqid w1 = state_seqid w"
  by (cases "sle_owner c"; cases "sle_state c";
      clarsimp simp: state_lock_entry_t_dup_def create_state_lock_entry_def Let_def)

lemma left_fragment:
  fixes c l :: fsal_lock_param
  assumes "lock_start c < lock_start l" "lock_start l \<le> lock_end c"
  defines "k \<equiv> c\<lparr>lock_length := lock_start l - lock_start c\<rparr>"
  shows "bytes k = {b \<in> bytes c. b < lock_start l}" "range_ok k"
proof -
  have nz: "lock_start l \<noteq> 0" using assms(1) by auto
  have e: "lock_end k = lock_start l - 1"
    using left_of(2) [OF assms(1)] by (simp add: k_def left_of_def)
  show "bytes k = {b \<in> bytes c. b < lock_start l}"
    using assms(2) by (auto simp: mem_bytes e word_le_minus1_iff [OF nz]) (simp_all add: k_def)
  show "range_ok k"
    using assms(1) by (simp add: range_ok_def e word_le_minus1_iff [OF nz]) (simp add: k_def)
qed

lemma right_fragment:
  fixes c l :: fsal_lock_param
  assumes "lock_end l < lock_end c" "lock_start c \<le> lock_end l"
  defines "k \<equiv> c\<lparr>lock_start := lock_end l + 1,
                 lock_length := if lock_end c = UINT64_MAX then 0 else lock_end c - lock_end l\<rparr>"
  shows "bytes k = {b \<in> bytes c. lock_end l < b}" "range_ok k"
proof -
  have nm: "lock_end l \<noteq> UINT64_MAX" using assms(1) by (rule word_lt_imp_neq_max)
  have e: "lock_end k = lock_end c"
  proof (cases "lock_end c = UINT64_MAX")
    case True
    then show ?thesis by (simp add: k_def lock_end_def)
  next
    case False
    then show ?thesis using lock_end_of_right [OF assms(1), of c] by (simp add: k_def)
  qed
  have s: "lock_start k = lock_end l + 1" by (simp add: k_def)
  show "bytes k = {b \<in> bytes c. lock_end l < b}"
    using assms(2) by (auto simp: mem_bytes e s word_plus1_le_iff [OF nm])
  show "range_ok k"
    using assms(1) by (simp add: range_ok_def e s word_plus1_le_iff [OF nm])
qed

lemma sorted_wrt_short: "length xs \<le> 1 \<Longrightarrow> sorted_wrt P xs"
  by (cases xs) auto

definition fragment :: "'f sal \<Rightarrow> sle \<Rightarrow> 'f sal \<Rightarrow> sle \<Rightarrow> bool" where
  "fragment w c w1 e \<longleftrightarrow>
     sle_owner e = sle_owner c \<and> sle_blocked e = sle_blocked c \<and> sle_type e = sle_type c
     \<and> sle_state e = sle_state c \<and> range_ok (sle_lock e)
     \<and> sal_next w \<le> sle_id e \<and> sle_id e < sal_next w1"

definition advances :: "'f sal \<Rightarrow> 'f sal \<Rightarrow> bool" where
  "advances w w1 \<longleftrightarrow>
     state_seqid w1 = state_seqid w \<and> sal_next w \<le> sal_next w1 \<and> lock_list w1 = lock_list w"

lemma advances_refl [simp]: "advances w w"
  by (simp add: advances_def)

lemma advances_trans: "advances w w1 \<Longrightarrow> advances w1 w2 \<Longrightarrow> advances w w2"
  by (simp add: advances_def)

lemma dup_fragment:
  assumes own: "sle_owner c \<noteq> None"
    and ok: "P \<Longrightarrow> range_ok (f (sle_lock c))" and ty: "lock_type (f (sle_lock c)) = sle_type c"
    and bk: "P \<Longrightarrow> bytes (f (sle_lock c)) = X" and no: "\<not> P \<Longrightarrow> X = {}"
  obtains es w1 where
    "(if P then map_option (\<lambda>(d, w1). ([d\<lparr>sle_lock := f (sle_lock d)\<rparr>], w1))
        (state_lock_entry_t_dup c w) else Some ([], w)) = Some (es, w1)"
    "\<forall>e \<in> set es. fragment w c w1 e" "(\<Union>e \<in> set es. sle_bytes e) = X" "length es \<le> 1"
    "advances w w1"
proof (cases P)
  case True
  obtain d w1 where d: "state_lock_entry_t_dup c w = Some (d, w1)" using dup_Some [OF own] by blast
  note D = dup_simps [OF d] dup_seqid [OF d]
  show ?thesis
    by (rule that [of "[d\<lparr>sle_lock := f (sle_lock d)\<rparr>]" w1])
      (use True ok ty bk in \<open>simp_all add: d D fragment_def advances_def\<close>)
qed (use that [of "[]" w] no in simp)

lemma subtract_entry_spec:
  assumes ok: "range_ok (sle_lock c)" "range_ok lock" and own: "sle_owner c \<noteq> None"
  obtains es w' where
    "subtract_lock_from_entry c lock w
       = Some (STATE_SUCCESS, sle_bytes c \<inter> bytes lock \<noteq> {}, es, w')"
    "if sle_bytes c \<inter> bytes lock = {} then es = [] else pieces_of (bytes lock) c es"
    "\<forall>e \<in> set es. fragment w c w' e" "advances w w'"
proof (cases "sle_bytes c \<inter> bytes lock = {}")
  case True
  then have "lock_end lock < lock_start (sle_lock c) \<or> lock_end (sle_lock c) < lock_start lock"
    using bytes_overlap_iff [OF ok] by auto
  then show ?thesis
    by (intro that [of "[]" w]) (auto simp: subtract_lock_from_entry_def Let_def True)
next
  case False
  define k where "k = sle_lock c"
  have ov: "lock_start lock \<le> lock_end k" "lock_start k \<le> lock_end lock"
    using False bytes_overlap_iff [OF ok] by (auto simp: k_def)
  show ?thesis
  proof (cases "lock_start lock \<le> lock_start k \<and> lock_end k \<le> lock_end lock")
    case True
    then have "sle_bytes c - bytes lock = {}" by (auto simp: mem_bytes k_def)
    then show ?thesis
      using True ov False
      by (intro that [of "[]" w])
        (auto simp: subtract_lock_from_entry_def Let_def pieces_of_def k_def)
  next
    case part: False
    obtain L w1 where L: "(if lock_start k < lock_start lock
        then map_option (\<lambda>(d, w1). ([d\<lparr>sle_lock := (sle_lock d)
               \<lparr>lock_length := lock_start lock - lock_start k\<rparr>\<rparr>], w1))
          (state_lock_entry_t_dup c w) else Some ([], w)) = Some (L, w1)"
      "\<forall>e \<in> set L. fragment w c w1 e" "(\<Union>e \<in> set L. sle_bytes e) = {b \<in> bytes k. b < lock_start lock}"
      "length L \<le> 1" "advances w w1"
    proof (rule dup_fragment [OF own, of "lock_start k < lock_start lock"
          "\<lambda>l. l\<lparr>lock_length := lock_start lock - lock_start k\<rparr>"
          "{b \<in> bytes k. b < lock_start lock}" w])
    qed (use left_fragment [of k lock] ov in \<open>auto simp: mem_bytes simp flip: k_def\<close>)
    obtain R w2 where R: "(if lock_end lock < lock_end k
        then map_option (\<lambda>(d, w1). ([d\<lparr>sle_lock := (sle_lock d)\<lparr>lock_start := lock_end lock + 1,
            lock_length := if lock_end k = UINT64_MAX then 0 else lock_end k - lock_end lock\<rparr>\<rparr>], w1))
          (state_lock_entry_t_dup c w1) else Some ([], w1)) = Some (R, w2)"
      "\<forall>e \<in> set R. fragment w1 c w2 e" "(\<Union>e \<in> set R. sle_bytes e) = {b \<in> bytes k. lock_end lock < b}"
      "length R \<le> 1" "advances w1 w2"
    proof (rule dup_fragment [OF own, of "lock_end lock < lock_end k"
          "\<lambda>l. l\<lparr>lock_start := lock_end lock + 1,
               lock_length := if lock_end k = UINT64_MAX then 0 else lock_end k - lock_end lock\<rparr>"
          "{b \<in> bytes k. lock_end lock < b}" w1])
    qed (use right_fragment [of lock k] ov in \<open>auto simp: mem_bytes simp flip: k_def\<close>)
    show ?thesis
    proof (rule that [of "L @ R" w2])
      show "subtract_lock_from_entry c lock w
          = Some (STATE_SUCCESS, sle_bytes c \<inter> bytes lock \<noteq> {}, L @ R, w2)"
        using part ov L(1) R(1) False
        by (auto simp: subtract_lock_from_entry_def Let_def leD simp flip: k_def)
      show frag: "\<forall>e \<in> set (L @ R). fragment w c w2 e"
        using L(2,5) R(2,5) by (auto simp: fragment_def advances_def)
      have "(\<Union>e \<in> set (L @ R). sle_bytes e) = bytes k - bytes lock"
        using L(3) R(3) by (auto simp: mem_bytes set_eq_iff)
      moreover have "sle_bytes a \<inter> sle_bytes b = {}" if "a \<in> set L" "b \<in> set R" for a b
      proof -
        have "sle_bytes a \<subseteq> {x. x < lock_start lock}" "sle_bytes b \<subseteq> {x. lock_end lock < x}"
          using that L(3) R(3) by blast+
        with ok(2) show ?thesis unfolding range_ok_def by fastforce
      qed
      then have "sorted_wrt (\<lambda>a b. sle_bytes a \<inter> sle_bytes b = {}) (L @ R)"
        using L(4) R(4) by (simp add: sorted_wrt_append sorted_wrt_short)
      ultimately show "if sle_bytes c \<inter> bytes lock = {} then L @ R = []
          else pieces_of (bytes lock) c (L @ R)"
        using False frag by (simp add: pieces_of_def fragment_def k_def ball_Un)
      show "advances w w2" using L(5) R(5) by (rule advances_trans)
    qed
  qed
qed

definition entry_ok :: "bool \<Rightarrow> sle \<Rightarrow> bool" where
  "entry_ok sa e \<longleftrightarrow> range_ok (sle_lock e) \<and> sle_owner e \<noteq> None \<and> (sa \<longrightarrow> sle_state e \<noteq> None)"

lemma fragment_mono: "fragment w1 c w2 e \<Longrightarrow> advances w w1 \<Longrightarrow> advances w2 w3 \<Longrightarrow> fragment w c w3 e"
  by (auto simp: fragment_def advances_def)

lemma subtract_loop_spec:
  fixes w :: "'f sal" and u :: bool and owner :: "state_owner option" and st :: u32
  assumes lk: "range_ok lock" and ok: "\<forall>e \<in> set pend. entry_ok sa e"
  defines "h \<equiv> hit u owner sa st lock (state_seqid w)"
  shows "\<exists>w' fs. subtract_loop u owner sa st lock w dn sp rm removed pend
      = Some (STATE_SUCCESS, w', dn @ filter (\<lambda>e. \<not> h e) pend, sp @ concat fs, rm @ filter h pend,
              removed \<or> (\<exists>e \<in> set pend. h e))
    \<and> list_all2 (pieces_of (bytes lock)) (filter h pend) fs \<and> advances w w'
    \<and> (\<forall>e \<in> set (concat fs). \<exists>c \<in> set pend. fragment w c w' e)"
  using ok unfolding h_def
proof (induction pend arbitrary: w dn sp rm removed)
  case (Cons c pend)
  let ?h = "hit u owner sa st lock (state_seqid w)"
  have c: "range_ok (sle_lock c)" "sle_owner c \<noteq> None" "sa \<Longrightarrow> sle_state c \<noteq> None"
    and pend: "\<forall>e \<in> set pend. entry_ok sa e"
    using Cons.prems by (auto simp: entry_ok_def)
  have skip: "subtract_skips u owner sa st w c = Some (\<not> matches u owner sa st (state_seqid w) c)"
    using subtract_skips_matches c(3) by blast
  show ?case
  proof (cases "matches u owner sa st (state_seqid w) c")
    case False
    from Cons.IH [OF pend, of w "dn @ [c]" sp rm removed] obtain w' fs where
      IH: "subtract_loop u owner sa st lock w (dn @ [c]) sp rm removed pend
        = Some (STATE_SUCCESS, w', (dn @ [c]) @ filter (\<lambda>e. \<not> ?h e) pend, sp @ concat fs,
                rm @ filter ?h pend, removed \<or> (\<exists>e \<in> set pend. ?h e))"
        "list_all2 (pieces_of (bytes lock)) (filter ?h pend) fs" "advances w w'"
        "\<forall>e \<in> set (concat fs). \<exists>c \<in> set pend. fragment w c w' e"
      by blast
    show ?thesis
      by (rule exI [of _ w'], rule exI [of _ fs]) (use False IH skip in auto)
  next
    case True
    obtain es w1 where S: "subtract_lock_from_entry c lock w
        = Some (STATE_SUCCESS, sle_bytes c \<inter> bytes lock \<noteq> {}, es, w1)"
      "if sle_bytes c \<inter> bytes lock = {} then es = [] else pieces_of (bytes lock) c es"
      "\<forall>e \<in> set es. fragment w c w1 e" "advances w w1"
      using subtract_entry_spec [OF c(1) lk c(2), of w] by blast
    have sq: "state_seqid w1 = state_seqid w" using S(4) by (simp add: advances_def)
    show ?thesis
    proof (cases "sle_bytes c \<inter> bytes lock = {}")
      case none: True
      from Cons.IH [OF pend, of w1 "dn @ [c]" sp rm removed] obtain w' fs where
        IH: "subtract_loop u owner sa st lock w1 (dn @ [c]) sp rm removed pend
          = Some (STATE_SUCCESS, w', (dn @ [c]) @ filter (\<lambda>e. \<not> ?h e) pend, sp @ concat fs,
                  rm @ filter ?h pend, removed \<or> (\<exists>e \<in> set pend. ?h e))"
          "list_all2 (pieces_of (bytes lock)) (filter ?h pend) fs" "advances w1 w'"
          "\<forall>e \<in> set (concat fs). \<exists>c \<in> set pend. fragment w1 c w' e"
        unfolding sq by blast
      have "\<forall>e \<in> set (concat fs). \<exists>c \<in> set pend. fragment w c w' e"
        using IH(4) fragment_mono [OF _ S(4) advances_refl] by blast
      then show ?thesis
        by (intro exI [of _ w'] exI [of _ fs])
          (use True none S IH(1-3) skip in \<open>auto simp: sq intro: advances_trans\<close>)
    next
      case some: False
      from Cons.IH [OF pend, of w1 dn "sp @ es" "rm @ [c]" True] obtain w' fs where
        IH: "subtract_loop u owner sa st lock w1 dn (sp @ es) (rm @ [c]) True pend
          = Some (STATE_SUCCESS, w', dn @ filter (\<lambda>e. \<not> ?h e) pend, (sp @ es) @ concat fs,
                  (rm @ [c]) @ filter ?h pend, True \<or> (\<exists>e \<in> set pend. ?h e))"
          "list_all2 (pieces_of (bytes lock)) (filter ?h pend) fs" "advances w1 w'"
          "\<forall>e \<in> set (concat fs). \<exists>c \<in> set pend. fragment w1 c w' e"
        unfolding sq by blast
      have "\<forall>e \<in> set (concat fs). \<exists>c \<in> set pend. fragment w c w' e" "\<forall>e \<in> set es. fragment w c w' e"
        using IH(4) S(3) fragment_mono [OF _ S(4) advances_refl]
          fragment_mono [OF _ advances_refl IH(3)] by blast+
      then show ?thesis
        by (intro exI [of _ w'] exI [of _ "es # fs"])
          (use True some S(1,2,4) IH(1-3) skip in \<open>auto simp: sq intro: advances_trans\<close>)
    qed
  qed
qed simp

lemma remove_from_locklist_seqid [simp]: "state_seqid (remove_from_locklist c w) = state_seqid w"
  by (simp add: remove_from_locklist_def unlink_owner_def free_lock_entry_def Let_def
      split: option.splits)

lemma free_list_next [simp]:
  "sal_next (free_list es w) = sal_next w" "state_seqid (free_list es w) = state_seqid w"
  by (induction es w rule: free_list.induct) simp_all

lemma subtract_list_spec:
  fixes w :: "'f sal" and u :: bool and owner :: "state_owner option" and st :: u32
  assumes lk: "range_ok lock" and ok: "\<forall>e \<in> set (lock_list w obj). entry_ok sa e"
  defines "h \<equiv> hit u owner sa st lock (state_seqid w)"
  obtains w' fs where
    "subtract_lock_from_list u owner sa st lock obj w
       = Some (STATE_SUCCESS, \<exists>e \<in> set (lock_list w obj). h e, w')"
    "lock_list w' obj = filter (\<lambda>e. \<not> h e) (lock_list w obj) @ concat fs"
    "list_all2 (pieces_of (bytes lock)) (filter h (lock_list w obj)) fs"
    "\<forall>e \<in> set (concat fs). \<exists>c \<in> set (lock_list w obj). fragment w c w' e"
    "sal_next w \<le> sal_next w'" "state_seqid w' = state_seqid w"
proof -
  obtain w1 fs where L: "subtract_loop u owner sa st lock w [] [] [] False (lock_list w obj)
      = Some (STATE_SUCCESS, w1, [] @ filter (\<lambda>e. \<not> h e) (lock_list w obj), [] @ concat fs,
              [] @ filter h (lock_list w obj), False \<or> (\<exists>e \<in> set (lock_list w obj). h e))"
    and fs: "list_all2 (pieces_of (bytes lock)) (filter h (lock_list w obj)) fs"
    and adv: "advances w w1"
    and fr: "\<forall>e \<in> set (concat fs). \<exists>c \<in> set (lock_list w obj). fragment w c w1 e"
    using subtract_loop_spec [OF lk ok, of u owner st w "[]" "[]" "[]" False] unfolding h_def by blast
  let ?w2 = "free_list (filter h (lock_list w obj)) w1"
  show thesis
  proof (rule that)
    show "subtract_lock_from_list u owner sa st lock obj w
      = Some (STATE_SUCCESS, \<exists>e \<in> set (lock_list w obj). h e,
          ?w2\<lparr>lock_list := (lock_list ?w2)
            (obj := filter (\<lambda>e. \<not> h e) (lock_list w obj) @ concat fs)\<rparr>)"
      using L by (simp add: subtract_lock_from_list_def Let_def)
    show "\<forall>e \<in> set (concat fs). \<exists>c \<in> set (lock_list w obj). fragment w c
        (?w2\<lparr>lock_list := (lock_list ?w2)
            (obj := filter (\<lambda>e. \<not> h e) (lock_list w obj) @ concat fs)\<rparr>) e"
      using fr by (simp add: fragment_def)
  qed (use fs adv in \<open>simp_all add: advances_def\<close>)
qed

lemma holds_ex: "holds u xs p t b \<longleftrightarrow> (\<exists>e \<in> set xs. holds u [e] p t b)"
  by (simp add: holds_def)

lemma holds_filter_partition: "holds u (filter (\<lambda>e. \<not> h e) xs) p t b \<or> holds u (filter h xs) p t b
    \<longleftrightarrow> holds u xs p t b"
  by (auto simp: holds_def)

lemma canonical_partition: "canonical u xs \<Longrightarrow> canonical u (filter (\<lambda>e. \<not> h e) xs @ filter h xs)"
  by (rule canonical_perm [THEN iffD1, rotated]) (simp_all add: add.commute)

section \<open>The operations on the bytes\<close>

text \<open>
  C7.  Merging a granted lock that does not reach the end of the file into a list on which its owner
  has no lock to the end of the file, no range wraps around and the granted entries of each owner
  cover disjoint ranges, ends; afterwards every byte of the new lock is held by its owner with the
  type of the new lock and with no other type, while every other byte and every other owner hold
  exactly what they held before, and the granted entries of each owner still cover disjoint ranges.
  Locks to the end of the file are the subject of the theorem merge_to_eof_ignores below.
\<close>

theorem merge_lock_entry_correct:
  assumes "granted lock" "range_ok (sle_lock lock)" "\<not> to_eof (sle_lock lock)"
    "sle_id lock < sal_next w"
    and "\<forall>e \<in> set (lock_list w obj). range_ok (sle_lock e) \<and> sle_id e < sal_next w
           \<and> (\<not> different_owners u (sle_owner e) (sle_owner lock) \<longrightarrow> \<not> to_eof (sle_lock e))"
    and "canonical u (others lock (lock_list w obj))"
  shows "\<exists>lock' w'. merge_lock_entry u obj lock w = Some (lock', w')
    \<and> sle_id lock' = sle_id lock
    \<and> canonical u (lock' # others lock (lock_list w' obj))
    \<and> (\<forall>p t b. holds u (lock' # others lock (lock_list w' obj)) p t b \<longleftrightarrow>
         (if \<not> different_owners u (sle_owner lock) p \<and> b \<in> bytes (sle_lock lock)
          then t = lock_type (sle_lock lock)
          else holds u (others lock (lock_list w obj)) p t b))"
proof -
  have "merge_inv u w lock [] (lock_list w obj)"
    using assms by (simp add: merge_inv_def mergeable_def)
  from merge_lock_entry_semantics [OF this] show ?thesis
    unfolding override_def by metis
qed

theorem merge_lock_entry_correct_witness:
  "\<exists>lock' w'. merge_lock_entry False 5 (sample_entry 9 2 (sample_lock FSAL_LOCK_R 15 10))
      (sample_sal [sample_entry 7 2 (sample_lock FSAL_LOCK_W 10 40),
                   sample_entry 8 3 (sample_lock FSAL_LOCK_R 20 5)]) = Some (lock', w')
    \<and> holds False (lock' # others lock' (lock_list w' 5)) (Some (sample_owner 2)) FSAL_LOCK_R 20
    \<and> holds False (lock' # others lock' (lock_list w' 5)) (Some (sample_owner 2)) FSAL_LOCK_W 30
    \<and> holds False (lock' # others lock' (lock_list w' 5)) (Some (sample_owner 3)) FSAL_LOCK_R 20
    \<and> \<not> holds False (lock' # others lock' (lock_list w' 5)) (Some (sample_owner 2)) FSAL_LOCK_W 20"
proof -
  let ?xs = "[sample_entry 7 2 (sample_lock FSAL_LOCK_W 10 40),
              sample_entry 8 3 (sample_lock FSAL_LOCK_R 20 5)]"
  let ?l = "sample_entry 9 2 (sample_lock FSAL_LOCK_R 15 10)"
  have "canonical False (others ?l (lock_list (sample_sal ?xs) 5))"
    by (simp add: others_def canonical_def apart_def)
  then obtain lock' w' where
    m: "merge_lock_entry False 5 ?l (sample_sal ?xs) = Some (lock', w')" "sle_id lock' = sle_id ?l"
      "\<And>p t b. holds False (lock' # others ?l (lock_list w' 5)) p t b \<longleftrightarrow>
         (if \<not> different_owners False (sle_owner ?l) p \<and> b \<in> bytes (sle_lock ?l)
          then t = lock_type (sle_lock ?l) else holds False (others ?l ?xs) p t b)"
    using merge_lock_entry_correct [of ?l "sample_sal ?xs" 5 False]
    by (auto simp: granted_def range_ok_def)
  have oth: "others lock' = others ?l" by (rule others_cong) (rule m(2))
  show ?thesis
    by (rule exI [of _ lock'], rule exI [of _ w'])
      (simp add: m(1) oth m(3) mem_bytes, simp add: others_def holds_def granted_def mem_bytes)
qed

text \<open>
  C8.  Subtracting a range from the list of a file succeeds.  It takes exactly the bytes of the
  range away from exactly the granted locks it applies to: those of the given owner (of every
  owner when none is given) whose state is not the protected one.  It reports a removal exactly
  when one of these locks overlapped the range, and the list stays canonical.
\<close>

theorem subtract_lock_from_list_correct:
  assumes "range_ok lock" and "\<forall>e \<in> set (lock_list w obj). entry_ok sa e"
    and "canonical u (lock_list w obj)"
  shows "\<exists>w'. subtract_lock_from_list u owner sa st lock obj w
      = Some (STATE_SUCCESS,
              \<exists>e \<in> set (lock_list w obj). matches u owner sa st (state_seqid w) e
                 \<and> bytes (sle_lock e) \<inter> bytes lock \<noteq> {}, w')
    \<and> canonical u (lock_list w' obj)
    \<and> (\<forall>p t b. holds u (lock_list w' obj) p t b \<longleftrightarrow>
         (\<exists>e \<in> set (lock_list w obj). holds u [e] p t b
            \<and> \<not> (matches u owner sa st (state_seqid w) e \<and> b \<in> bytes lock)))"
proof -
  define h where "h = hit u owner sa st lock (state_seqid w)"
  obtain w' fs where S: "subtract_lock_from_list u owner sa st lock obj w
      = Some (STATE_SUCCESS, \<exists>e \<in> set (lock_list w obj). h e, w')"
    "lock_list w' obj = filter (\<lambda>e. \<not> h e) (lock_list w obj) @ concat fs"
    "list_all2 (pieces_of (bytes lock)) (filter h (lock_list w obj)) fs"
    unfolding h_def by (rule subtract_list_spec [OF assms(1,2), of u owner st])
  have can: "canonical u (lock_list w' obj)"
    unfolding S(2) by (rule canonical_replace_all [OF canonical_partition [OF assms(3)] S(3)])
  have eq: "h e \<longleftrightarrow> matches u owner sa st (state_seqid w) e"
    if "holds u [e] p t b" "b \<in> bytes lock" for e p t b
    using that by (auto simp: holds_Cons h_def)
  have "holds u (lock_list w' obj) p t b \<longleftrightarrow>
      (\<exists>e \<in> set (lock_list w obj). holds u [e] p t b
         \<and> \<not> (matches u owner sa st (state_seqid w) e \<and> b \<in> bytes lock))" for p t b
    unfolding S(2) holds_append holds_replace_all [OF S(3)]
      holds_ex [of u "filter _ _"] set_filter mem_Collect_eq bex_simps
    using eq by blast
  with S(1) can show ?thesis
    unfolding h_def by (intro exI [of _ w'] conjI allI)
qed

theorem subtract_lock_from_list_correct_witness:
  "\<exists>w'. subtract_lock_from_list False (Some (sample_owner 2)) False 0
      (sample_lock FSAL_LOCK_R 20 10) 5
      (sample_sal [sample_entry 7 2 (sample_lock FSAL_LOCK_W 10 0),
                   sample_entry 8 3 (sample_lock FSAL_LOCK_R 0 5)]) = Some (STATE_SUCCESS, True, w')
    \<and> holds False (lock_list w' 5) (Some (sample_owner 2)) FSAL_LOCK_W 19
    \<and> \<not> holds False (lock_list w' 5) (Some (sample_owner 2)) FSAL_LOCK_W 20
    \<and> \<not> holds False (lock_list w' 5) (Some (sample_owner 2)) FSAL_LOCK_W 29
    \<and> holds False (lock_list w' 5) (Some (sample_owner 2)) FSAL_LOCK_W UINT64_MAX
    \<and> holds False (lock_list w' 5) (Some (sample_owner 3)) FSAL_LOCK_R 4"
proof -
  let ?xs = "[sample_entry 7 2 (sample_lock FSAL_LOCK_W 10 0),
              sample_entry 8 3 (sample_lock FSAL_LOCK_R 0 5)]"
  let ?l = "sample_lock FSAL_LOCK_R 20 10"
  let ?o = "Some (sample_owner 2)"
  have can: "canonical False (lock_list (sample_sal ?xs) 5)"
    by (simp add: canonical_def apart_def)
  have ov: "bytes (sle_lock (sample_entry 7 2 (sample_lock FSAL_LOCK_W 10 0))) \<inter> bytes ?l \<noteq> {}"
    by (subst bytes_overlap_iff) (simp_all add: range_ok_def)
  have "\<exists>e \<in> set (lock_list (sample_sal ?xs) 5). matches False ?o False 0 (state_seqid (sample_sal ?xs)) e
                 \<and> bytes (sle_lock e) \<inter> bytes ?l \<noteq> {}"
    by (rule bexI [of _ "sample_entry 7 2 (sample_lock FSAL_LOCK_W 10 0)"])
      (use ov in \<open>simp_all add: matches_def granted_def\<close>)
  then obtain w' where
    m: "subtract_lock_from_list False ?o False 0 ?l 5 (sample_sal ?xs) = Some (STATE_SUCCESS, True, w')"
      "\<And>p t b. holds False (lock_list w' 5) p t b \<longleftrightarrow>
         (\<exists>e \<in> set ?xs. holds False [e] p t b
            \<and> \<not> (matches False ?o False 0 (state_seqid (sample_sal ?xs)) e \<and> b \<in> bytes ?l))"
    using subtract_lock_from_list_correct [of ?l "sample_sal ?xs" 5 False False ?o 0] can
    by (auto simp: entry_ok_def range_ok_def)
  show ?thesis
    by (rule exI [of _ w']) (simp add: m, simp add: holds_def matches_def granted_def mem_bytes not_le word_less_max_iff)
qed

text \<open>
  C13.  The merge loop ends on every lock list, canonical or not, when the range of the lock being
  merged does not wrap around.
\<close>

theorem merge_lock_entry_terminates:
  "range_ok (sle_lock lock) \<Longrightarrow> \<exists>lock' w'. merge_lock_entry u obj lock w = Some (lock', w')"
  using merge_loop_total [of lock u w "[]" "lock_list w obj"]
  by (auto simp: merge_lock_entry_def)

theorem merge_lock_entry_terminates_witness:
  "\<exists>lock' w'. merge_lock_entry False 5 (sample_entry 9 2 (sample_lock FSAL_LOCK_R 15 10))
      (sample_sal [sample_entry 7 2 (sample_lock FSAL_LOCK_W 10 40),
                   sample_entry 8 2 (sample_lock FSAL_LOCK_W 12 30)]) = Some (lock', w')"
  by (rule merge_lock_entry_terminates) (simp add: range_ok_def)

text \<open>
  C14.  A lock to the end of the file that is not itself on the list is merged with nothing when every
  listed lock starts after the first byte: the end of its range plus one wraps around to zero, and
  the test for locks that lie further right succeeds.  The locks of its owner stay as they are,
  whatever their type and however they overlap it.
\<close>

theorem merge_to_eof_ignores:
  assumes "to_eof (sle_lock lock)" and "\<forall>e \<in> set (lock_list w obj). 0 < lock_start (sle_lock e)"
    and "\<forall>e \<in> set (lock_list w obj). sle_id e \<noteq> sle_id lock"
  shows "merge_lock_entry u obj lock w = Some (lock, w)"
proof -
  have step: "merge_step u lock c = Keep c" if "0 < lock_start (sle_lock c)" for c
    using that assms(1)
    by (cases "mergeable u lock c") (simp_all add: merge_step_mergeable merge_step_not_mergeable)
  have "merge_loop u w lock dn pend = Some (w, lock, dn @ pend)"
    if "\<forall>e \<in> set pend. 0 < lock_start (sle_lock e)" for dn pend
    using that
  proof (induction pend arbitrary: dn)
    case Nil
    show ?case by (subst merge_loop.simps) simp
  next
    case (Cons c pend)
    then show ?case by (subst merge_loop.simps) (simp add: step)
  qed
  moreover have "map (\<lambda>x. if sle_id x = sle_id lock then lock else x) (lock_list w obj) = lock_list w obj"
    using assms(3) by (simp add: map_idI)
  ultimately show ?thesis
    using assms(2) by (simp add: merge_lock_entry_def)
qed

theorem merge_to_eof_ignores_witness:
  "merge_lock_entry False 5 (sample_entry 9 2 (sample_lock FSAL_LOCK_R 0 0))
     (sample_sal [sample_entry 7 2 (sample_lock FSAL_LOCK_W 10 11)])
   = Some (sample_entry 9 2 (sample_lock FSAL_LOCK_R 0 0),
           sample_sal [sample_entry 7 2 (sample_lock FSAL_LOCK_W 10 11)])"
  by (rule merge_to_eof_ignores) simp_all

end
