(* ===== verification/EntryRefs.thy ===== *)
theory EntryRefs
  imports BlockedLocks LockSemantics
begin

text \<open>
  The ownership discipline of lock entries: which entries are allocated, and that the reference
  count of an entry is exactly the number of its holders, namely the lock list of its file, the
  grant cookies in the table that name it, and the callers that hold it temporarily.  The
  primitives of the lock manager keep this invariant, and under it none of them reaches a NULL or
  dangling pointer.
\<close>

section \<open>The invariant\<close>

definition replace_entry :: "sle \<Rightarrow> sle list \<Rightarrow> sle list" where
  "replace_entry e xs = map (\<lambda>x. if sle_id x = sle_id e then e else x) xs"

definition cookies_of :: "'f sal \<Rightarrow> ptr \<Rightarrow> u8 list set" where
  "cookies_of w i = {k. \<exists>c. ht_lock_cookies w k = Some c \<and> sce_lock_entry c = i}"

definition ent_ok :: "'f sal \<Rightarrow> sle \<Rightarrow> bool" where
  "ent_ok w e \<longleftrightarrow>
     sle_file w (sle_id e) = sle_obj e \<and> sle_id e < sal_next w \<and> range_ok (sle_lock e)"

definition entries_ok :: "'f sal \<Rightarrow> bool" where
  "entries_ok w \<longleftrightarrow>
     (\<forall>obj. distinct (map sle_id (lock_list w obj @ detached w)))
     \<and> (\<forall>obj. \<forall>e \<in> set (lock_list w obj). sle_obj e = obj \<and> ent_ok w e \<and> sle_owner e \<noteq> None)
     \<and> (\<forall>e \<in> set (detached w). ent_ok w e \<and> sle_owner e = None)"

text \<open>
  The references of temporary holders are given by \<open>x\<close>.  Apart from the list, an entry has at most one
  holder.  An entry that still waits for its lock has none, and belongs to an NLM client.
\<close>

definition waiting :: "sle \<Rightarrow> bool" where
  "waiting e \<longleftrightarrow> sle_blocked e = STATE_NLM_BLOCKING \<or> sle_blocked e = STATE_NFSV4_BLOCKING"

definition nlm_owned :: "sle \<Rightarrow> bool" where
  "nlm_owned e \<longleftrightarrow> (\<exists>owner. sle_owner e = Some owner \<and> is_STATE_LOCK_OWNER_NLM (so_owner owner))"

definition at_rest :: "(ptr \<Rightarrow> nat) \<Rightarrow> 'f sal \<Rightarrow> sle \<Rightarrow> bool" where
  "at_rest x w e \<longleftrightarrow>
     card (cookies_of w (sle_id e)) + x (sle_id e) \<le> 1
     \<and> (waiting e \<longrightarrow> cookies_of w (sle_id e) = {} \<and> x (sle_id e) = 0 \<and> nlm_owned e)"

definition refs_ok :: "(ptr \<Rightarrow> nat) \<Rightarrow> 'f sal \<Rightarrow> bool" where
  "refs_ok x w \<longleftrightarrow>
     (\<forall>obj. \<forall>e \<in> set (lock_list w obj).
        sle_ref_count e = 1 + int (card (cookies_of w (sle_id e))) + int (x (sle_id e))
        \<and> at_rest x w e)
     \<and> (\<forall>e \<in> set (detached w).
        sle_ref_count e = int (card (cookies_of w (sle_id e))) + int (x (sle_id e))
        \<and> sle_ref_count e = 1)"

definition cookies_ok :: "(ptr \<Rightarrow> nat) \<Rightarrow> 'f sal \<Rightarrow> bool" where
  "cookies_ok x w \<longleftrightarrow>
     finite (dom (ht_lock_cookies w))
     \<and> (\<forall>k c. ht_lock_cookies w k = Some c
          \<longrightarrow> sce_obj c = sle_file w (sce_lock_entry c) \<and> entry_at (sce_lock_entry c) w \<noteq> None)
     \<and> (\<forall>i. x i \<noteq> 0 \<longrightarrow> entry_at i w \<noteq> None)"

definition refs_inv :: "(ptr \<Rightarrow> nat) \<Rightarrow> 'f sal \<Rightarrow> bool" where
  "refs_inv x w \<longleftrightarrow> entries_ok w \<and> refs_ok x w \<and> cookies_ok x w"

lemma at_rest_cookies: "(\<And>i. cookies_of w' i = cookies_of w i) \<Longrightarrow> at_rest x w' = at_rest x w"
  by (simp add: at_rest_def fun_eq_iff)

lemma at_rest_sel [simp]:
  "at_rest x w (e\<lparr>sle_ref_count := n\<rparr>) = at_rest x w e" "at_rest x w (e\<lparr>sle_block_data := b\<rparr>) = at_rest x w e"
  "at_rest x w (e\<lparr>sle_lock := k\<rparr>) = at_rest x w e"
  by (simp_all add: at_rest_def waiting_def nlm_owned_def)

lemma at_rest_same:
  "sle_id d = sle_id e \<Longrightarrow> sle_owner d = sle_owner e \<Longrightarrow> sle_blocked d = sle_blocked e
     \<Longrightarrow> at_rest x w d = at_rest x w e"
  by (simp add: at_rest_def waiting_def nlm_owned_def)

text \<open>An entry that does not wait, with as many holders as before.\<close>

lemma at_rest_active:
  "at_rest x w e \<Longrightarrow> sle_id d = sle_id e \<Longrightarrow> \<not> waiting d \<Longrightarrow> at_rest x w d"
  by (simp add: at_rest_def)

text \<open>The part of the state the invariant speaks about.\<close>

definition core :: "'f sal \<Rightarrow> ptr \<times> (ptr \<Rightarrow> ptr) \<times> (ptr \<Rightarrow> sle list) \<times> sle list
    \<times> (u8 list \<rightharpoonup> state_cookie_entry) \<times> (ptr \<Rightarrow> u32)" where
  "core w = (sal_next w, sle_file w, lock_list w, detached w, ht_lock_cookies w, state_seqid w)"

lemma entry_at_core: "core w = core w' \<Longrightarrow> entry_at i w = entry_at i w'"
  by (simp add: core_def entry_at_def find_entry_def)

lemma refs_inv_core: "core w = core w' \<Longrightarrow> refs_inv x w = refs_inv x w'"
  by (frule entry_at_core)
    (simp add: core_def refs_inv_def entries_ok_def refs_ok_def cookies_ok_def cookies_of_def
      at_rest_def ent_ok_def entry_at_def find_entry_def)

section \<open>Finding entries\<close>

lemma find_unique:
  "distinct (map sle_id xs) \<Longrightarrow> e \<in> set xs \<Longrightarrow> List.find (\<lambda>x. sle_id x = sle_id e) xs = Some e"
  by (induction xs) (auto simp: image_iff)

lemma find_SomeD: "List.find P xs = Some x \<Longrightarrow> x \<in> set xs \<and> P x"
  by (induction xs) (auto split: if_splits)

lemma find_entry_list:
  "refs_inv x w \<Longrightarrow> e \<in> set (lock_list w obj) \<Longrightarrow> find_entry obj (sle_id e) w = Some e"
  unfolding refs_inv_def entries_ok_def find_entry_def by (intro find_unique) auto

lemma list_find_entry:
  assumes "refs_inv x w" and "e \<in> set (lock_list w obj)"
  shows "List.find (\<lambda>x. sle_id x = sle_id e) (lock_list w obj) = Some e"
  using assms unfolding refs_inv_def entries_ok_def by (intro find_unique) auto

lemma find_entry_detached:
  "refs_inv x w \<Longrightarrow> e \<in> set (detached w) \<Longrightarrow> find_entry obj (sle_id e) w = Some e"
  unfolding refs_inv_def entries_ok_def find_entry_def by (intro find_unique) auto

lemma list_entry:
  assumes "refs_inv x w" and "e \<in> set (lock_list w obj)"
  shows "sle_obj e = obj" "sle_file w (sle_id e) = obj" "sle_id e < sal_next w"
    "range_ok (sle_lock e)" "sle_owner e \<noteq> None"
    "sle_ref_count e = 1 + int (card (cookies_of w (sle_id e))) + int (x (sle_id e))"
    "entry_at (sle_id e) w = Some e" "sle_id e \<notin> sle_id ` set (detached w)"
    "waiting e \<Longrightarrow> cookies_of w (sle_id e) = {}" "at_rest x w e"
    "waiting e \<Longrightarrow> x (sle_id e) = 0" "waiting e \<Longrightarrow> nlm_owned e"
proof -
  show "sle_obj e = obj" "sle_file w (sle_id e) = obj" "sle_id e < sal_next w"
    "range_ok (sle_lock e)" "sle_owner e \<noteq> None"
    "sle_ref_count e = 1 + int (card (cookies_of w (sle_id e))) + int (x (sle_id e))"
    "sle_id e \<notin> sle_id ` set (detached w)" "at_rest x w e"
    using assms by (auto simp: refs_inv_def entries_ok_def ent_ok_def refs_ok_def)
  then show "waiting e \<Longrightarrow> cookies_of w (sle_id e) = {}" "waiting e \<Longrightarrow> x (sle_id e) = 0"
    "waiting e \<Longrightarrow> nlm_owned e"
    by (simp_all add: at_rest_def)
  show "entry_at (sle_id e) w = Some e"
    using find_entry_list [OF assms] \<open>sle_file w (sle_id e) = obj\<close> by (simp add: entry_at_def)
qed

lemma detached_entry:
  assumes "refs_inv x w" and "e \<in> set (detached w)"
  shows "sle_file w (sle_id e) = sle_obj e" "sle_id e < sal_next w" "range_ok (sle_lock e)"
    "sle_ref_count e = int (card (cookies_of w (sle_id e))) + int (x (sle_id e))"
    "sle_ref_count e = 1" "entry_at (sle_id e) w = Some e"
    "sle_id e \<notin> sle_id ` set (lock_list w obj)" "sle_owner e = None"
proof -
  show "sle_file w (sle_id e) = sle_obj e" "sle_id e < sal_next w" "range_ok (sle_lock e)"
    "sle_ref_count e = int (card (cookies_of w (sle_id e))) + int (x (sle_id e))"
    "sle_ref_count e = 1" "sle_id e \<notin> sle_id ` set (lock_list w obj)" "sle_owner e = None"
    using assms by (auto simp: refs_inv_def entries_ok_def ent_ok_def refs_ok_def)
  show "entry_at (sle_id e) w = Some e"
    using find_entry_detached [OF assms] by (simp add: entry_at_def)
qed

lemma entry_at_cases:
  assumes "refs_inv x w" and "entry_at i w = Some e"
  obtains (list) "sle_id e = i" "e \<in> set (lock_list w (sle_file w i))"
  | (detached) "sle_id e = i" "e \<in> set (detached w)"
  using assms(2) by (auto simp: entry_at_def find_entry_def dest!: find_SomeD)

lemma entry_at_iff:
  "refs_inv x w \<Longrightarrow>
     entry_at i w \<noteq> None \<longleftrightarrow> i \<in> sle_id ` (set (lock_list w (sle_file w i)) \<union> set (detached w))"
  by (auto simp: entry_at_def find_entry_def find_None_iff)

lemma cookies_of_finite: "refs_inv x w \<Longrightarrow> finite (cookies_of w i)"
  by (rule finite_subset [of _ "dom (ht_lock_cookies w)"])
    (auto simp: refs_inv_def cookies_ok_def cookies_of_def)

lemma replace_entry_ids [simp]: "map sle_id (replace_entry e xs) = map sle_id xs"
  by (induction xs) (auto simp: replace_entry_def)

lemma set_replace_entry:
  "e \<in> set xs \<Longrightarrow> sle_id e' = sle_id e \<Longrightarrow> set (replace_entry e' xs) = insert e' {y \<in> set xs. sle_id y \<noteq> sle_id e}"
  by (auto simp: replace_entry_def)

section \<open>Writing an entry back\<close>

lemma put_entry_list:
  assumes "refs_inv x w" and "e \<in> set (lock_list w obj)" and "sle_id e' = sle_id e" "sle_obj e' = obj"
  shows "core (put_entry e' w) = (sal_next w, sle_file w,
           (lock_list w)(obj := replace_entry e' (lock_list w obj)), detached w, ht_lock_cookies w,
           state_seqid w)"
proof -
  have "map (\<lambda>x. if sle_id x = sle_id e' then e' else x) (detached w) = detached w"
    using list_entry(8) [OF assms(1,2)] assms(3) by (intro map_idI) (auto simp: image_iff)
  with assms(3,4) show ?thesis by (simp add: core_def put_entry_def replace_entry_def)
qed

lemma put_entry_detached:
  assumes "refs_inv x w" and "e \<in> set (detached w)" and "sle_id e' = sle_id e"
  shows "core (put_entry e' w) = (sal_next w, sle_file w, lock_list w,
           replace_entry e' (detached w), ht_lock_cookies w, state_seqid w)"
proof -
  have "map (\<lambda>x. if sle_id x = sle_id e' then e' else x) (lock_list w obj) = lock_list w obj" for obj
    using detached_entry(7) [OF assms(1,2), of obj] assms(3) by (intro map_idI) (auto simp: image_iff)
  with assms(3) show ?thesis by (simp add: core_def put_entry_def replace_entry_def)
qed

text \<open>
  The generic step: the lists hold the same entries by identity, and one entry \<open>e'\<close> has changed.
\<close>

lemma refs_inv_update:
  assumes inv: "refs_inv x w"
    and same: "sal_next w' = sal_next w" "sle_file w' = sle_file w"
      "ht_lock_cookies w' = ht_lock_cookies w"
      "\<And>ob. map sle_id (lock_list w' ob) = map sle_id (lock_list w ob)"
      "map sle_id (detached w') = map sle_id (detached w)"
    and lists: "\<And>ob y. y \<in> set (lock_list w' ob) \<Longrightarrow> y = e' \<or> y \<in> set (lock_list w ob) \<and> sle_id y \<noteq> sle_id e'"
    and det: "\<And>y. y \<in> set (detached w') \<Longrightarrow> y = e' \<or> y \<in> set (detached w) \<and> sle_id y \<noteq> sle_id e'"
    and x': "\<And>i. i \<noteq> sle_id e' \<Longrightarrow> x' i = x i" "x' (sle_id e') \<noteq> 0 \<Longrightarrow> entry_at (sle_id e') w \<noteq> None"
    and e': "ent_ok w e'"
      "\<And>ob. e' \<in> set (lock_list w' ob) \<Longrightarrow> sle_obj e' = ob \<and> sle_owner e' \<noteq> None
         \<and> sle_ref_count e' = 1 + int (card (cookies_of w (sle_id e'))) + int (x' (sle_id e'))
         \<and> at_rest x' w e'"
      "e' \<in> set (detached w') \<Longrightarrow> sle_ref_count e' = 1 \<and> sle_owner e' = None
         \<and> sle_ref_count e' = int (card (cookies_of w (sle_id e'))) + int (x' (sle_id e'))"
  shows "refs_inv x' w'"
proof -
  have ok: "ent_ok w' e = ent_ok w e" for e by (simp add: ent_ok_def same)
  have ck: "cookies_of w' i = cookies_of w i" for i by (simp add: cookies_of_def same)
  have ar: "at_rest x' w' = at_rest x' w" by (rule at_rest_cookies [OF ck])
  have arx: "at_rest x' w e = at_rest x w e" if "sle_id e \<noteq> sle_id e'" for e
    using x'(1) [OF that] by (simp add: at_rest_def)
  have at: "entry_at i w' \<noteq> None \<longleftrightarrow> entry_at i w \<noteq> None" for i
  proof -
    have "sle_id ` set (lock_list w' ob) = sle_id ` set (lock_list w ob)" for ob
      using same(4) [of ob] by (metis set_map)
    moreover have "sle_id ` set (detached w') = sle_id ` set (detached w)"
      using same(5) by (metis set_map)
    ultimately show ?thesis
      by (auto simp: entry_at_def find_entry_def find_None_iff same image_iff) (metis imageE image_eqI)+
  qed
  have "entries_ok w'"
    unfolding entries_ok_def map_append same
  proof (intro conjI allI ballI)
    show "distinct (map sle_id (lock_list w obj) @ map sle_id (detached w))" for obj
      using inv by (auto simp: refs_inv_def entries_ok_def)
    fix obj e assume e: "e \<in> set (lock_list w' obj)"
    show "sle_obj e = obj" "ent_ok w' e" "sle_owner e \<noteq> None"
      using lists [OF e] e'(1) e'(2) [of obj] e inv unfolding ok
      by (auto simp: refs_inv_def entries_ok_def)
  next
    fix e assume e: "e \<in> set (detached w')"
    show "ent_ok w' e" "sle_owner e = None"
      using det [OF e] e'(1) e'(3) e inv unfolding ok by (auto simp: refs_inv_def entries_ok_def)
  qed
  moreover have "refs_ok x' w'"
    unfolding refs_ok_def ck
  proof (intro conjI allI ballI)
    fix obj e assume e: "e \<in> set (lock_list w' obj)"
    show "sle_ref_count e = 1 + int (card (cookies_of w (sle_id e))) + int (x' (sle_id e))"
      "at_rest x' w' e"
      using lists [OF e] e'(2) [of obj] e x'(1) arx [of e] list_entry(6,10) [OF inv, of e obj]
      unfolding ar by auto
  next
    fix e assume e: "e \<in> set (detached w')"
    show "sle_ref_count e = int (card (cookies_of w (sle_id e))) + int (x' (sle_id e))"
      "sle_ref_count e = 1"
      using det [OF e] e'(3) e x'(1) inv by (auto simp: refs_inv_def refs_ok_def)
  qed
  moreover have "cookies_ok x' w'"
    using inv x' unfolding refs_inv_def cookies_ok_def same at by metis
  ultimately show ?thesis by (simp add: refs_inv_def)
qed

lemma core_sel:
  assumes "core w' = (n, f, l, d, h, s)"
  shows "sal_next w' = n" "sle_file w' = f" "lock_list w' = l" "detached w' = d"
    "ht_lock_cookies w' = h" "state_seqid w' = s"
  using assms by (simp_all add: core_def)

lemma put_list_inv:
  assumes inv: "refs_inv x w" and e: "e \<in> set (lock_list w obj)"
    and e': "sle_id e' = sle_id e" "sle_obj e' = obj" "sle_owner e' \<noteq> None" "range_ok (sle_lock e')"
    and r: "sle_ref_count e' = sle_ref_count e + int (x' (sle_id e)) - int (x (sle_id e))"
    and x': "\<And>i. i \<noteq> sle_id e \<Longrightarrow> x' i = x i"
    and wt: "at_rest x' w e'"
  shows "refs_inv x' (put_entry e' w)"
proof -
  note C = core_sel [OF put_entry_list [OF inv e e'(1,2)]] and E = list_entry [OF inv e]
  have other: "e' \<notin> set (lock_list w ob)" if "ob \<noteq> obj" for ob
    using list_entry(1) [OF inv] that e'(2) by blast
  have ne: "sle_id y \<noteq> sle_id e" if "y \<in> set (lock_list w ob)" "ob \<noteq> obj" for y ob
    using list_entry(2) [OF inv that(1)] E(2) that(2) by metis
  have nd: "e' \<notin> set (detached w)" "\<And>y. y \<in> set (detached w) \<Longrightarrow> sle_id y \<noteq> sle_id e"
    using E(8) e'(1) by (metis image_eqI)+
  show ?thesis
  proof (rule refs_inv_update [OF inv, where e' = e'])
    show "ent_ok w e'" using E e' by (simp add: ent_ok_def)
    show "map sle_id (lock_list (put_entry e' w) ob) = map sle_id (lock_list w ob)" for ob
      by (simp add: C)
    show "y = e' \<or> y \<in> set (lock_list w ob) \<and> sle_id y \<noteq> sle_id e'"
      if "y \<in> set (lock_list (put_entry e' w) ob)" for ob y
      using that ne [of y ob] by (cases "ob = obj") (auto simp: C e'(1) set_replace_entry [OF e])
    show "sle_obj e' = ob \<and> sle_owner e' \<noteq> None
         \<and> sle_ref_count e' = 1 + int (card (cookies_of w (sle_id e'))) + int (x' (sle_id e'))
         \<and> at_rest x' w e'"
      if "e' \<in> set (lock_list (put_entry e' w) ob)" for ob
      using that other [of ob] E r e' wt by (cases "ob = obj") (simp_all add: C)
  qed (use C nd x' e' E in auto)
qed

lemma put_detached_inv:
  assumes inv: "refs_inv x w" and e: "e \<in> set (detached w)"
    and e': "sle_id e' = sle_id e" "sle_obj e' = sle_obj e" "range_ok (sle_lock e')" "sle_owner e' = None"
    and r: "sle_ref_count e' = sle_ref_count e + int (x' (sle_id e)) - int (x (sle_id e))"
      "sle_ref_count e' = 1"
    and x': "\<And>i. i \<noteq> sle_id e \<Longrightarrow> x' i = x i"
  shows "refs_inv x' (put_entry e' w)"
proof -
  note C = core_sel [OF put_entry_detached [OF inv e e'(1)]] and E = detached_entry [OF inv e]
  have ne: "e' \<notin> set (lock_list w ob)" "\<And>y. y \<in> set (lock_list w ob) \<Longrightarrow> sle_id y \<noteq> sle_id e" for ob
    using E(7) [of ob] e'(1) by (metis image_eqI)+
  show ?thesis
  proof (rule refs_inv_update [OF inv, where e' = e'])
    show "ent_ok w e'" using E e' by (simp add: ent_ok_def)
    show "y = e' \<or> y \<in> set (detached w) \<and> sle_id y \<noteq> sle_id e'"
      if "y \<in> set (detached (put_entry e' w))" for y
      using that by (auto simp: C e'(1) set_replace_entry [OF e])
  qed (use C ne x' e' E r in auto)
qed

section \<open>The cookie table\<close>

lemma refs_inv_take_cookie:
  assumes inv: "refs_inv x w" and c: "ht_lock_cookies w k = Some c"
  defines "i \<equiv> sce_lock_entry c"
  shows "refs_inv (x(i := Suc (x i))) (w\<lparr>ht_lock_cookies := (ht_lock_cookies w)(k := None)\<rparr>)"
proof -
  let ?w = "w\<lparr>ht_lock_cookies := (ht_lock_cookies w)(k := None)\<rparr>"
  have at: "entry_at j ?w = entry_at j w" for j by (simp add: entry_at_def find_entry_def)
  have ck: "cookies_of ?w j = cookies_of w j - {k}" for j
    by (auto simp: cookies_of_def)
  have k: "k \<in> cookies_of w i" "j \<noteq> i \<Longrightarrow> k \<notin> cookies_of w j" for j
    using c by (auto simp: cookies_of_def i_def)
  have card: "card (cookies_of w i) = Suc (card (cookies_of ?w i))"
    unfolding ck using k(1) by (intro card.remove cookies_of_finite [OF inv])
  have other: "j \<noteq> i \<Longrightarrow> cookies_of ?w j = cookies_of w j" for j
    unfolding ck using k(2) by blast
  have eq: "card (cookies_of ?w j) + (x(i := Suc (x i))) j = card (cookies_of w j) + x j" for j
    using card other by (cases "j = i") simp_all
  have "refs_ok (x(i := Suc (x i))) ?w"
  proof -
    have sum: "int (card (cookies_of ?w j)) + int ((x(i := Suc (x i))) j)
      = int (card (cookies_of w j)) + int (x j)" for j
      using eq [of j] by (metis of_nat_add)
    show ?thesis
      unfolding refs_ok_def
    proof (intro conjI allI ballI)
      show "sle_ref_count e = 1 + int (card (cookies_of ?w (sle_id e))) + int ((x(i := Suc (x i))) (sle_id e))"
        "at_rest (x(i := Suc (x i))) ?w e"
        if "e \<in> set (lock_list ?w ob)" for e ob
      proof -
        note E = list_entry [OF inv, of e ob]
        show "sle_ref_count e = 1 + int (card (cookies_of ?w (sle_id e))) + int ((x(i := Suc (x i))) (sle_id e))"
          using E(6) that sum [of "sle_id e"] by simp
        have "sle_id e \<noteq> i" if "waiting e" using E(9) that k(1) \<open>e \<in> _\<close> by auto
        then show "at_rest (x(i := Suc (x i))) ?w e"
          using E(10) that eq [of "sle_id e"] unfolding at_rest_def by (simp add: ck)
      qed
      show "sle_ref_count e = int (card (cookies_of ?w (sle_id e))) + int ((x(i := Suc (x i))) (sle_id e))"
        "sle_ref_count e = 1" if "e \<in> set (detached ?w)" for e
        using detached_entry(4,5) [OF inv, of e] that sum [of "sle_id e"] by simp_all
    qed
  qed
  moreover have "entry_at i w \<noteq> None"
    using inv c by (auto simp: refs_inv_def cookies_ok_def i_def)
  ultimately show ?thesis
    using inv unfolding refs_inv_def cookies_ok_def at
    by (auto simp: entries_ok_def ent_ok_def)
qed

lemma refs_inv_add_cookie:
  assumes inv: "refs_inv (x(i := Suc (x i))) w" and k: "ht_lock_cookies w k = None"
    and c: "sce_lock_entry c = i" "sce_obj c = sle_file w i"
    and n: "\<And>ob e. e \<in> set (lock_list w ob) \<Longrightarrow> sle_id e = i \<Longrightarrow> \<not> waiting e"
  shows "refs_inv x (w\<lparr>ht_lock_cookies := (ht_lock_cookies w)(k \<mapsto> c)\<rparr>)"
proof -
  let ?w = "w\<lparr>ht_lock_cookies := (ht_lock_cookies w)(k \<mapsto> c)\<rparr>"
  have at: "entry_at j ?w = entry_at j w" for j by (simp add: entry_at_def find_entry_def)
  have ck: "cookies_of ?w i = insert k (cookies_of w i)" "k \<notin> cookies_of w i"
    "j \<noteq> i \<Longrightarrow> cookies_of ?w j = cookies_of w j" for j
    using k c by (auto simp: cookies_of_def)
  then have "card (cookies_of ?w i) = Suc (card (cookies_of w i))"
    using cookies_of_finite [OF inv] by simp
  with ck have eq: "card (cookies_of ?w j) + x j = card (cookies_of w j) + (x(i := Suc (x i))) j" for j
    by (cases "j = i") simp_all
  then have sum: "int (card (cookies_of ?w j)) + int (x j)
      = int (card (cookies_of w j)) + int ((x(i := Suc (x i))) j)" for j
    by (metis of_nat_add)
  have "refs_ok x ?w"
    unfolding refs_ok_def
  proof (intro conjI allI ballI)
    fix ob e assume e: "e \<in> set (lock_list ?w ob)"
    then have e': "e \<in> set (lock_list w ob)" by simp
    note E = list_entry [OF inv e']
    show "sle_ref_count e = 1 + int (card (cookies_of ?w (sle_id e))) + int (x (sle_id e))"
      using E(6) sum [of "sle_id e"] by simp
    have "sle_id e \<noteq> i" if "waiting e" using n [OF e'] that by blast
    then show "at_rest x ?w e"
      using E(10) eq [of "sle_id e"] ck(3) [of "sle_id e"] unfolding at_rest_def by auto
  next
    fix e assume "e \<in> set (detached ?w)"
    then have e': "e \<in> set (detached w)" by simp
    show "sle_ref_count e = int (card (cookies_of ?w (sle_id e))) + int (x (sle_id e))" "sle_ref_count e = 1"
      using detached_entry(4,5) [OF inv e'] sum [of "sle_id e"] by simp_all
  qed
  moreover have "entry_at i w \<noteq> None"
    using inv by (auto simp: refs_inv_def cookies_ok_def)
  ultimately show ?thesis
    using inv c unfolding refs_inv_def cookies_ok_def at
    by (auto simp: entries_ok_def ent_ok_def split: if_splits)
qed

section \<open>Removing and adding entries\<close>

lemma remove_core:
  assumes inv: "refs_inv x w" and e: "e \<in> set (lock_list w obj)"
  shows "core (remove_from_locklist e w) = (sal_next w, sle_file w,
           (lock_list w)(obj := others e (lock_list w obj)),
           (if sle_ref_count e = 1 then detached w
            else e\<lparr>sle_owner := None, sle_ref_count := sle_ref_count e - 1\<rparr> # detached w),
           ht_lock_cookies w, state_seqid w)"
proof -
  note E = list_entry [OF inv e]
  have d: "filter (\<lambda>y. sle_id y \<noteq> sle_id e) (detached w) = detached w"
    using E(8) by (auto simp: filter_id_conv image_iff)
  obtain owner where owner: "sle_owner e = Some owner" using E(5) by auto
  show ?thesis
    by (cases "sle_state e")
      (simp_all add: core_def remove_from_locklist_def unlink_owner_def free_lock_entry_def Let_def
        owner E(1) others_def d)
qed

lemma in_others: "y \<in> set (others e xs) \<longleftrightarrow> y \<in> set xs \<and> sle_id y \<noteq> sle_id e"
  by (auto simp: others_def)

lemma remove_inv:
  assumes inv: "refs_inv x w" and e: "e \<in> set (lock_list w obj)"
  shows "refs_inv x (remove_from_locklist e w)"
proof -
  let ?w = "remove_from_locklist e w"
  let ?e = "e\<lparr>sle_owner := None, sle_ref_count := sle_ref_count e - 1\<rparr>"
  note C = core_sel [OF remove_core [OF inv e]] and E = list_entry [OF inv e]
  have ck: "cookies_of ?w i = cookies_of w i" for i by (simp add: cookies_of_def C)
  have ok: "ent_ok ?w y = ent_ok w y" for y by (simp add: ent_ok_def C)
  have L: "y \<in> set (lock_list w ob)" if "y \<in> set (lock_list ?w ob)" for y ob
    using that by (cases "ob = obj") (simp_all add: C in_others)
  have D: "y = ?e \<and> sle_ref_count e \<noteq> 1 \<or> y \<in> set (detached w)" if "y \<in> set (detached ?w)" for y
    using that by (auto simp: C split: if_splits)
  have "distinct (map sle_id (lock_list ?w ob @ detached ?w))" for ob
  proof -
    have dis: "distinct (map sle_id (lock_list w ob @ detached w))" for ob
      using inv by (simp add: refs_inv_def entries_ok_def)
    have "sle_id e \<notin> sle_id ` set (lock_list w ob)" if "ob \<noteq> obj"
      using that list_entry(2) [OF inv] E(2) by (metis imageE)
    with dis [of ob] dis [of obj] E(8) show ?thesis
      by (cases "ob = obj") (auto simp: C others_def distinct_map_filter)
  qed
  moreover have "ent_ok w y \<and> sle_owner y = None" if "y \<in> set (detached ?w)" for y
    using D [OF that] detached_entry(1-3,8) [OF inv, of y] E(1-4) unfolding ent_ok_def
    by (elim disjE conjE) simp_all
  moreover have "sle_obj y = ob \<and> ent_ok w y \<and> sle_owner y \<noteq> None" if "y \<in> set (lock_list ?w ob)" for y ob
    using list_entry [OF inv L [OF that]] by (simp add: ent_ok_def)
  ultimately have "entries_ok ?w"
    unfolding entries_ok_def ok by blast
  moreover have "refs_ok x ?w"
    unfolding refs_ok_def ck
  proof (intro conjI allI ballI)
    show "sle_ref_count y = 1 + int (card (cookies_of w (sle_id y))) + int (x (sle_id y))"
      "at_rest x ?w y"
      if "y \<in> set (lock_list ?w ob)" for ob y
      using list_entry(6,10) [OF inv L [OF that]] unfolding at_rest_cookies [OF ck] by simp_all
    show "sle_ref_count y = int (card (cookies_of w (sle_id y))) + int (x (sle_id y))"
      "sle_ref_count y = 1" if "y \<in> set (detached ?w)" for y
      using D [OF that] detached_entry(4,5) [OF inv, of y] E(6,10) unfolding at_rest_def by auto
  qed
  moreover have "cookies_ok x ?w"
  proof -
    have gone: "entry_at i ?w \<noteq> None" if i: "entry_at i w \<noteq> None" and n: "i \<noteq> sle_id e \<or> sle_ref_count e \<noteq> 1" for i
    proof (cases "i = sle_id e")
      case True
      with n have "?e \<in> set (detached ?w)" by (simp add: C)
      then show ?thesis
        unfolding entry_at_def find_entry_def find_None_iff using True by auto
    next
      case False
      obtain y where y: "y \<in> set (lock_list w (sle_file w i)) \<union> set (detached w)" "sle_id y = i"
        using i unfolding entry_at_iff [OF inv] by auto
      with False have "y \<in> set (lock_list ?w (sle_file ?w i)) \<union> set (detached ?w)"
        by (auto simp: C in_others)
      with y(2) show ?thesis
        unfolding entry_at_def find_entry_def find_None_iff by auto
    qed
    have "x (sle_id e) = 0" "\<And>k c. ht_lock_cookies w k = Some c \<Longrightarrow> sce_lock_entry c \<noteq> sle_id e"
      if "sle_ref_count e = 1"
    proof -
      have 0: "x (sle_id e) = 0" "card (cookies_of w (sle_id e)) = 0" using E(6) that by simp_all
      show "x (sle_id e) = 0" by fact
      have "cookies_of w (sle_id e) = {}" using 0(2) cookies_of_finite [OF inv] by simp
      then show "sce_lock_entry c \<noteq> sle_id e" if "ht_lock_cookies w k = Some c" for k c
        using that by (auto simp: cookies_of_def)
    qed
    then have free: "x i = 0" "\<And>k c. ht_lock_cookies w k = Some c \<Longrightarrow> sce_lock_entry c \<noteq> i"
      if "\<not> (i \<noteq> sle_id e \<or> sle_ref_count e \<noteq> 1)" for i
      using that by blast+
    have I: "finite (dom (ht_lock_cookies w))"
      "\<And>k c. ht_lock_cookies w k = Some c \<Longrightarrow> sce_obj c = sle_file w (sce_lock_entry c)"
      "\<And>k c. ht_lock_cookies w k = Some c \<Longrightarrow> entry_at (sce_lock_entry c) w \<noteq> None"
      "\<And>i. x i \<noteq> 0 \<Longrightarrow> entry_at i w \<noteq> None"
      using inv unfolding refs_inv_def cookies_ok_def by blast+
    have "entry_at i ?w \<noteq> None" if "x i \<noteq> 0" for i
      using gone [OF I(4) [OF that]] free(1) [of i] that by blast
    moreover have "entry_at (sce_lock_entry c) ?w \<noteq> None" if "ht_lock_cookies w k = Some c" for k c
      using gone [OF I(3) [OF that]] free(2) [OF _ that] by blast
    ultimately show ?thesis
      unfolding cookies_ok_def C using I(1,2) by simp
  qed
  ultimately show ?thesis by (simp add: refs_inv_def)
qed

text \<open>An address that has been handed out for a file but names no entry yet.\<close>

definition unused :: "'f sal \<Rightarrow> ptr \<Rightarrow> ptr \<Rightarrow> bool" where
  "unused w obj i \<longleftrightarrow> i < sal_next w \<and> sle_file w i = obj \<and> entry_at i w = None"

lemma append_inv:
  assumes inv: "refs_inv x w" and un: "unused w obj (sle_id e)"
    and e: "sle_obj e = obj" "sle_owner e \<noteq> None" "range_ok (sle_lock e)" "sle_ref_count e = 1"
      "waiting e \<longrightarrow> nlm_owned e"
  shows "refs_inv x (w\<lparr>lock_list := (lock_list w)(obj := lock_list w obj @ [e])\<rparr>)" (is "refs_inv x ?w")
proof -
  have ck: "cookies_of ?w i = cookies_of w i" for i by (simp add: cookies_of_def)
  have ok: "ent_ok ?w y = ent_ok w y" for y by (simp add: ent_ok_def)
  have new: "sle_id e \<notin> sle_id ` set (lock_list w obj)" "sle_id e \<notin> sle_id ` set (detached w)"
    using un by (auto simp: unused_def entry_at_def find_entry_def find_None_iff)
  have x0: "x (sle_id e) = 0"
    using inv un by (auto simp: refs_inv_def cookies_ok_def unused_def)
  have c0: "cookies_of w (sle_id e) = {}"
    using inv un by (fastforce simp: refs_inv_def cookies_ok_def unused_def cookies_of_def)
  have "entries_ok ?w"
    using inv new e un unfolding refs_inv_def entries_ok_def ok
    by (auto simp: ent_ok_def unused_def)
  moreover have "at_rest x w e" using e(5) x0 c0 by (simp add: at_rest_def)
  then have "refs_ok x ?w"
    using inv e(1-4) x0 c0 unfolding refs_inv_def refs_ok_def ck at_rest_cookies [OF ck] by auto
  moreover have "entry_at i w \<noteq> None \<Longrightarrow> entry_at i ?w \<noteq> None" for i
    by (auto simp: entry_at_def find_entry_def find_None_iff)
  then have "cookies_ok x ?w"
    using inv unfolding refs_inv_def cookies_ok_def by simp
  ultimately show ?thesis by (simp add: refs_inv_def)
qed

section \<open>The primitives\<close>

lemma entry_at_id: "entry_at i w = Some e \<Longrightarrow> sle_id e = i"
  by (auto simp: entry_at_def find_entry_def dest: find_SomeD)

lemma refs_inv_next:
  assumes "refs_inv x w" and "entry_at i w = Some e"
  shows "i < sal_next w"
  using assms
proof (cases rule: entry_at_cases)
  case list
  then show ?thesis using list_entry(3) [OF assms(1)] by blast
next
  case detached
  then show ?thesis using detached_entry(2) [OF assms(1)] by blast
qed

lemma fresh_inv:
  assumes inv: "refs_inv x w"
    and C: "core w' = (Suc (sal_next w), (sle_file w)(sal_next w := obj), lock_list w, detached w,
                       ht_lock_cookies w, state_seqid w)"
  shows "refs_inv x w'" "unused w' obj (sal_next w)"
    "unused w ob i \<Longrightarrow> unused w' ob i" "i \<noteq> sal_next w \<Longrightarrow> entry_at i w' = entry_at i w"
proof -
  note C = core_sel [OF C]
  have ltL: "sle_id e < sal_next w" if "e \<in> set (lock_list w ob)" for e ob
    using list_entry(3) [OF inv that] .
  have ltD: "sle_id e < sal_next w" if "e \<in> set (detached w)" for e
    using detached_entry(2) [OF inv that] .
  show at: "entry_at i w' = entry_at i w" if "i \<noteq> sal_next w" for i
    using that by (simp add: entry_at_def find_entry_def C)
  have none: "entry_at (sal_next w) w' = None"
    using ltL ltD by (auto simp: entry_at_def find_entry_def find_None_iff C dest: less_imp_neq)
  show "unused w' obj (sal_next w)" using none by (simp add: unused_def C)
  show "unused w' ob i" if "unused w ob i" for ob i
    using that at [of i] by (auto simp: unused_def C)
  have ok: "ent_ok w' e" if "ent_ok w e" for e
    using that by (auto simp: ent_ok_def C)
  have ck: "cookies_of w' i = cookies_of w i" for i by (simp add: cookies_of_def C)
  have "entries_ok w'"
    using inv ok unfolding refs_inv_def entries_ok_def C by blast
  moreover have "refs_ok x w'"
    using inv unfolding refs_inv_def refs_ok_def C ck at_rest_cookies [OF ck] by blast
  moreover have "cookies_ok x w'"
  proof -
    have I: "finite (dom (ht_lock_cookies w))"
      "\<And>k c. ht_lock_cookies w k = Some c \<Longrightarrow> sce_obj c = sle_file w (sce_lock_entry c)"
      "\<And>k c. ht_lock_cookies w k = Some c \<Longrightarrow> entry_at (sce_lock_entry c) w \<noteq> None"
      "\<And>i. x i \<noteq> 0 \<Longrightarrow> entry_at i w \<noteq> None"
      using inv unfolding refs_inv_def cookies_ok_def by blast+
    have lt: "i < sal_next w" if "entry_at i w \<noteq> None" for i
      using that refs_inv_next [OF inv] by auto
    show ?thesis
      unfolding cookies_ok_def C using I(1)
    proof (intro conjI allI impI)
      fix k c assume c: "ht_lock_cookies w k = Some c"
      show "sce_obj c = ((sle_file w)(sal_next w := obj)) (sce_lock_entry c)"
        "entry_at (sce_lock_entry c) w' \<noteq> None"
        using I(2,3) [OF c] lt [OF I(3) [OF c]] at by simp_all
    next
      fix i assume "x i \<noteq> 0"
      with I(4) [of i] lt [of i] at [of i] show "entry_at i w' \<noteq> None" by simp
    qed simp
  qed
  ultimately show "refs_inv x w'" by (simp add: refs_inv_def)
qed

lemma create_core:
  assumes "create_state_lock_entry obj exp blocked owner state lock w = (e, w')"
  shows "core w' = (Suc (sal_next w), (sle_file w)(sal_next w := obj), lock_list w, detached w,
                    ht_lock_cookies w, state_seqid w)"
    "e = \<lparr>sle_id = sal_next w, sle_obj = obj, sle_export = exp, sle_block_data = None,
          sle_owner = Some owner, sle_state = state, sle_blocked = blocked, sle_ref_count = 1,
          sle_lock = lock\<rparr>"
  using assms
  by (cases state; clarsimp simp: create_state_lock_entry_def core_def Let_def)+

lemma dup_core:
  assumes "state_lock_entry_t_dup c w = Some (d, w')"
  shows "core w' = (Suc (sal_next w), (sle_file w)(sal_next w := sle_obj c), lock_list w, detached w,
                    ht_lock_cookies w, state_seqid w)"
    "sle_ref_count d = 1"
  using assms by (auto simp: state_lock_entry_t_dup_def split: option.splits dest: create_core)

lemma do_lock_op_core:
  assumes "do_lock_op cx obj state lock_op owner lock want w = (status, w', info)"
  shows "core w' = core w"
  using assms by (auto simp: do_lock_op_def core_def Let_def split: prod.splits if_splits)

lemma remove_unused_core:
  assumes inv: "refs_inv x w" and un: "unused w obj (sle_id e)" "sle_obj e = obj" "sle_ref_count e = 1"
  shows "core (remove_from_locklist e w) = core w"
proof -
  have L: "filter (\<lambda>y. sle_id y \<noteq> sle_id e) (lock_list w obj) = lock_list w obj"
    and D: "filter (\<lambda>y. sle_id y \<noteq> sle_id e) (detached w) = detached w"
    using un by (auto simp: filter_id_conv unused_def entry_at_def find_entry_def find_None_iff)
  show ?thesis
    by (cases "sle_owner e"; cases "sle_state e")
      (simp_all add: core_def remove_from_locklist_def unlink_owner_def free_lock_entry_def Let_def
        un L D)
qed

text \<open>Dropping a temporary reference.\<close>

lemma drop_detached_inv:
  assumes inv: "refs_inv x w" and e: "e \<in> set (detached w)" and r: "sle_ref_count e = 1"
    and x1: "x (sle_id e) = 1"
    and C: "core w' = (sal_next w, sle_file w, lock_list w, others e (detached w), ht_lock_cookies w,
                       state_seqid w)"
  shows "refs_inv (x(sle_id e := 0)) w'"
proof -
  note C = core_sel [OF C] and E = detached_entry [OF inv e]
  have c0: "cookies_of w (sle_id e) = {}"
    using E(4) r x1 cookies_of_finite [OF inv, of "sle_id e"] by simp
  have ck: "cookies_of w' i = cookies_of w i" for i by (simp add: cookies_of_def C)
  have ok: "ent_ok w' y = ent_ok w y" for y by (simp add: ent_ok_def C)
  have LN: "sle_id y \<noteq> sle_id e" if "y \<in> set (lock_list w ob)" for y ob
    using E(7) [of ob] that by (metis image_eqI)
  have "distinct (map sle_id (lock_list w ob @ others e (detached w)))" for ob
  proof -
    have "distinct (map sle_id (lock_list w ob @ detached w))"
      using inv by (simp add: refs_inv_def entries_ok_def)
    then show ?thesis by (auto simp: others_def distinct_map_filter)
  qed
  then have "entries_ok w'"
    using inv unfolding refs_inv_def entries_ok_def ok C by (simp add: in_others)
  moreover have "refs_ok (x(sle_id e := 0)) w'"
    unfolding refs_ok_def ck C
  proof (intro conjI allI ballI)
    show "sle_ref_count y = 1 + int (card (cookies_of w (sle_id y))) + int ((x(sle_id e := 0)) (sle_id y))"
      "at_rest (x(sle_id e := 0)) w' y"
      if "y \<in> set (lock_list w ob)" for ob y
      using list_entry(6,10) [OF inv that] LN [OF that] unfolding at_rest_cookies [OF ck]
      by (simp_all add: at_rest_def)
    show "sle_ref_count y = int (card (cookies_of w (sle_id y))) + int ((x(sle_id e := 0)) (sle_id y))"
      "sle_ref_count y = 1" if "y \<in> set (others e (detached w))" for y
      using that detached_entry(4,5) [OF inv, of y] by (simp_all add: in_others)
  qed
  moreover have "cookies_ok (x(sle_id e := 0)) w'"
  proof -
    have I: "finite (dom (ht_lock_cookies w))"
      "\<And>k c. ht_lock_cookies w k = Some c \<Longrightarrow> sce_obj c = sle_file w (sce_lock_entry c)"
      "\<And>k c. ht_lock_cookies w k = Some c \<Longrightarrow> entry_at (sce_lock_entry c) w \<noteq> None"
      "\<And>i. x i \<noteq> 0 \<Longrightarrow> entry_at i w \<noteq> None"
      using inv unfolding refs_inv_def cookies_ok_def by blast+
    have at: "entry_at i w' \<noteq> None" if i: "entry_at i w \<noteq> None" "i \<noteq> sle_id e" for i
    proof -
      obtain y where "y \<in> set (lock_list w (sle_file w i)) \<union> set (detached w)" "sle_id y = i"
        using i(1) unfolding entry_at_iff [OF inv] by auto
      with i(2) show ?thesis
        unfolding entry_at_def find_entry_def find_None_iff C by (auto simp: in_others)
    qed
    have "sce_lock_entry c \<noteq> sle_id e" if "ht_lock_cookies w k = Some c" for k c
      using c0 that by (auto simp: cookies_of_def)
    then show ?thesis
      unfolding cookies_ok_def C using I(1,2) at [OF I(3)] at [OF I(4)] by simp
  qed
  ultimately show ?thesis by (simp add: refs_inv_def)
qed

lemma replace_entry_absent: "sle_id e \<notin> sle_id ` set xs \<Longrightarrow> replace_entry e xs = xs"
  unfolding replace_entry_def by (intro map_idI) (auto simp: image_iff)

lemma dec_ref_inv:
  assumes inv: "refs_inv x w" and i: "x i \<noteq> 0" and e: "entry_at i w = Some e"
    and e': "sle_id e' = sle_id e" "sle_obj e' = sle_obj e" "sle_owner e' = sle_owner e"
      "sle_lock e' = sle_lock e" "sle_ref_count e' = sle_ref_count e" "sle_blocked e' = sle_blocked e"
  shows "refs_inv (x(i := x i - 1)) (lock_entry_dec_ref e' w)
    \<and> (\<exists>d. core (lock_entry_dec_ref e' w)
        = (sal_next w, sle_file w,
           (lock_list w)(sle_file w i :=
              replace_entry (e'\<lparr>sle_ref_count := sle_ref_count e - 1\<rparr>) (lock_list w (sle_file w i))),
           d, ht_lock_cookies w, state_seqid w)
        \<and> (\<forall>y \<in> set d. \<exists>z \<in> set (detached w). sle_blocked z = sle_blocked y))"
  using inv e
proof (cases rule: entry_at_cases)
  case list
  note E = list_entry [OF inv list(2)]
  let ?e = "e'\<lparr>sle_ref_count := sle_ref_count e - 1\<rparr>"
  have "lock_entry_dec_ref e' w = put_entry ?e w"
    using E(6) i list(1) e' by (simp add: lock_entry_dec_ref_def)
  moreover have "refs_inv (x(i := x i - 1)) (put_entry ?e w)"
    using E e' i list(1)
    by (intro put_list_inv [OF inv list(2)]) (auto simp: of_nat_diff at_rest_def waiting_def)
  moreover have "core (put_entry ?e w) = (sal_next w, sle_file w,
           (lock_list w)(sle_file w i := replace_entry ?e (lock_list w (sle_file w i))),
           detached w, ht_lock_cookies w, state_seqid w)"
    using E e' list(1) by (intro put_entry_list [OF inv list(2)]) simp_all
  ultimately show ?thesis by auto
next
  case detached
  note E = detached_entry [OF inv detached(2)]
  let ?e = "e'\<lparr>sle_ref_count := sle_ref_count e - 1\<rparr>"
  have L: "replace_entry ?e (lock_list w ob) = lock_list w ob" for ob
    using E(7) [of ob] e'(1) by (intro replace_entry_absent) simp
  have x1: "x (sle_id e) = 1" using E(4,5) i detached(1) by auto
  have "filter (\<lambda>y. sle_id y \<noteq> sle_id e) (lock_list w (sle_obj e)) = lock_list w (sle_obj e)"
    using E(7) [of "sle_obj e"] by (auto simp: filter_id_conv image_iff)
  then have "core (lock_entry_dec_ref e' w) = (sal_next w, sle_file w, lock_list w, others e (detached w),
      ht_lock_cookies w, state_seqid w)"
    using E(5) e' by (simp add: lock_entry_dec_ref_def free_lock_entry_def core_def others_def)
  with drop_detached_inv [OF inv detached(2) E(5) x1] x1 detached(1) L show ?thesis
    by (auto simp: in_others)
qed

end
