(* ===== verification/GrantInvariant.thy ===== *)
theory GrantInvariant
  imports EntryRefs
begin

text \<open>
  The operations on blocked locks keep the reference discipline of lock entries, reach no NULL or
  dangling pointer, and change the lock lists only as described here: an attempt to grant an entry
  changes the status of that entry or removes it; completing, releasing and cancelling a grant
  touch one entry and then try to grant the others.
\<close>

section \<open>What an operation does to the lock lists\<close>

text \<open>The data of an entry that matters to the locks: all but its block data and references.\<close>

definition erase :: "sle \<Rightarrow> sle" where
  "erase e = e\<lparr>sle_block_data := None, sle_ref_count := 0\<rparr>"

definition view :: "'f sal \<Rightarrow> ptr \<Rightarrow> sle list" where
  "view w obj = map erase (lock_list w obj)"

definition frame :: "ptr \<Rightarrow> 'f sal \<Rightarrow> 'f sal \<Rightarrow> bool" where
  "frame obj w w' \<longleftrightarrow>
     (\<forall>ob. ob \<noteq> obj \<longrightarrow> view w' ob = view w ob) \<and> sal_next w \<le> sal_next w'
     \<and> (\<forall>i < sal_next w. sle_file w' i = sle_file w i) \<and> state_seqid w' = state_seqid w"

text \<open>No entry off its list is still being granted.\<close>

definition calm :: "'f sal \<Rightarrow> bool" where
  "calm w \<longleftrightarrow> (\<forall>e \<in> set (detached w). sle_blocked e \<noteq> STATE_GRANTING)"

lemma calm_core: "core w = core w' \<Longrightarrow> calm w = calm w'"
  by (simp add: calm_def core_def)

lemma cookies_of_cong: "ht_lock_cookies w = ht_lock_cookies w' \<Longrightarrow> cookies_of w = cookies_of w'"
  by (simp add: cookies_of_def fun_eq_iff)

lemma waiting_simps [simp]:
  "waiting (e\<lparr>sle_ref_count := n\<rparr>) = waiting e" "waiting (e\<lparr>sle_block_data := b\<rparr>) = waiting e"
  "waiting (e\<lparr>sle_lock := k\<rparr>) = waiting e" "waiting (erase e) = waiting e"
  "\<not> waiting (e\<lparr>sle_blocked := STATE_GRANTING\<rparr>)" "\<not> waiting (e\<lparr>sle_blocked := STATE_CANCELED\<rparr>)"
  "\<not> waiting (e\<lparr>sle_blocked := STATE_NON_BLOCKING\<rparr>)"
  by (simp_all add: waiting_def erase_def)

lemma erase_sel [simp]:
  "sle_id (erase e) = sle_id e" "sle_owner (erase e) = sle_owner e" "sle_obj (erase e) = sle_obj e"
  "sle_blocked (erase e) = sle_blocked e" "sle_lock (erase e) = sle_lock e"
  "sle_export (erase e) = sle_export e" "sle_state (erase e) = sle_state e"
  by (simp_all add: erase_def)

lemma erase_update [simp]:
  "erase (e\<lparr>sle_ref_count := n\<rparr>) = erase e" "erase (e\<lparr>sle_block_data := b\<rparr>) = erase e"
  "erase (erase e) = erase e"
  by (simp_all add: erase_def)

lemma map_erase_replace [simp]:
  "map erase (replace_entry e xs) = replace_entry (erase e) (map erase xs)"
  by (simp add: replace_entry_def)

lemma map_erase_others [simp]: "map erase (others e xs) = others e (map erase xs)"
  by (induction xs) (simp_all add: others_def)

lemma replace_same: "distinct (map sle_id xs) \<Longrightarrow> e \<in> set xs \<Longrightarrow> replace_entry e xs = xs"
  unfolding replace_entry_def
  by (intro map_idI) (metis distinct_map inj_onD)

lemma view_core: "core w = core w' \<Longrightarrow> view w = view w'"
  by (simp add: core_def view_def fun_eq_iff)

lemma frame_refl [simp]: "frame obj w w"
  by (simp add: frame_def)

lemma frame_trans: "frame obj w w1 \<Longrightarrow> frame obj w1 w2 \<Longrightarrow> frame obj w w2"
  by (auto simp: frame_def)

lemma frame_core: "core w1 = core w2 \<Longrightarrow> frame obj w w1 = frame obj w w2"
  using view_core [of w1 w2] by (simp add: frame_def core_def)

lemma frame_core_left: "core w1 = core w2 \<Longrightarrow> frame obj w1 w = frame obj w2 w"
  using view_core [of w1 w2] by (simp add: frame_def core_def)

lemma view_distinct: "refs_inv x w \<Longrightarrow> distinct (map sle_id (view w obj))"
  by (auto simp: view_def refs_inv_def entries_ok_def comp_def)

lemma in_view: "e \<in> set (lock_list w obj) \<Longrightarrow> erase e \<in> set (view w obj)"
  by (simp add: view_def)

lemma view_replace_same:
  "refs_inv x w \<Longrightarrow> e \<in> set (lock_list w obj) \<Longrightarrow> replace_entry (erase e) (view w obj) = view w obj"
  by (rule replace_same [OF view_distinct in_view])

lemma put_view:
  assumes "refs_inv x w" and "e \<in> set (lock_list w obj)" and "sle_id e' = sle_id e" "sle_obj e' = obj"
  shows "view (put_entry e' w) obj = replace_entry (erase e') (view w obj)"
    "frame obj w (put_entry e' w)"
  using core_sel [OF put_entry_list [OF assms]] by (simp_all add: view_def frame_def)

lemma remove_view:
  assumes "refs_inv x w" and "e \<in> set (lock_list w obj)"
  shows "view (remove_from_locklist e w) obj = others e (view w obj)"
    "frame obj w (remove_from_locklist e w)"
  using core_sel [OF remove_core [OF assms]] by (simp_all add: view_def frame_def)

section \<open>Cookies\<close>

lemma held_entry:
  assumes "refs_inv x w" and "x i \<noteq> 0"
  shows "\<exists>e. entry_at i w = Some e"
proof -
  have "entry_at i w \<noteq> None" using assms unfolding refs_inv_def cookies_ok_def by blast
  then show ?thesis by simp
qed

lemma free_cookie_ok:
  assumes inv: "refs_inv x w" and c: "x (sce_lock_entry c) \<noteq> 0" "sce_obj c = sle_file w (sce_lock_entry c)"
  obtains w' where "free_cookie c True w = Some w'"
    "refs_inv (x(sce_lock_entry c := x (sce_lock_entry c) - 1)) w'"
    "view w' = view w" "\<And>obj. frame obj w w'" "calm w \<longrightarrow> calm w'"
proof -
  let ?i = "sce_lock_entry c"
  obtain e where e: "entry_at ?i w = Some e"
    using held_entry [OF inv c(1)] by blast
  let ?e = "e\<lparr>sle_block_data := map_option (\<lambda>b. b\<lparr>sbd_blocked_cookie := None\<rparr>) (sle_block_data e)\<rparr>"
  have f: "free_cookie c True w = Some (lock_entry_dec_ref ?e w)"
    using e c(2) by (simp add: free_cookie_def entry_at_def)
  from dec_ref_inv [OF inv c(1) e, of ?e] obtain d where
    inv': "refs_inv (x(?i := x ?i - 1)) (lock_entry_dec_ref ?e w)" and
    C: "core (lock_entry_dec_ref ?e w) = (sal_next w, sle_file w, (lock_list w)(sle_file w ?i :=
          replace_entry (?e\<lparr>sle_ref_count := sle_ref_count e - 1\<rparr>) (lock_list w (sle_file w ?i))),
          d, ht_lock_cookies w, state_seqid w)" and
    D: "\<forall>y \<in> set d. \<exists>z \<in> set (detached w). sle_blocked z = sle_blocked y"
    by auto
  note C = core_sel [OF C]
  have "replace_entry (erase e) (view w (sle_file w ?i)) = view w (sle_file w ?i)"
    using inv e
  proof (cases rule: entry_at_cases)
    case list
    then show ?thesis using view_replace_same [OF inv] by simp
  next
    case detached
    then show ?thesis
      using detached_entry(7) [OF inv detached(2), of "sle_file w ?i"]
      by (intro replace_entry_absent) (simp add: view_def image_image)
  qed
  then have v: "view (lock_entry_dec_ref ?e w) ob = view w ob" for ob
    by (cases "ob = sle_file w ?i") (simp_all add: view_def C erase_def)
  then have "frame obj w (lock_entry_dec_ref ?e w)" for obj
    by (simp add: frame_def C)
  moreover have "calm (lock_entry_dec_ref ?e w)" if "calm w"
    unfolding calm_def C
  proof (rule ballI)
    fix y assume "y \<in> set d"
    with D obtain z where "z \<in> set (detached w)" "sle_blocked z = sle_blocked y" by blast
    with that show "sle_blocked y \<noteq> STATE_GRANTING" unfolding calm_def by metis
  qed
  ultimately show thesis using that [OF f inv'] v by (simp add: fun_eq_iff)
qed

lemma find_grant_ok:
  assumes inv: "refs_inv x w" and f: "state_find_grant k w = (st, Some c, w')"
  shows "refs_inv (x(sce_lock_entry c := Suc (x (sce_lock_entry c)))) w'"
    "sce_obj c = sle_file w' (sce_lock_entry c)" "view w' = view w" "frame obj w w'"
    "lock_list w' = lock_list w" "detached w' = detached w" "sle_file w' = sle_file w"
proof -
  have h: "ht_lock_cookies w k = Some c"
    and w': "w' = w\<lparr>ht_lock_cookies := (ht_lock_cookies w)(k := None)\<rparr>"
    using f by (auto simp: state_find_grant_def split: option.splits)
  show "refs_inv (x(sce_lock_entry c := Suc (x (sce_lock_entry c)))) w'"
    unfolding w' by (rule refs_inv_take_cookie [OF inv h])
  show "sce_obj c = sle_file w' (sce_lock_entry c)"
    using inv h by (simp add: w' refs_inv_def cookies_ok_def)
  show "view w' = view w" "frame obj w w'" "lock_list w' = lock_list w" "detached w' = detached w"
    "sle_file w' = sle_file w"
    by (simp_all add: w' view_def fun_eq_iff frame_def)
qed

lemma find_grant_None: "state_find_grant k w = (st, None, w') \<Longrightarrow> w' = w"
  by (auto simp: state_find_grant_def split: option.splits)

text \<open>Taking a cookie from the table and freeing it.\<close>

lemma take_cookie_ok:
  assumes inv: "refs_inv x w" and f: "state_find_grant k w = (st, Some c, w1)"
  obtains w2 where "free_cookie c True w1 = Some w2" "refs_inv x w2" "view w2 = view w"
    "\<And>obj. frame obj w w2" "calm w \<longrightarrow> calm w2"
proof -
  note F = find_grant_ok [OF inv f]
  from free_cookie_ok [OF F(1) _ F(2)] obtain w2 where
    "free_cookie c True w1 = Some w2"
    "refs_inv ((x(sce_lock_entry c := Suc (x (sce_lock_entry c))))(sce_lock_entry c := x (sce_lock_entry c))) w2"
    "view w2 = view w1" "\<And>obj. frame obj w1 w2" "calm w1 \<longrightarrow> calm w2"
    by auto
  with that [of w2] F(3,4,6) show thesis by (auto intro: frame_trans simp: calm_def)
qed

section \<open>Granting\<close>

lemma next_cookie_core: "next_granted_cookie w = (k, w') \<Longrightarrow> core w' = core w"
  by (auto simp: next_granted_cookie_def core_def Let_def)

lemma grant_fsal_core: "grant_fsal_lock cx obj e t w = (st, w') \<Longrightarrow> core w' = core w"
  by (auto simp: grant_fsal_lock_def do_lock_op_core split: state_grant_type.splits prod.splits)

lemma add_cookie_success:
  assumes inv: "refs_inv x w" and e: "e \<in> set (lock_list w obj)" and nw: "\<not> waiting e"
    and h: "cookies_of w (sle_id e) = {}" "x (sle_id e) = 0"
    and k: "ht_lock_cookies w k = None" and w2: "core w2 = core (w\<lparr>ht_lock_cookies := (ht_lock_cookies w)
      (k \<mapsto> \<lparr>sce_obj = obj, sce_lock_entry = sle_id e, sce_cookie = k\<rparr>)\<rparr>)"
  shows "refs_inv x (put_entry (e\<lparr>sle_ref_count := sle_ref_count e + 1, sle_block_data := b\<rparr>) w2)"
    "view (put_entry (e\<lparr>sle_ref_count := sle_ref_count e + 1, sle_block_data := b\<rparr>) w2) = view w"
    "frame obj w (put_entry (e\<lparr>sle_ref_count := sle_ref_count e + 1, sle_block_data := b\<rparr>) w2)"
    "detached (put_entry (e\<lparr>sle_ref_count := sle_ref_count e + 1, sle_block_data := b\<rparr>) w2) = detached w"
proof -
  let ?e = "e\<lparr>sle_ref_count := sle_ref_count e + 1, sle_block_data := b\<rparr>"
  let ?c = "\<lparr>sce_obj = obj, sce_lock_entry = sle_id e, sce_cookie = k\<rparr>"
  note E = list_entry [OF inv e]
  let ?w1 = "put_entry ?e w"
  have inv1: "refs_inv (x(sle_id e := Suc (x (sle_id e)))) ?w1"
    using E(1-6) nw h by (intro put_list_inv [OF inv e]) (simp_all add: at_rest_def)
  have C1: "core ?w1 = (sal_next w, sle_file w, (lock_list w)(obj := replace_entry ?e (lock_list w obj)),
      detached w, ht_lock_cookies w, state_seqid w)"
    using E by (intro put_entry_list [OF inv e]) simp_all
  have nwt: "\<not> waiting y" if "y \<in> set (lock_list ?w1 ob)" "sle_id y = sle_id e" for y ob
  proof -
    have "sle_file w (sle_id y) = ob"
      using list_entry(2) [OF inv1 that(1)] unfolding core_sel(2) [OF C1] .
    then have "ob = obj" using that(2) E(2) by simp
    then have "y \<in> insert ?e {y \<in> set (lock_list w obj). sle_id y \<noteq> sle_id e}"
      using that(1) set_replace_entry [OF e, of ?e] unfolding core_sel(3) [OF C1] by simp
    with that(2) have "y = ?e" by blast
    then show ?thesis using nw by simp
  qed
  have "refs_inv x (?w1\<lparr>ht_lock_cookies := (ht_lock_cookies ?w1)(k \<mapsto> ?c)\<rparr>)"
    by (rule refs_inv_add_cookie [OF inv1 _ _ _ nwt]) (simp_all add: core_sel [OF C1] k E(2))
  moreover have C: "core (put_entry ?e w2) = core (?w1\<lparr>ht_lock_cookies := (ht_lock_cookies ?w1)(k \<mapsto> ?c)\<rparr>)"
    using w2 by (simp add: core_def put_entry_def Let_def)
  ultimately show "refs_inv x (put_entry ?e w2)" by (simp add: refs_inv_core [OF C])
  have "view (put_entry ?e w2) ob = view w ob" for ob
    using view_replace_same [OF inv e] core_sel [OF C1]
    by (cases "ob = obj") (simp_all add: view_core [OF C] view_def erase_def)
  then show v: "view (put_entry ?e w2) = view w" by (simp add: fun_eq_iff)
  then show "frame obj w (put_entry ?e w2)"
    using core_sel [OF C1] by (simp add: frame_core [OF C]) (simp add: view_core [OF C] frame_def)
  show "detached (put_entry ?e w2) = detached w"
    using C core_sel(4) [OF C1] by (simp add: core_def)
qed

lemma add_cookie_ok:
  assumes inv: "refs_inv x w" and e: "e \<in> set (lock_list w obj)"
    and nw: "\<not> waiting e" and h: "cookies_of w (sle_id e) = {}" "x (sle_id e) = 0" and a: "state_add_grant_cookie cx obj k e w = (st, co, w')"
  shows "refs_inv x w' \<and> view w' = view w \<and> frame obj w w' \<and> detached w' = detached w
    \<and> (st \<noteq> STATE_SUCCESS \<longrightarrow> ht_lock_cookies w' = ht_lock_cookies w)"
proof (cases "sle_block_data e = None \<or> k = [] \<or> ht_lock_cookies w k \<noteq> None")
  case True
  with a inv show ?thesis by (auto simp: state_add_grant_cookie_def split: option.splits if_splits)
next
  case False
  then obtain bd where bd: "sle_block_data e = Some bd" and k: "k \<noteq> []" "ht_lock_cookies w k = None" by auto
  let ?c = "\<lparr>sce_obj = obj, sce_lock_entry = sle_id e, sce_cookie = k\<rparr>"
  let ?w1 = "w\<lparr>ht_lock_cookies := (ht_lock_cookies w)(k \<mapsto> ?c)\<rparr>"
  obtain st2 w2 where g: "grant_fsal_lock cx obj e (sbd_grant_type bd) ?w1 = (st2, w2)"
    by fastforce
  note C = grant_fsal_core [OF g]
  show ?thesis
  proof (cases "st2 = STATE_SUCCESS")
    case True
    let ?e = "e\<lparr>sle_ref_count := sle_ref_count e + 1, sle_block_data := Some (bd\<lparr>sbd_blocked_cookie := Some k\<rparr>)\<rparr>"
    have "w' = put_entry ?e w2" "st = STATE_SUCCESS"
      using a bd k g True by (simp_all add: state_add_grant_cookie_def Let_def)
    with add_cookie_success [OF inv e nw h k(2) C] show ?thesis by simp
  next
    case False
    have w': "w' = w2\<lparr>ht_lock_cookies := (ht_lock_cookies w2)(k := None)\<rparr>"
      using a bd k g False by (simp add: state_add_grant_cookie_def Let_def)
    have "(ht_lock_cookies w)(k := None) = ht_lock_cookies w" using k(2) by auto
    with C have C': "core w' = core w" by (simp add: core_def w')
    show ?thesis
      using inv C' by (simp add: refs_inv_core [OF C'] frame_core [OF C'] view_core [OF C'] core_def)
  qed
qed

lemma granted_callback_ok:
  assumes inv: "refs_inv x w" and e: "e \<in> set (lock_list w obj)" "\<not> waiting e" and ok: "async_submit_ok cx"
    and h: "cookies_of w (sle_id e) = {}" "x (sle_id e) = 0" "nlm_owned e"
  obtains st w' where "nlm_granted_callback cx obj e w = Some (st, w')" "refs_inv x w'"
    "view w' = view w" "frame obj w w'" "detached w' = detached w"
    "st \<noteq> STATE_SUCCESS \<Longrightarrow> ht_lock_cookies w' = ht_lock_cookies w"
proof -
  obtain owner cl svid where owner: "sle_owner e = Some owner" "so_owner owner = STATE_LOCK_OWNER_NLM cl svid"
    using h(3) by (auto simp: nlm_owned_def is_STATE_LOCK_OWNER_NLM_def)
  obtain k w1 where n: "next_granted_cookie w = (k, w1)" by fastforce
  obtain st co w2 where a: "state_add_grant_cookie cx obj k e w1 = (st, co, w2)" by (metis prod_cases3)
  note C = next_cookie_core [OF n]
  have "refs_inv x w1" "e \<in> set (lock_list w1 obj)" "cookies_of w1 (sle_id e) = {}"
    using inv e C h(1) by (simp_all add: refs_inv_core [OF C] core_def cookies_of_def)
  from add_cookie_ok [OF this(1,2) e(2) this(3) h(2) a] have A: "refs_inv x w2" "view w2 = view w" "frame obj w w2"
    "detached w2 = detached w" "st \<noteq> STATE_SUCCESS \<Longrightarrow> ht_lock_cookies w2 = ht_lock_cookies w"
    using view_core [OF C] frame_core_left [OF C] C by (simp_all add: core_def)
  let ?cl = "slc_ptr cl"
  let ?w3 = "w2\<lparr>slc_refcount := incr (slc_refcount w2) ?cl\<rparr>"
  have C3: "core ?w3 = core w2" by (simp add: core_def)
  show thesis
  proof (cases "st = STATE_SUCCESS")
    case True
    then have "nlm_granted_callback cx obj e w = Some (STATE_SUCCESS, ?w3)"
      using ok by (simp add: nlm_granted_callback_def owner n a state_async_schedule_def Let_def)
    then show thesis
      by (rule that) (use A in \<open>simp_all add: refs_inv_core [OF C3] view_core [OF C3] frame_core [OF C3]\<close>)
  next
    case False
    then have "nlm_granted_callback cx obj e w = Some (st, w2)"
      by (simp add: nlm_granted_callback_def owner n a)
    then show thesis by (rule that) (use A in simp_all)
  qed
qed

lemma replace_replace [simp]:
  "sle_id a = sle_id b \<Longrightarrow> replace_entry a (replace_entry b xs) = replace_entry a xs"
  by (simp add: replace_entry_def comp_def)

lemma others_replace [simp]: "sle_id a = sle_id b \<Longrightarrow> others a (replace_entry b xs) = others a xs"
  by (induction xs) (simp_all add: others_def replace_entry_def)

lemma erase_blocked: "erase (e\<lparr>sle_blocked := b\<rparr>) = (erase e)\<lparr>sle_blocked := b\<rparr>"
  by (simp add: erase_def)

text \<open>Finding an entry again after an operation that kept the lists.\<close>

lemma find_again:
  assumes inv: "refs_inv x w'" and v: "erase e \<in> set (view w' obj)"
  obtains e' where "e' \<in> set (lock_list w' obj)" "erase e' = erase e" "sle_id e' = sle_id e"
    "find_entry obj (sle_id e) w' = Some e'"
proof -
  from v obtain e' where e': "e' \<in> set (lock_list w' obj)" "erase e' = erase e"
    by (auto simp: view_def)
  then have "sle_id e' = sle_id e" by (metis erase_sel(1))
  with e' find_entry_list [OF inv e'(1)] that show thesis by metis
qed

lemma nlm_owned_erase: "erase d = erase e \<Longrightarrow> nlm_owned d = nlm_owned e"
  unfolding nlm_owned_def by (metis erase_sel(2))

definition regranted :: "sle \<Rightarrow> sle list \<Rightarrow> sle list \<Rightarrow> bool" where
  "regranted e xs ys \<longleftrightarrow>
     ys = others e xs
     \<or> ys = replace_entry (erase (e\<lparr>sle_blocked := STATE_GRANTING\<rparr>)) xs
     \<or> ys = xs"

lemma try_to_grant_ok:
  assumes inv: "refs_inv x w" and e: "e \<in> set (lock_list w obj)" and wt: "waiting e" and ok: "async_submit_ok cx"
  obtains w' where "try_to_grant_lock cx e w = Some w'" "refs_inv x w'" "frame obj w w'"
    "regranted e (view w obj) (view w' obj)"
    "calm w \<longrightarrow> calm w'"
proof -
  note E = list_entry [OF inv e]
  show thesis
  proof (cases "sle_blocked e = STATE_CANCELED \<or> sle_block_data e = None \<or> \<not> export_ready cx (sle_export e)")
    case True
    then have "try_to_grant_lock cx e w = Some (remove_from_locklist e w)"
      by (simp add: try_to_grant_lock_def)
    then show thesis
    proof (rule that)
      show "calm w \<longrightarrow> calm (remove_from_locklist e w)"
        using wt core_sel(4) [OF remove_core [OF inv e]] by (auto simp: calm_def waiting_def)
    qed (use remove_inv [OF inv e] remove_view [OF inv e] in \<open>simp_all add: regranted_def\<close>)
  next
    case False
    then obtain bd where bd: "sle_block_data e = Some bd" by auto
    define gt where "gt = (if sbd_grant_type bd = STATE_GRANT_NONE then STATE_GRANT_INTERNAL
                           else sbd_grant_type bd)"
    define e1 where "e1 = e\<lparr>sle_blocked := STATE_GRANTING, sle_block_data := Some (bd\<lparr>sbd_grant_type := gt\<rparr>)\<rparr>"
    have e1: "sle_id e1 = sle_id e" "sle_obj e1 = obj" "sle_owner e1 \<noteq> None" "sle_lock e1 = sle_lock e"
      "sle_ref_count e1 = sle_ref_count e" "erase e1 = erase (e\<lparr>sle_blocked := STATE_GRANTING\<rparr>)"
      using E by (simp_all add: e1_def erase_def)
    let ?w1 = "put_entry e1 w"
    have nw1: "\<not> waiting e1" by (simp add: e1_def)
    have inv1: "refs_inv x ?w1"
      using E(1-6) e1 at_rest_active [OF E(10) e1(1) nw1] by (intro put_list_inv [OF inv e]) simp_all
    note V1 = put_view [OF inv e e1(1,2)] and C1 = core_sel [OF put_entry_list [OF inv e e1(1,2)]]
    have in1: "e1 \<in> set (lock_list ?w1 obj)" using e by (simp add: C1 set_replace_entry [OF e e1(1)])
    have h1: "cookies_of ?w1 (sle_id e1) = {}" "x (sle_id e1) = 0" "nlm_owned e1"
      using E(9,11,12) [OF wt] cookies_of_cong [OF C1(5)] e1(1) by (simp_all add: nlm_owned_def e1_def)
    obtain st w2 where cb: "nlm_granted_callback cx obj e1 ?w1 = Some (st, w2)" "refs_inv x w2"
      "view w2 = view ?w1" "frame obj ?w1 w2" "detached w2 = detached w"
      "st \<noteq> STATE_SUCCESS \<Longrightarrow> ht_lock_cookies w2 = ht_lock_cookies w"
      using granted_callback_ok [OF inv1 in1 nw1 ok h1] unfolding C1(4,5) by blast
    have ck: "cookies_of w2 (sle_id e) = {}" if "st \<noteq> STATE_SUCCESS"
      using E(9) [OF wt] cookies_of_cong [OF cb(6) [OF that]] by simp
    have fr: "frame obj w w2" using V1(2) cb(4) by (rule frame_trans)
    have v2: "view w2 obj = replace_entry (erase (e\<lparr>sle_blocked := STATE_GRANTING\<rparr>)) (view w obj)"
      using cb(3) V1(1) e1(6) by simp
    obtain e2 where e2: "e2 \<in> set (lock_list w2 obj)" "erase e2 = erase e1" "sle_id e2 = sle_id e"
      "find_entry obj (sle_id e) w2 = Some e2"
      using find_again [OF cb(2), of e1 obj] in_view [OF in1] cb(3) e1(1) by metis
    have own2: "sle_owner e2 \<noteq> None" "sle_lock e2 = sle_lock e" "sle_obj e2 = obj"
      using e2(2) e1 by (metis erase_sel(2,3,5))+
    have run: "try_to_grant_lock cx e w = (if st = STATE_LOCK_BLOCKED
        then Some (put_entry (e2\<lparr>sle_blocked := sle_blocked e,
                    sle_block_data := map_option (\<lambda>b. b\<lparr>sbd_grant_type := STATE_GRANT_NONE\<rparr>)
                                        (sle_block_data e2)\<rparr>) w2)
        else let w3 = w2\<lparr>state_blocked_locks := remove1 (sle_id e) (state_blocked_locks w2)\<rparr>
             in if st = STATE_SUCCESS then Some w3 else Some (remove_from_locklist e2 w3))"
      using False bd E(1) cb(1) e2(4)
      by (simp add: try_to_grant_lock_def e1_def gt_def Let_def)
    let ?w3 = "w2\<lparr>state_blocked_locks := remove1 (sle_id e) (state_blocked_locks w2)\<rparr>"
    have C3: "core ?w3 = core w2" by (simp add: core_def)
    show thesis
    proof (cases "st = STATE_LOCK_BLOCKED")
      case True
      let ?e3 = "e2\<lparr>sle_blocked := sle_blocked e,
                    sle_block_data := map_option (\<lambda>b. b\<lparr>sbd_grant_type := STATE_GRANT_NONE\<rparr>)
                                        (sle_block_data e2)\<rparr>"
      have "erase ?e3 = (erase e2)\<lparr>sle_blocked := sle_blocked e\<rparr>" by (simp add: erase_def)
      also have "\<dots> = erase e" unfolding e2(2) e1(6) by (cases e) (simp add: erase_def)
      finally have er: "erase ?e3 = erase e" .
      have "at_rest x w2 ?e3"
        using nlm_owned_erase [OF er] E(11,12) [OF wt] ck True e2(3) unfolding at_rest_def by simp
      then have "refs_inv x (put_entry ?e3 w2)"
        using own2 list_entry(4) [OF cb(2) e2(1)]
        by (intro put_list_inv [OF cb(2) e2(1)]) simp_all
      moreover have "view (put_entry ?e3 w2) obj = view w obj" "frame obj w (put_entry ?e3 w2)"
        using put_view [OF cb(2) e2(1), of ?e3] own2(3) er v2 fr e2(3) view_replace_same [OF inv e]
        by (auto intro: frame_trans)
      moreover have "detached (put_entry ?e3 w2) = detached w"
        using core_sel(4) [OF put_entry_list [OF cb(2) e2(1), of ?e3]] own2(3) cb(5) by simp
      ultimately show thesis
        using that [of "put_entry ?e3 w2"] run True by (simp add: regranted_def calm_def)
    next
      case notblocked: False
      show thesis
      proof (cases "st = STATE_SUCCESS")
        case True
        then show thesis
          using that [of ?w3] run cb(2,5) fr v2
          by (simp add: refs_inv_core [OF C3] view_core [OF C3] frame_core [OF C3] regranted_def calm_def)
      next
        case False
        have inv3: "refs_inv x ?w3" and in3: "e2 \<in> set (lock_list ?w3 obj)"
          using cb(2) e2(1) by (simp_all add: refs_inv_core [OF C3])
        have "others e2 (view w2 obj) = others e (view w obj)"
          using e2(3) by (simp add: v2 others_cong [of e2 e])
        moreover have "calm (remove_from_locklist e2 ?w3)" if "calm w"
        proof -
          have "sle_ref_count e2 = 1"
            using list_entry(6) [OF cb(2) e2(1)] ck [OF False] E(11) [OF wt] e2(3) by simp
          then have "detached (remove_from_locklist e2 ?w3) = detached w"
            using core_sel(4) [OF remove_core [OF inv3 in3]] cb(5) by simp
          with that show ?thesis by (simp add: calm_def)
        qed
        ultimately show thesis
          using that [of "remove_from_locklist e2 ?w3"] run notblocked False remove_inv [OF inv3 in3]
            remove_view [OF inv3 in3] fr frame_trans [OF fr]
          by (simp add: view_core [OF C3] frame_core_left [OF C3] regranted_def Let_def)
      qed
    qed
  qed
qed

text \<open>
  What granting may do to a lock list: a blocked entry that no active entry of another owner
  conflicts with becomes an entry being granted, or is dropped.
\<close>

definition grantable :: "bool \<Rightarrow> sle \<Rightarrow> sle list \<Rightarrow> bool" where
  "grantable u e xs \<longleftrightarrow>
     e \<in> set xs \<and> waiting e
     \<and> get_overlapping_entry u xs (sle_owner e) (sle_lock e) = None"

inductive grant_step :: "bool \<Rightarrow> sle list \<Rightarrow> sle list \<Rightarrow> bool" for u where
  drop: "grantable u e xs \<Longrightarrow> grant_step u xs (others e xs)"
| grant: "grantable u e xs \<Longrightarrow> grant_step u xs (replace_entry (e\<lparr>sle_blocked := STATE_GRANTING\<rparr>) xs)"

inductive_cases grant_stepE: "grant_step u xs ys"

lemma get_overlapping_erase:
  "get_overlapping_entry u (map erase xs) p l = map_option erase (get_overlapping_entry u xs p l)"
  by (induction xs) auto

lemma grantable_erase:
  assumes "e \<in> set xs" "waiting e"
    "get_overlapping_entry u xs (sle_owner e) (sle_lock e) = None"
  shows "grantable u (erase e) (map erase xs)"
  using assms by (simp add: grantable_def get_overlapping_erase)

lemma regranted_step:
  assumes "regranted e (map erase xs) ys" and "grantable u (erase e) (map erase xs)"
  shows "(grant_step u)\<^sup>*\<^sup>* (map erase xs) ys"
proof -
  have "others e (map erase xs) = others (erase e) (map erase xs)" by (simp add: others_def)
  with assms grant_step.drop [OF assms(2)] grant_step.grant [OF assms(2)] show ?thesis
    by (auto simp: regranted_def erase_blocked)
qed

lemma regranted_ids:
  "regranted e xs ys \<Longrightarrow> sle_id ` set xs - {sle_id e} \<subseteq> sle_id ` set ys"
proof -
  have "sle_id ` set xs = sle_id ` set (replace_entry d xs)" for d
    using replace_entry_ids [of d xs] by (metis set_map)
  then show "regranted e xs ys \<Longrightarrow> ?thesis" by (auto simp: regranted_def in_others)
qed

lemma view_ids: "sle_id ` set (view w obj) = sle_id ` set (lock_list w obj)"
  by (simp add: view_def image_image)

lemma regranted_waiting:
  "regranted e xs ys \<Longrightarrow> y \<in> set ys \<Longrightarrow> waiting y \<Longrightarrow> y \<in> set xs"
  by (auto simp: regranted_def in_others replace_entry_def split: if_splits)

definition idle :: "(ptr \<Rightarrow> nat) \<Rightarrow> ptr \<Rightarrow> 'f sal \<Rightarrow> bool" where
  "idle x obj w \<longleftrightarrow> (\<forall>e \<in> set (view w obj). waiting e \<longrightarrow> x (sle_id e) = 0)"

lemma idle_regranted:
  "idle x obj w \<Longrightarrow> regranted e (view w obj) (view w' obj) \<Longrightarrow> idle x obj w'"
  using regranted_waiting unfolding idle_def by blast

lemma grant_loop_ok:
  assumes "refs_inv x w" and "set is \<subseteq> sle_id ` set (lock_list w obj)" and "distinct is"
    and ok: "async_submit_ok cx"
  shows "\<exists>w'. grant_loop cx obj is w = Some w' \<and> refs_inv x w' \<and> frame obj w w'
    \<and> (grant_step (nsm_use_caller_name cx))\<^sup>*\<^sup>* (view w obj) (view w' obj)
    \<and> (idle x obj w \<longrightarrow> calm w \<longrightarrow> calm w')"
  using assms(1-3)
proof (induction "is" arbitrary: w)
  case (Cons i "is")
  let ?u = "nsm_use_caller_name cx"
  obtain e where e: "e \<in> set (lock_list w obj)" "sle_id e = i" using Cons.prems(2) by auto
  have f: "List.find (\<lambda>e. sle_id e = i) (lock_list w obj) = Some e"
    using list_find_entry [OF Cons.prems(1) e(1)] e(2) by simp
  have rest: "set is \<subseteq> sle_id ` set (lock_list w obj)" "distinct is" using Cons.prems by auto
  show ?case
  proof (cases "waiting e \<and> get_overlapping_entry ?u (lock_list w obj) (sle_owner e) (sle_lock e) = None")
    case False
    then have "grant_loop cx obj (i # is) w = grant_loop cx obj is w" using f by (auto simp: waiting_def)
    with Cons.IH [OF Cons.prems(1) rest] show ?thesis by simp
  next
    case True
    obtain w1 where t: "try_to_grant_lock cx e w = Some w1" "refs_inv x w1" "frame obj w w1"
      "regranted e (view w obj) (view w1 obj)"
      "calm w \<longrightarrow> calm w1"
      using try_to_grant_ok [OF Cons.prems(1) e(1) _ ok] True by blast
    have st: "(grant_step ?u)\<^sup>*\<^sup>* (view w obj) (view w1 obj)"
      using regranted_step [OF t(4) [unfolded view_def [of w]]] grantable_erase [OF e(1)] True
      by (simp add: view_def)
    have "set is \<subseteq> sle_id ` set (lock_list w1 obj)"
      using regranted_ids [OF t(4)] Cons.prems(2,3) e(2) unfolding view_ids by auto
    from Cons.IH [OF t(2) this rest(2)] obtain w' where
      IH: "grant_loop cx obj is w1 = Some w'" "refs_inv x w'" "frame obj w1 w'"
        "(grant_step ?u)\<^sup>*\<^sup>* (view w1 obj) (view w' obj)" "idle x obj w1 \<longrightarrow> calm w1 \<longrightarrow> calm w'" by blast
    have "calm w'" if i: "idle x obj w" and c: "calm w"
    proof -
      have "x (sle_id e) = 0" using i in_view [OF e(1)] True unfolding idle_def by fastforce
      then show ?thesis using t(5) True c IH(5) idle_regranted [OF i t(4)] by blast
    qed
    moreover have "grant_loop cx obj (i # is) w = Some w'" using f True t(1) IH(1) by (auto simp: waiting_def)
    moreover have "frame obj w w'" by (rule frame_trans [OF t(3) IH(3)])
    moreover have "(grant_step ?u)\<^sup>*\<^sup>* (view w obj) (view w' obj)" by (rule rtranclp_trans [OF st IH(4)])
    ultimately show ?thesis using IH(2) by simp
  qed
qed simp

lemma grant_blocked_locks_ok:
  assumes inv: "refs_inv x w" and ok: "async_submit_ok cx"
  obtains w' where "grant_blocked_locks cx obj w = Some w'" "refs_inv x w'" "frame obj w w'"
    "(grant_step (nsm_use_caller_name cx))\<^sup>*\<^sup>* (view w obj) (view w' obj)"
    "idle x obj w \<longrightarrow> calm w \<longrightarrow> calm w'"
proof (cases "fso_lock_support_async_block (fsal_export cx)")
  case True
  then show thesis using that [of w] inv by (simp add: grant_blocked_locks_def)
next
  case False
  have "distinct (map sle_id (lock_list w obj))"
    using inv by (simp add: refs_inv_def entries_ok_def)
  then show thesis
    using grant_loop_ok [OF inv _ _ ok, of "map sle_id (lock_list w obj)" obj] that False
    by (auto simp: grant_blocked_locks_def)
qed

end
