(* ===== verification/MergeInvariant.thy ===== *)
theory MergeInvariant
  imports GrantInvariant
begin

text \<open>
  Merging and subtracting keep the reference discipline of lock entries.  While their loops run,
  the lock list of the file is represented by the entries passed and pending; the invariant is
  stated for the state with that list in place.
\<close>

definition with_list :: "ptr \<Rightarrow> 'f sal \<Rightarrow> sle list \<Rightarrow> 'f sal" where
  "with_list obj w xs = w\<lparr>lock_list := (lock_list w)(obj := xs)\<rparr>"

lemma with_list_sel [simp]:
  "lock_list (with_list obj w xs) = (lock_list w)(obj := xs)" "detached (with_list obj w xs) = detached w"
  "sal_next (with_list obj w xs) = sal_next w" "sle_file (with_list obj w xs) = sle_file w"
  "ht_lock_cookies (with_list obj w xs) = ht_lock_cookies w"
  "state_seqid (with_list obj w xs) = state_seqid w"
  "with_list obj (with_list obj w ys) xs = with_list obj w xs"
  "with_list obj w (lock_list w obj) = w"
  by (simp_all add: with_list_def)

lemma core_with_list:
  "core (with_list obj w xs) = (sal_next w, sle_file w, (lock_list w)(obj := xs), detached w,
     ht_lock_cookies w, state_seqid w)"
  by (simp add: core_def)

lemma unused_iff:
  "unused w obj i \<longleftrightarrow> i < sal_next w \<and> sle_file w i = obj \<and> i \<notin> sle_id ` set (lock_list w obj)
     \<and> i \<notin> sle_id ` set (detached w)"
  by (auto simp: unused_def entry_at_def find_entry_def find_None_iff)

lemma ids_distinct:
  assumes "refs_inv x (with_list obj w xs)"
  shows "distinct (map sle_id xs)"
proof -
  have "distinct (map sle_id (lock_list (with_list obj w xs) obj @ detached w))"
    using assms unfolding refs_inv_def entries_ok_def with_list_sel by blast
  then show ?thesis by simp
qed

lemma replace_middle:
  "distinct (map sle_id (xs @ c # ys)) \<Longrightarrow> sle_id e = sle_id c \<Longrightarrow> replace_entry e (xs @ c # ys) = xs @ e # ys"
  by (auto simp: replace_entry_def image_iff intro!: map_idI)

lemma others_absent: "sle_id e \<notin> sle_id ` set xs \<Longrightarrow> others e xs = xs"
  by (auto simp: others_def filter_id_conv image_iff)

lemma others_middle:
  "distinct (map sle_id (xs @ c # ys)) \<Longrightarrow> others c (xs @ c # ys) = xs @ ys"
  by (simp add: others_Cons others_absent)

text \<open>Changing one entry in place, removing one and adding a copy.\<close>

lemma with_list_put:
  assumes inv: "refs_inv x (with_list obj w (xs @ c # ys))"
    and e: "sle_id e = sle_id c" "sle_obj e = sle_obj c" "sle_owner e = sle_owner c"
      "sle_ref_count e = sle_ref_count c" "range_ok (sle_lock e)" "sle_blocked e = sle_blocked c"
  shows "refs_inv x (with_list obj w (xs @ e # ys))"
proof -
  let ?w = "with_list obj w (xs @ c # ys)"
  have c: "c \<in> set (lock_list ?w obj)" by simp
  note E = list_entry [OF inv c]
  have C: "core (put_entry e ?w) = core (with_list obj w (xs @ e # ys))"
    using put_entry_list [OF inv c e(1)] E(1) e(1,2) replace_middle [OF ids_distinct [OF inv] e(1)]
    by (simp add: core_with_list)
  have "refs_inv x (put_entry e ?w)"
    using E(1-6,10) e at_rest_same [OF e(1,3,6), of x ?w] by (intro put_list_inv [OF inv c]) simp_all
  then show ?thesis by (simp add: refs_inv_core [OF C])
qed

lemma with_list_remove_core:
  assumes "sle_obj c = obj"
  shows "core (with_list obj (remove_from_locklist c w) ys)
       = core (with_list obj (remove_from_locklist c (with_list obj w zs)) ys)"
  using assms
  by (cases "sle_owner c"; cases "sle_state c")
    (simp_all add: core_def with_list_def remove_from_locklist_def unlink_owner_def
      free_lock_entry_def Let_def)

lemma with_list_remove:
  assumes inv: "refs_inv x (with_list obj w (xs @ c # ys))"
  shows "refs_inv x (with_list obj (remove_from_locklist c w) (xs @ ys))"
proof -
  let ?w = "with_list obj w (xs @ c # ys)"
  have c: "c \<in> set (lock_list ?w obj)" by simp
  note E = list_entry [OF inv c]
  have "lock_list (remove_from_locklist c ?w) obj = xs @ ys"
    using core_sel(3) [OF remove_core [OF inv c]] others_middle [OF ids_distinct [OF inv]] by simp
  then have "core (with_list obj (remove_from_locklist c ?w) (xs @ ys)) = core (remove_from_locklist c ?w)"
    by (metis with_list_sel(8))
  with with_list_remove_core [OF E(1), of w "xs @ ys" "xs @ c # ys"]
  have C: "core (with_list obj (remove_from_locklist c w) (xs @ ys)) = core (remove_from_locklist c ?w)"
    by simp
  show ?thesis using remove_inv [OF inv c] by (simp add: refs_inv_core [OF C])
qed

lemma with_list_dup:
  assumes inv: "refs_inv x (with_list obj w xs)" and d: "state_lock_entry_t_dup c w = Some (d, w1)"
    and c: "c \<in> set xs" and k: "range_ok k"
  shows "refs_inv x (with_list obj w1 (xs @ [d\<lparr>sle_lock := k\<rparr>]))"
    "i < sal_next w \<Longrightarrow> unused (with_list obj w xs) obj i
       \<Longrightarrow> unused (with_list obj w1 (xs @ [d\<lparr>sle_lock := k\<rparr>])) obj i"
proof -
  have c': "c \<in> set (lock_list (with_list obj w xs) obj)" using c by simp
  note E = list_entry [OF inv c'] and D = dup_simps [OF d] and DC = core_sel [OF dup_core(1) [OF d]]
  have C: "core (with_list obj w1 xs) = (Suc (sal_next (with_list obj w xs)),
      (sle_file (with_list obj w xs))(sal_next (with_list obj w xs) := obj),
      lock_list (with_list obj w xs), detached (with_list obj w xs),
      ht_lock_cookies (with_list obj w xs), state_seqid (with_list obj w xs))"
    using E(1) by (simp add: core_with_list DC)
  note F = fresh_inv [OF inv C]
  have "refs_inv x ((with_list obj w1 xs)\<lparr>lock_list := (lock_list (with_list obj w1 xs))
      (obj := lock_list (with_list obj w1 xs) obj @ [d\<lparr>sle_lock := k\<rparr>])\<rparr>)"
    using F(2) D E(1-6,12) k dup_core(2) [OF d]
    by (intro append_inv [OF F(1)]) (simp_all add: nlm_owned_def waiting_def)
  then show "refs_inv x (with_list obj w1 (xs @ [d\<lparr>sle_lock := k\<rparr>]))"
    by (simp add: with_list_def)
  show "unused (with_list obj w1 (xs @ [d\<lparr>sle_lock := k\<rparr>])) obj i"
    if "i < sal_next w" "unused (with_list obj w xs) obj i"
    using F(3) [OF that(2)] that(1) D(1) by (simp add: unused_iff)
qed

section \<open>Merging\<close>

lemma merge_step_ranges:
  assumes "range_ok (sle_lock c)" and "range_ok (sle_lock lock)"
  shows "merge_step u lock c = Keep e
      \<Longrightarrow> e = c \<or> sle_id c \<noteq> sle_id lock \<and> (\<exists>k. e = c\<lparr>sle_lock := k\<rparr> \<and> range_ok k)"
    and "merge_step u lock c = Split l r
      \<Longrightarrow> sle_id c \<noteq> sle_id lock \<and> granted c \<and> (\<exists>k. l = c\<lparr>sle_lock := k\<rparr> \<and> range_ok k) \<and> range_ok r"
    and "merge_step u lock c = Absorb lock2
      \<Longrightarrow> sle_id c \<noteq> sle_id lock \<and> granted c \<and> (\<exists>k. lock2 = lock\<lparr>sle_lock := k\<rparr> \<and> range_ok k)"
proof -
  have m: "mergeable u lock c \<Longrightarrow> sle_id c \<noteq> sle_id lock \<and> granted c" by (simp add: mergeable_def)
  show "e = c \<or> sle_id c \<noteq> sle_id lock \<and> (\<exists>k. e = c\<lparr>sle_lock := k\<rparr> \<and> range_ok k)"
    if st: "merge_step u lock c = Keep e"
  proof (cases "mergeable u lock c")
    case True
    from True assms show ?thesis by (cases rule: merge_step_cases) (use st m [OF True] in auto)
  qed (use st in \<open>simp add: merge_step_not_mergeable\<close>)
  show "sle_id c \<noteq> sle_id lock \<and> granted c \<and> (\<exists>k. l = c\<lparr>sle_lock := k\<rparr> \<and> range_ok k) \<and> range_ok r"
    if st: "merge_step u lock c = Split l r"
  proof (cases "mergeable u lock c")
    case True
    from True assms show ?thesis by (cases rule: merge_step_cases) (use st m [OF True] in auto)
  qed (use st in \<open>simp add: merge_step_not_mergeable\<close>)
  show "sle_id c \<noteq> sle_id lock \<and> granted c \<and> (\<exists>k. lock2 = lock\<lparr>sle_lock := k\<rparr> \<and> range_ok k)"
    if st: "merge_step u lock c = Absorb lock2"
  proof (cases "mergeable u lock c")
    case True
    from True assms show ?thesis by (cases rule: merge_step_cases) (use st m [OF True] in auto)
  qed (use st in \<open>simp add: merge_step_not_mergeable\<close>)
qed

definition list_only :: "ptr \<Rightarrow> 'f sal \<Rightarrow> 'f sal \<Rightarrow> bool" where
  "list_only obj w w' \<longleftrightarrow>
     (\<forall>ob. ob \<noteq> obj \<longrightarrow> lock_list w' ob = lock_list w ob) \<and> sal_next w \<le> sal_next w'
     \<and> (\<forall>i < sal_next w. sle_file w' i = sle_file w i) \<and> state_seqid w' = state_seqid w"

lemma list_only_refl [simp]: "list_only obj w w"
  by (simp add: list_only_def)

lemma list_only_trans: "list_only obj w w1 \<Longrightarrow> list_only obj w1 w2 \<Longrightarrow> list_only obj w w2"
  by (auto simp: list_only_def)

lemma list_only_with_list [simp]:
  "list_only obj w (with_list obj w' xs) = list_only obj w w'"
  "list_only obj (with_list obj w xs) w' = list_only obj w w'"
  by (simp_all add: list_only_def)

lemma list_only_frame: "list_only obj w w' \<Longrightarrow> frame obj w w'"
  by (simp add: list_only_def frame_def view_def)

lemma dup_list_only: "state_lock_entry_t_dup c w = Some (d, w1) \<Longrightarrow> list_only obj w w1"
  using core_sel [OF dup_core(1), of c w d w1] by (simp add: list_only_def)

lemma remove_list_only:
  "sle_obj c = obj \<Longrightarrow> list_only obj w (remove_from_locklist c w)"
  by (cases "sle_owner c"; cases "sle_state c")
    (simp_all add: list_only_def remove_from_locklist_def unlink_owner_def free_lock_entry_def Let_def)

lemma remove_detached_ids:
  "set (map sle_id (detached (remove_from_locklist c w))) \<subseteq> insert (sle_id c) (set (map sle_id (detached w)))"
  by (cases "sle_owner c"; cases "sle_state c")
    (auto simp: remove_from_locklist_def unlink_owner_def free_lock_entry_def Let_def)

definition placed :: "bool \<Rightarrow> sle \<Rightarrow> sle list \<Rightarrow> bool" where
  "placed onlist lock xs =
     (if onlist then lock \<in> set xs else sle_id lock \<notin> sle_id ` set xs)"

lemma placed_change:
  "placed onlist lock (xs @ c # ys) \<Longrightarrow> sle_id c \<noteq> sle_id lock \<Longrightarrow> sle_id e = sle_id c
     \<Longrightarrow> placed onlist lock (xs @ e # ys)"
  by (auto simp: placed_def)

lemma placed_drop:
  "placed onlist lock (xs @ c # ys) \<Longrightarrow> sle_id c \<noteq> sle_id lock \<Longrightarrow> placed onlist lock (xs @ ys)"
  by (auto simp: placed_def)

lemma placed_add:
  "placed onlist lock xs \<Longrightarrow> sle_id d \<noteq> sle_id lock \<Longrightarrow> placed onlist lock (xs @ [d])"
  by (auto simp: placed_def)

text \<open>
  The addresses of the waiting entries; the list operations neither add one nor let go of an entry
  that is being granted.
\<close>

definition waits :: "sle list \<Rightarrow> ptr set" where
  "waits xs = sle_id ` {e \<in> set xs. waiting e}"

lemma granted_not_waiting: "granted c \<Longrightarrow> \<not> waiting c"
  by (simp add: granted_def waiting_def)

lemma waits_simps [simp]:
  "waits [] = {}" "waits (xs @ ys) = waits xs \<union> waits ys"
  "waits (e # xs) = (if waiting e then {sle_id e} else {}) \<union> waits xs"
  by (auto simp: waits_def)

lemma idle_waits: "idle x obj w \<longleftrightarrow> (\<forall>i \<in> waits (lock_list w obj). x i = 0)"
  by (auto simp: idle_def waits_def view_def)

lemma remove_calm: "granted c \<Longrightarrow> calm w \<Longrightarrow> calm (remove_from_locklist c w)"
  by (cases "sle_owner c"; cases "sle_state c")
    (auto simp: calm_def granted_def remove_from_locklist_def unlink_owner_def free_lock_entry_def Let_def)

definition merge_world ::
  "(ptr \<Rightarrow> nat) \<Rightarrow> ptr \<Rightarrow> 'f sal \<Rightarrow> sle \<Rightarrow> bool \<Rightarrow> 'f sal \<Rightarrow> sle \<Rightarrow> sle list \<Rightarrow> sle list \<Rightarrow> bool" where
  "merge_world x obj w0 lock onlist w lk dn pend \<longleftrightarrow>
     refs_inv x (with_list obj w (dn @ pend)) \<and> list_only obj w0 w
     \<and> range_ok (sle_lock lk) \<and> (\<exists>k. lk = lock\<lparr>sle_lock := k\<rparr>) \<and> sle_id lock < sal_next w0
     \<and> placed onlist lock (dn @ pend) \<and> waits (dn @ pend) \<subseteq> waits (lock_list w0 obj)
     \<and> (calm w0 \<longrightarrow> calm w)
     \<and> (sle_id lock \<in> sle_id ` set (detached w) \<longrightarrow> sle_id lock \<in> sle_id ` set (detached w0))"

lemma merge_worldD:
  assumes "merge_world x obj w0 lock onlist w lk dn (c # rest)"
  shows "refs_inv x (with_list obj w (dn @ c # rest))" "range_ok (sle_lock c)" "range_ok (sle_lock lk)"
    "sle_id lk = sle_id lock" "sle_obj c = obj" "list_only obj w0 w"
proof -
  show inv: "refs_inv x (with_list obj w (dn @ c # rest))" and lk: "range_ok (sle_lock lk)"
    and "list_only obj w0 w" using assms by (simp_all add: merge_world_def)
  have "c \<in> set (lock_list (with_list obj w (dn @ c # rest)) obj)" by simp
  from list_entry(1,4) [OF inv this] show "range_ok (sle_lock c)" "sle_obj c = obj" by simp_all
  show "sle_id lk = sle_id lock" using assms by (auto simp: merge_world_def)
qed

lemma merge_world_keep:
  assumes P: "merge_world x obj w0 lock onlist w lk dn (c # rest)" and st: "merge_step u lk c = Keep e"
  shows "merge_world x obj w0 lock onlist w lk (dn @ [e]) rest"
proof -
  note D = merge_worldD [OF P]
  have pl: "placed onlist lock (dn @ c # rest)" using P by (simp add: merge_world_def)
  show ?thesis
  proof (cases "e = c")
    case True
    from P show ?thesis unfolding merge_world_def True by simp
  next
    case False
    then obtain k where k: "e = c\<lparr>sle_lock := k\<rparr>" "range_ok k" "sle_id c \<noteq> sle_id lock"
      using merge_step_ranges(1) [OF D(2,3) st] D(4) by auto
    have "refs_inv x (with_list obj w (dn @ e # rest))"
      using k by (intro with_list_put [OF D(1)]) simp_all
    moreover have "placed onlist lock (dn @ e # rest)"
      using placed_change [OF pl k(3)] k(1) by simp
    moreover have "waits (dn @ e # rest) = waits (dn @ c # rest)" using k(1) by simp
    ultimately show ?thesis using P unfolding merge_world_def by simp
  qed
qed

lemma merge_world_absorb:
  assumes P: "merge_world x obj w0 lock onlist w lk dn (c # rest)" and st: "merge_step u lk c = Absorb lk2"
  shows "merge_world x obj w0 lock onlist (remove_from_locklist c w) lk2 dn rest"
proof -
  note D = merge_worldD [OF P]
  obtain k where k: "lk2 = lk\<lparr>sle_lock := k\<rparr>" "range_ok k" "sle_id c \<noteq> sle_id lock" "granted c"
    using merge_step_ranges(3) [OF D(2,3) st] D(4) by auto
  have "\<exists>k. lk2 = lock\<lparr>sle_lock := k\<rparr>" using P k(1) by (auto simp: merge_world_def)
  moreover have "list_only obj w0 (remove_from_locklist c w)"
    using D(6) remove_list_only [OF D(5)] by (rule list_only_trans)
  moreover have "sle_id lock \<in> sle_id ` set (detached w)"
    if "sle_id lock \<in> sle_id ` set (detached (remove_from_locklist c w))"
    using that remove_detached_ids [of c w] k(3) by auto
  moreover have "placed onlist lock (dn @ rest)"
    using P placed_drop [OF _ k(3), of onlist dn rest] by (simp add: merge_world_def)
  moreover have "range_ok (sle_lock lk2)" using k by simp
  moreover have "calm w0 \<longrightarrow> calm (remove_from_locklist c w)"
    using P remove_calm [OF k(4), of w] by (simp add: merge_world_def)
  ultimately show ?thesis
    using with_list_remove [OF D(1)] P unfolding merge_world_def by simp
qed

lemma merge_world_split:
  assumes P: "merge_world x obj w0 lock onlist w lk dn (c # rest)" and st: "merge_step u lk c = Split l r"
    and d: "state_lock_entry_t_dup c w = Some (d, w1)"
  shows "merge_world x obj w0 lock onlist w1 lk (dn @ [l]) (rest @ [d\<lparr>sle_lock := r\<rparr>])"
proof -
  note D = merge_worldD [OF P]
  obtain k where k: "l = c\<lparr>sle_lock := k\<rparr>" "range_ok k" "range_ok r" "sle_id c \<noteq> sle_id lock" "granted c"
    using merge_step_ranges(2) [OF D(2,3) st] D(4) by auto
  have W: "list_only obj w0 w" "sle_id lock < sal_next w0" "placed onlist lock (dn @ c # rest)"
    "\<exists>k. lk = lock\<lparr>sle_lock := k\<rparr>"
    "sle_id lock \<in> sle_id ` set (detached w) \<longrightarrow> sle_id lock \<in> sle_id ` set (detached w0)"
    "waits (dn @ c # rest) \<subseteq> waits (lock_list w0 obj)" "calm w0 \<longrightarrow> calm w"
    using P by (simp_all add: merge_world_def)
  have dn: "sle_id d \<noteq> sle_id lock" using W(1,2) dup_simps(1) [OF d] by (simp add: list_only_def)
  have "refs_inv x (with_list obj w1 ((dn @ c # rest) @ [d\<lparr>sle_lock := r\<rparr>]))"
    by (rule with_list_dup(1) [OF D(1) d _ k(3)]) simp
  then have "refs_inv x (with_list obj w1 (dn @ c # (rest @ [d\<lparr>sle_lock := r\<rparr>])))" by simp
  from with_list_put [OF this, of l]
  have inv1: "refs_inv x (with_list obj w1 (dn @ l # (rest @ [d\<lparr>sle_lock := r\<rparr>])))"
    using k(1,2) by simp
  have "placed onlist lock (dn @ l # rest)"
    using placed_change [OF W(3) k(4), of l] k(1) by simp
  from placed_add [OF this, of "d\<lparr>sle_lock := r\<rparr>"]
  have pl: "placed onlist lock (dn @ l # (rest @ [d\<lparr>sle_lock := r\<rparr>]))" using dn by simp
  have "list_only obj w0 w1" using W(1) dup_list_only [OF d] by (rule list_only_trans)
  moreover have dt: "detached w1 = detached w" by (rule core_sel(4) [OF dup_core(1) [OF d]])
  moreover have "calm w1 = calm w" by (simp add: calm_def dt)
  moreover have "\<not> waiting c" "\<not> waiting l" "\<not> waiting d"
    using granted_not_waiting [OF k(5)] k(1) dup_simps [OF d] by (simp_all add: waiting_def)
  ultimately show ?thesis
    using W D(3) inv1 pl unfolding merge_world_def by auto
qed

lemma merge_loop_world:
  assumes run: "merge_loop u w lock [] xs = Some (w', lock', xs')"
    and P: "merge_world x obj w0 lock onlist w lock [] xs"
  shows "merge_world x obj w0 lock onlist w' lock' xs' []"
proof (rule merge_loop_invariant [where P = "merge_world x obj w0 lock onlist", OF run P])
  show "merge_world x obj w0 lock onlist w1 lk (dn @ [l, d\<lparr>sle_lock := r\<rparr>]) []"
    if "merge_world x obj w0 lock onlist w lk dn [c]" "merge_step u lk c = Split l r"
      "state_lock_entry_t_dup c w = Some (d, w1)" for w lk dn c l r d w1
    using merge_world_split [OF that] by (simp add: merge_world_def)
qed (rule merge_world_keep merge_world_split merge_world_absorb; assumption)+

lemma same_lock: "\<exists>k. lock = lock\<lparr>sle_lock := k\<rparr>"
  by (rule exI [of _ "sle_lock lock"]) simp

lemma merge_new_ok:
  assumes inv: "refs_inv x w" and un: "unused w obj (sle_id lock)" and ok: "range_ok (sle_lock lock)"
  obtains k w' where "merge_lock_entry u obj lock w = Some (lock\<lparr>sle_lock := k\<rparr>, w')" "range_ok k"
    "refs_inv x w'" "unused w' obj (sle_id lock)" "list_only obj w w'"
    "waits (lock_list w' obj) \<subseteq> waits (lock_list w obj)" "calm w \<longrightarrow> calm w'"
proof -
  obtain w' lk ys where run: "merge_loop u w lock [] (lock_list w obj) = Some (w', lk, ys)"
    using merge_loop_total [OF ok, of u w "[]" "lock_list w obj"] by auto
  have "merge_world x obj w lock False w lock [] (lock_list w obj)"
    using inv un ok same_lock unfolding merge_world_def placed_def unused_iff by auto
  from merge_loop_world [OF run this] obtain k where
    P: "refs_inv x (with_list obj w' ys)" "list_only obj w w'" "range_ok k" "lk = lock\<lparr>sle_lock := k\<rparr>"
      "sle_id lock \<notin> sle_id ` set ys" "sle_id lock \<notin> sle_id ` set (detached w')"
      "waits ys \<subseteq> waits (lock_list w obj)" "calm w \<longrightarrow> calm w'"
    using un unfolding merge_world_def placed_def unused_iff by auto
  have "replace_entry lk ys = ys" using P(4,5) by (intro replace_entry_absent) simp
  then have "merge_lock_entry u obj lock w = Some (lock\<lparr>sle_lock := k\<rparr>, with_list obj w' ys)"
    using run P(4) by (simp add: merge_lock_entry_def with_list_def replace_entry_def)
  moreover have "unused (with_list obj w' ys) obj (sle_id lock)"
    using un P(2,5,6) by (simp add: unused_iff list_only_def)
  moreover have "calm (with_list obj w' ys) = calm w'" by (simp add: calm_def)
  ultimately show thesis using that [of k "with_list obj w' ys"] P by simp
qed

lemma merge_held_ok:
  assumes inv: "refs_inv x w" and lock: "lock \<in> set (lock_list w obj)"
  obtains k w' where "merge_lock_entry u obj lock w = Some (lock\<lparr>sle_lock := k\<rparr>, w')" "range_ok k"
    "refs_inv x w'" "lock\<lparr>sle_lock := k\<rparr> \<in> set (lock_list w' obj)" "list_only obj w w'"
    "waits (lock_list w' obj) \<subseteq> waits (lock_list w obj)" "calm w \<longrightarrow> calm w'"
proof -
  note E = list_entry [OF inv lock]
  obtain w' lk ys where run: "merge_loop u w lock [] (lock_list w obj) = Some (w', lk, ys)"
    using merge_loop_total [OF E(4), of u w "[]" "lock_list w obj"] by auto
  have "merge_world x obj w lock True w lock [] (lock_list w obj)"
    using inv lock E(3,4) same_lock unfolding merge_world_def placed_def by auto
  from merge_loop_world [OF run this] obtain k where
    P: "refs_inv x (with_list obj w' ys)" "list_only obj w w'" "range_ok k" "lk = lock\<lparr>sle_lock := k\<rparr>"
      "lock \<in> set ys" "waits ys \<subseteq> waits (lock_list w obj)" "calm w \<longrightarrow> calm w'"
    unfolding merge_world_def placed_def by auto
  from P(5) obtain a b where ys: "ys = a @ lock # b" by (meson split_list)
  have "replace_entry lk ys = a @ lk # b"
    unfolding ys using P(1,4) ids_distinct [of x obj w' ys] by (intro replace_middle) (simp_all add: ys)
  then have run': "merge_lock_entry u obj lock w = Some (lock\<lparr>sle_lock := k\<rparr>, with_list obj w' (a @ lk # b))"
    using run P(4) by (simp add: merge_lock_entry_def with_list_def replace_entry_def)
  have "refs_inv x (with_list obj w' (a @ lk # b))"
    using P(1,3,4) by (intro with_list_put [of x obj w' a lock b lk]) (simp_all add: ys)
  moreover have "calm (with_list obj w' (a @ lk # b)) = calm w'" by (simp add: calm_def)
  moreover have "waits (a @ lk # b) = waits ys" using P(4) by (simp add: ys)
  ultimately show thesis using run' that [of k "with_list obj w' (a @ lk # b)"] P by simp
qed

text \<open>An entry without an owner merges with nothing.\<close>

lemma merge_unowned:
  assumes "sle_owner lock = None" and "sle_id lock \<notin> sle_id ` set (lock_list w obj)"
  shows "merge_lock_entry u obj lock w = Some (lock, w)"
proof -
  have "merge_step u lock c = Keep c" for c
    using assms(1)
    by (intro merge_step_not_mergeable) (simp add: mergeable_def different_owners_def split: option.splits)
  then have "merge_loop u w lock dn xs = Some (w, lock, dn @ xs)" for dn xs
    by (induction xs arbitrary: dn; subst merge_loop.simps) simp_all
  moreover have "replace_entry lock (lock_list w obj) = lock_list w obj"
    by (rule replace_entry_absent [OF assms(2)])
  ultimately show ?thesis
    by (simp add: merge_lock_entry_def replace_entry_def)
qed

section \<open>Subtracting\<close>

lemma dup_piece_world:
  assumes inv: "refs_inv x (with_list obj w (xs @ sp))" and c: "c \<in> set xs"
    and run: "(if q then map_option (\<lambda>(d, w1). ([d\<lparr>sle_lock := f (sle_lock d)\<rparr>], w1)) (state_lock_entry_t_dup c w)
               else Some ([], w)) = Some (l, w1)"
    and ok: "\<forall>e \<in> set l. range_ok (sle_lock e)"
  shows "refs_inv x (with_list obj w1 (xs @ sp @ l)) \<and> list_only obj w w1 \<and> detached w1 = detached w"
proof (cases q)
  case True
  with run obtain d where d: "state_lock_entry_t_dup c w = Some (d, w1)" "l = [d\<lparr>sle_lock := f (sle_lock d)\<rparr>]"
    by (auto split: prod.splits)
  have "refs_inv x (with_list obj w1 ((xs @ sp) @ [d\<lparr>sle_lock := f (sle_lock d)\<rparr>]))"
    by (rule with_list_dup(1) [OF inv d(1)]) (use c ok d(2) in simp_all)
  with d dup_list_only [OF d(1)] core_sel(4) [OF dup_core(1) [OF d(1)]] show ?thesis by simp
qed (use run inv in simp)

lemma subtract_entry_parts:
  fixes w :: "'f sal"
  assumes "subtract_lock_from_entry c lock w = Some (st, rm, es, w1)"
  obtains "es = []" "w1 = w"
  | q f l w2 q' f' r where
    "(if q then map_option (\<lambda>(d, w1). ([d\<lparr>sle_lock := f (sle_lock d)\<rparr>], w1)) (state_lock_entry_t_dup c w)
      else Some ([], w)) = Some (l, w2)"
    "(if q' then map_option (\<lambda>(d, w1). ([d\<lparr>sle_lock := f' (sle_lock d)\<rparr>], w1)) (state_lock_entry_t_dup c w2)
      else Some ([], w2)) = Some (r, w1)" "es = l @ r"
proof -
  let ?early = "lock_end lock < lock_start (sle_lock c) \<or> lock_end (sle_lock c) < lock_start lock
    \<or> lock_start lock \<le> lock_start (sle_lock c) \<and> lock_end (sle_lock c) \<le> lock_end lock"
  show thesis
  proof (cases ?early)
    case True
    with assms that(1) show thesis
      by (auto simp: subtract_lock_from_entry_def Let_def split: if_splits)
  next
    case False
    define L where "L = (if lock_start (sle_lock c) < lock_start lock
      then map_option (\<lambda>(d, w1). ([d\<lparr>sle_lock := (sle_lock d)
             \<lparr>lock_length := lock_start lock - lock_start (sle_lock c)\<rparr>\<rparr>], w1)) (state_lock_entry_t_dup c w)
      else Some ([], w))"
    define R where "R w2 = (if lock_end lock < lock_end (sle_lock c)
      then map_option (\<lambda>(d, w1). ([d\<lparr>sle_lock := (sle_lock d)
             \<lparr>lock_start := lock_end lock + 1,
              lock_length := (if lock_end (sle_lock c) = UINT64_MAX then 0
                              else lock_end (sle_lock c) - lock_end lock)\<rparr>\<rparr>], w1)) (state_lock_entry_t_dup c w2)
      else Some ([], w2))" for w2 :: "'f sal"
    have "subtract_lock_from_entry c lock w = (case L of None \<Rightarrow> None | Some (left, w1) \<Rightarrow>
        (case R w1 of None \<Rightarrow> None | Some (right, w2) \<Rightarrow> Some (STATE_SUCCESS, True, left @ right, w2)))"
      unfolding subtract_lock_from_entry_def L_def R_def Let_def
      by (simp only: False [simplified de_Morgan_disj] if_False simp_thms)
    with assms obtain l w2 r where "L = Some (l, w2)" "R w2 = Some (r, w1)" "es = l @ r"
      by (auto split: option.splits)
    then show thesis unfolding L_def R_def
      by (intro that(2) [of _ "\<lambda>k. k\<lparr>lock_length := lock_start lock - lock_start (sle_lock c)\<rparr>" _ _ _
        "\<lambda>k. k\<lparr>lock_start := lock_end lock + 1,
            lock_length := (if lock_end (sle_lock c) = UINT64_MAX then 0
                            else lock_end (sle_lock c) - lock_end lock)\<rparr>"]) assumption+
  qed
qed

lemma subtract_entry_world:
  assumes inv: "refs_inv x (with_list obj w (xs @ sp))" and c: "c \<in> set xs" and lk: "range_ok lock"
    and run: "subtract_lock_from_entry c lock w = Some (st, rm, es, w1)"
  shows "refs_inv x (with_list obj w1 (xs @ sp @ es)) \<and> list_only obj w w1 \<and> detached w1 = detached w"
proof -
  have cw: "c \<in> set (lock_list (with_list obj w (xs @ sp)) obj)" using c by simp
  note E = list_entry [OF inv cw]
  obtain es' w' where S: "subtract_lock_from_entry c lock w
      = Some (STATE_SUCCESS, sle_bytes c \<inter> bytes lock \<noteq> {}, es', w')" "\<forall>e \<in> set es'. fragment w c w' e"
    by (rule subtract_entry_spec [OF E(4) lk E(5), of w])
  then have rng: "\<forall>e \<in> set es. range_ok (sle_lock e)" using run by (auto simp: fragment_def)
  show ?thesis
    using run
  proof (cases rule: subtract_entry_parts)
    case 1
    then show ?thesis using inv by simp
  next
    case (2 q f l w2 q' f' r)
    have lr: "\<forall>e \<in> set l. range_ok (sle_lock e)" "\<forall>e \<in> set r. range_ok (sle_lock e)"
      using rng unfolding 2(3) by simp_all
    have L: "refs_inv x (with_list obj w2 (xs @ sp @ l)) \<and> list_only obj w w2 \<and> detached w2 = detached w"
      by (rule dup_piece_world [OF inv c 2(1) lr(1)])
    have "refs_inv x (with_list obj w1 (xs @ (sp @ l) @ r)) \<and> list_only obj w2 w1 \<and> detached w1 = detached w2"
      by (rule dup_piece_world [OF conjunct1 [OF L] c 2(2) lr(2)])
    with list_only_trans [of obj w w2 w1] L show ?thesis unfolding 2(3) by simp
  qed
qed

lemma subtract_loop_world:
  assumes lk: "range_ok lock"
  shows "subtract_loop u owner sa st lock w dn sp rm removed pend = Some (status, w', dn', sp', rm', b)
    \<Longrightarrow> refs_inv x (with_list obj w (xs @ sp)) \<Longrightarrow> set pend \<subseteq> set xs
    \<Longrightarrow> refs_inv x (with_list obj w' (xs @ sp')) \<and> list_only obj w w' \<and> detached w' = detached w"
proof (induction pend arbitrary: w dn sp rm removed)
  case (Cons c pend)
  show ?case
  proof (cases "subtract_skips u owner sa st w c = Some False")
    case False
    then have "subtract_loop u owner sa st lock w (dn @ [c]) sp rm removed pend = Some (status, w', dn', sp', rm', b)"
      using Cons.prems(1) by (auto split: option.splits bool.splits)
    from Cons.IH [OF this Cons.prems(2)] Cons.prems(3) show ?thesis by simp
  next
    case True
    with Cons.prems(1) obtain st1 r1 es w1 where
      S: "subtract_lock_from_entry c lock w = Some (st1, r1, es, w1)"
      by (auto split: option.splits)
    have run: "st1 \<noteq> STATE_SUCCESS \<and> w' = w1 \<and> sp' = sp @ es
        \<or> (\<exists>dn1 rm1 b1. subtract_loop u owner sa st lock w1 dn1 (sp @ es) rm1 b1 pend
              = Some (status, w', dn', sp', rm', b))"
    proof (cases "st1 = STATE_SUCCESS")
      case st: True
      have "subtract_loop u owner sa st lock w1 (if r1 then dn else dn @ [c]) (sp @ es)
          (if r1 then rm @ [c] else rm) (removed \<or> r1) pend = Some (status, w', dn', sp', rm', b)"
        using Cons.prems(1) True S st by (simp add: Let_def)
      then show ?thesis by blast
    qed (use Cons.prems(1) True S in \<open>simp add: Let_def\<close>)
    have c: "c \<in> set xs" using Cons.prems(3) by simp
    have W: "refs_inv x (with_list obj w1 (xs @ sp @ es))" "list_only obj w w1" "detached w1 = detached w"
      using subtract_entry_world [OF Cons.prems(2) c lk S] by simp_all
    from run show ?thesis
    proof (elim disjE exE)
      fix dn1 rm1 b1
      assume "subtract_loop u owner sa st lock w1 dn1 (sp @ es) rm1 b1 pend
              = Some (status, w', dn', sp', rm', b)"
      from Cons.IH [OF this W(1)] Cons.prems(3) list_only_trans [OF W(2)] W(3) show ?thesis by simp
    qed (use W in simp)
  qed
qed simp

lemma free_list_world:
  assumes "refs_inv x (with_list obj w xs)" and "set es \<subseteq> set xs" and "distinct es"
  shows "refs_inv x (with_list obj (free_list es w) (filter (\<lambda>e. e \<notin> set es) xs))
    \<and> list_only obj w (free_list es w) \<and> ((\<forall>e \<in> set es. granted e) \<longrightarrow> calm w \<longrightarrow> calm (free_list es w))"
  using assms
proof (induction es arbitrary: w xs)
  case (Cons e es)
  from Cons.prems(2) obtain a b where xs: "xs = a @ e # b" by (auto dest: split_list)
  have ob: "sle_obj e = obj" using list_entry(1) [OF Cons.prems(1), of e obj] Cons.prems(2) by simp
  have "distinct xs" using ids_distinct [OF Cons.prems(1)] by (simp add: distinct_map)
  then have ab: "e \<notin> set a" "e \<notin> set b" by (simp_all add: xs)
  have "refs_inv x (with_list obj (remove_from_locklist e w) (a @ b))"
    using with_list_remove [of x obj w a e b] Cons.prems(1) by (simp add: xs)
  from Cons.IH [OF this] have
    "refs_inv x (with_list obj (free_list es (remove_from_locklist e w)) (filter (\<lambda>e. e \<notin> set es) (a @ b)))"
    "list_only obj (remove_from_locklist e w) (free_list es (remove_from_locklist e w))"
    "(\<forall>e \<in> set es. granted e) \<longrightarrow> calm (remove_from_locklist e w) \<longrightarrow> calm (free_list es (remove_from_locklist e w))"
    using Cons.prems(2,3) by (auto simp: xs)
  moreover have "filter (\<lambda>y. y \<notin> set (e # es)) xs = filter (\<lambda>e. e \<notin> set es) (a @ b)"
  proof -
    have "filter (\<lambda>y. y \<notin> set (e # es)) ys = filter (\<lambda>e. e \<notin> set es) ys" if "e \<notin> set ys" for ys
      by (rule filter_cong) (use that in auto)
    with ab show ?thesis by (simp add: xs)
  qed
  ultimately show ?case
    using list_only_trans [OF remove_list_only [OF ob]] remove_calm [of e w] by (simp del: set_simps) simp
qed simp

lemma filter_removed:
  assumes "set xs \<inter> set ys = {}"
  shows "filter (\<lambda>e. e \<notin> set (filter h xs)) (xs @ ys) = filter (\<lambda>e. \<not> h e) xs @ ys"
proof -
  have "filter (\<lambda>e. e \<notin> set (filter h xs)) xs = filter (\<lambda>e. \<not> h e) xs"
    by (rule filter_cong) auto
  moreover have "filter (\<lambda>e. e \<notin> set (filter h xs)) ys = ys"
    using assms by (auto simp: filter_id_conv)
  ultimately show ?thesis by simp
qed

lemma subtract_list_ok:
  fixes w :: "'f sal" and u :: bool and owner :: "state_owner option" and st :: u32
  assumes inv: "refs_inv x w" and lk: "range_ok lock"
    and sa: "sa \<Longrightarrow> \<forall>e \<in> set (lock_list w obj). sle_state e \<noteq> None"
  defines "h \<equiv> hit u owner sa st lock (state_seqid w)"
  obtains w' fs where
    "subtract_lock_from_list u owner sa st lock obj w
       = Some (STATE_SUCCESS, \<exists>e \<in> set (lock_list w obj). h e, w')"
    "refs_inv x w'" "list_only obj w w'" "calm w \<longrightarrow> calm w'"
    "lock_list w' obj = filter (\<lambda>e. \<not> h e) (lock_list w obj) @ concat fs"
    "list_all2 (pieces_of (bytes lock)) (filter h (lock_list w obj)) fs"
proof -
  let ?xs = "lock_list w obj"
  have ok: "\<forall>e \<in> set ?xs. entry_ok sa e"
    using list_entry(4,5) [OF inv] sa by (auto simp: entry_ok_def)
  obtain w1 fs where L: "subtract_loop u owner sa st lock w [] [] [] False ?xs
      = Some (STATE_SUCCESS, w1, [] @ filter (\<lambda>e. \<not> h e) ?xs, [] @ concat fs,
              [] @ filter h ?xs, False \<or> (\<exists>e \<in> set ?xs. h e))"
    and fs: "list_all2 (pieces_of (bytes lock)) (filter h ?xs) fs"
    using subtract_loop_spec [OF lk ok, of u owner st w "[]" "[]" "[]" False] unfolding h_def by blast
  have inv': "refs_inv x (with_list obj w (?xs @ []))" using inv by simp
  from subtract_loop_world [OF lk L this order.refl]
  have W: "refs_inv x (with_list obj w1 (?xs @ concat fs))" "list_only obj w w1" "detached w1 = detached w"
    by simp_all
  have d: "distinct (?xs @ concat fs)" using ids_distinct [OF W(1)] unfolding distinct_map by (rule conjunct1)
  let ?w2 = "free_list (filter h ?xs) w1"
  have "filter (\<lambda>e. e \<notin> set (filter h ?xs)) (?xs @ concat fs) = filter (\<lambda>e. \<not> h e) ?xs @ concat fs"
    using d by (intro filter_removed) simp
  moreover have sub: "set (filter h ?xs) \<subseteq> set (?xs @ concat fs)" by auto
  moreover have "\<forall>e \<in> set (filter h ?xs). granted e" by (simp add: h_def matches_def)
  ultimately have F: "refs_inv x (with_list obj ?w2 (filter (\<lambda>e. \<not> h e) ?xs @ concat fs))" "list_only obj w1 ?w2"
    "calm w1 \<longrightarrow> calm ?w2"
    using free_list_world [OF W(1) sub] d by simp_all
  have cm: "calm w1 = calm w" "calm (with_list obj ?w2 xs) = calm ?w2" for xs by (simp_all add: calm_def W(3))
  have "subtract_lock_from_list u owner sa st lock obj w
      = Some (STATE_SUCCESS, \<exists>e \<in> set ?xs. h e, with_list obj ?w2 (filter (\<lambda>e. \<not> h e) ?xs @ concat fs))"
    using L by (simp add: subtract_lock_from_list_def with_list_def Let_def)
  then show thesis
    by (rule that) (use F W(2) fs list_only_trans [OF W(2) F(2)] in \<open>simp_all add: cm\<close>)
qed

end
