(* ===== verification/LockManager.thy ===== *)
theory LockManager
  imports BlockedLocks
begin

text \<open>
  The interface of the lock manager (SAL/state_lock.c, "Primary lock interface functions" and
  what follows): test, lock, unlock, cancel, the release of the locks of a rebooted NLM client,
  polling and upcalls for blocked locks, and the removal of all locks of a file.
\<close>

section \<open>Test and lock\<close>

type_synonym conflict_info = "(state_owner option \<times> fsal_lock_param) option"

text \<open>The out-parameters \<open>holder\<close> and \<open>conflict\<close> of the source are the returned value.\<close>

definition copy_conflict :: "sle \<Rightarrow> 'f sal \<Rightarrow> conflict_info \<times> 'f sal" where
  "copy_conflict found_entry w =
     (Some (sle_owner found_entry, sle_lock found_entry),
      case sle_owner found_entry of
        None \<Rightarrow> w
      | Some owner \<Rightarrow> w\<lparr>so_refcount := incr (so_refcount w) (so_ptr owner)\<rparr>)"

abbreviation fsal_conflict :: "(state_owner \<times> fsal_lock_param) option \<Rightarrow> conflict_info" where
  "fsal_conflict \<equiv> map_option (map_prod Some id)"

definition state_test ::
  "'f op_ctx \<Rightarrow> ptr \<Rightarrow> ptr option \<Rightarrow> state_owner option \<Rightarrow> fsal_lock_param \<Rightarrow> 'f sal
    \<Rightarrow> state_status \<times> conflict_info \<times> 'f sal" where
  "state_test cx obj state owner lock w =
     (case get_overlapping_entry (nsm_use_caller_name cx) (lock_list w obj) owner lock of
        Some found_entry \<Rightarrow>
          (let (info, w') = copy_conflict found_entry w in (STATE_LOCK_CONFLICT, info, w'))
      | None \<Rightarrow>
          (let (status, w', info) = do_lock_op cx obj state FSAL_OP_LOCKT owner lock True w
           in (status, fsal_conflict info, w')))"

text \<open>The search for an identical blocked request; the value is the status to return.\<close>

fun find_blocked_request ::
  "bool \<Rightarrow> ptr \<Rightarrow> state_owner option \<Rightarrow> state_blocking \<Rightarrow> fsal_lock_param \<Rightarrow> sle list
    \<Rightarrow> state_status option" where
  "find_blocked_request u exp owner blocking lock [] = None"
| "find_blocked_request u exp owner blocking lock (found_entry # rest) =
     (if different_owners u (sle_owner found_entry) owner
      then find_blocked_request u exp owner blocking lock rest
      else if sle_export found_entry \<noteq> exp then Some STATE_INVALID_ARGUMENT
      else if sle_blocked found_entry \<noteq> blocking
      then find_blocked_request u exp owner blocking lock rest
      else if different_lock (sle_lock found_entry) lock
      then find_blocked_request u exp owner blocking lock rest
      else Some STATE_LOCK_BLOCKED)"

text \<open>
  The scan of the lock list: the owner holds a lock through another export, a conflicting entry,
  an entry of the owner that covers the request, or nothing that decides the request.
\<close>

datatype scan_result =
  Scan_Export | Scan_Conflict sle | Scan_Existing sle | Scan_Done

fun lock_scan :: "bool \<Rightarrow> ptr \<Rightarrow> state_owner option \<Rightarrow> fsal_lock_param \<Rightarrow> sle list \<Rightarrow> scan_result" where
  "lock_scan u exp owner lock [] = Scan_Done"
| "lock_scan u exp owner lock (found_entry # rest) =
     (if sle_export found_entry \<noteq> exp \<and> \<not> different_owners u (sle_owner found_entry) owner
      then Scan_Export
      else if \<not> lock_reclaim lock
              \<and> lock_start lock \<le> lock_end (sle_lock found_entry)
              \<and> lock_start (sle_lock found_entry) \<le> lock_end lock
              \<and> (lock_type (sle_lock found_entry) = FSAL_LOCK_W \<or> lock_type lock = FSAL_LOCK_W)
              \<and> different_owners u (sle_owner found_entry) owner
      then Scan_Conflict found_entry
      else if lock_end lock \<le> lock_end (sle_lock found_entry)
              \<and> lock_start (sle_lock found_entry) \<le> lock_start lock
              \<and> lock_type (sle_lock found_entry) = lock_type lock
              \<and> (sle_blocked found_entry = STATE_NON_BLOCKING
                 \<or> sle_blocked found_entry = STATE_GRANTING)
              \<and> \<not> different_owners u (sle_owner found_entry) owner
      then Scan_Existing found_entry
      else lock_scan u exp owner lock rest)"

type_synonym 'f lock_result =
  "(state_status \<times> conflict_info \<times> state_block_data option \<times> 'f sal) option"

text \<open>
  What follows the scan when it does not decide the request: the new entry, the file system call,
  and the four ways to go on.  \<open>allow\<close> tells that the scan found no conflict.
\<close>

definition lock_proceed ::
  "'f op_ctx \<Rightarrow> ptr \<Rightarrow> state_owner \<Rightarrow> ptr option \<Rightarrow> state_blocking \<Rightarrow> state_block_data option
    \<Rightarrow> fsal_lock_param \<Rightarrow> bool \<Rightarrow> conflict_info \<Rightarrow> 'f sal \<Rightarrow> 'f lock_result" where
  "lock_proceed cx obj owner state blocking bdata lock allow info w =
     (let lock_op = (if blocking = STATE_NLM_BLOCKING then FSAL_OP_LOCKB else FSAL_OP_LOCK);
          (found_entry, w1) =
            create_state_lock_entry obj (ctx_export cx) STATE_NON_BLOCKING owner state lock w;
          async = fso_lock_support_async_block (fsal_export cx);
          (status, w2, fsal_info) =
            (if allow \<or> async then do_lock_op cx obj state lock_op (Some owner) lock allow w1
             else (STATE_LOCK_BLOCKED, w1, None));
          info' = (if fsal_info = None then info else fsal_conflict fsal_info)
      in if status = STATE_SUCCESS
         then do {
           let w3 = (if lock_list w2 obj = []
                     then w2\<lparr>obj_refcount := incr (obj_refcount w2) obj\<rparr> else w2);
           (e, w4) \<leftarrow> merge_lock_entry (nsm_use_caller_name cx) obj found_entry w3;
           w5 \<leftarrow> grant_blocked_locks cx obj
                  (w4\<lparr>lock_list := (lock_list w4)(obj := lock_list w4 obj @ [e])\<rparr>);
           Some (status, info', bdata, w5)
         }
         else if status = STATE_LOCK_CONFLICT
         then Some (status, info', bdata, remove_from_locklist found_entry w2)
         else if status = STATE_LOCK_BLOCKED
         then do {
           block_data \<leftarrow> bdata;
           let block_type = (if async then STATE_BLOCK_ASYNC
                             else if allow then STATE_BLOCK_POLL else STATE_BLOCK_INTERNAL);
           let e = found_entry\<lparr>sle_block_data := Some (block_data\<lparr>sbd_block_type := block_type\<rparr>),
                               sle_blocked := blocking\<rparr>;
           Some (status, info', None,
                 w2\<lparr>lock_list := (lock_list w2)(obj := lock_list w2 obj @ [e]),
                    state_blocked_locks := state_blocked_locks w2 @ [sle_id e]\<rparr>)
         }
         else Some (status, info', bdata, remove_from_locklist found_entry w2))"

definition state_lock ::
  "'f op_ctx \<Rightarrow> ptr \<Rightarrow> state_owner \<Rightarrow> ptr option \<Rightarrow> state_blocking \<Rightarrow> state_block_data option
    \<Rightarrow> fsal_lock_param \<Rightarrow> 'f sal \<Rightarrow> 'f lock_result" where
  "state_lock cx obj owner state blocking bdata lock w =
     (let u = nsm_use_caller_name cx;
          decided = (if blocking \<noteq> STATE_NON_BLOCKING
                     then find_blocked_request u (ctx_export cx) (Some owner) blocking lock
                            (lock_list w obj)
                     else None)
      in case decided of
           Some status \<Rightarrow> Some (status, None, bdata, w)
         | None \<Rightarrow>
             (case lock_scan u (ctx_export cx) (Some owner) lock (lock_list w obj) of
                Scan_Export \<Rightarrow> Some (STATE_INVALID_ARGUMENT, None, bdata, w)
              | Scan_Existing found_entry \<Rightarrow>
                  if sle_blocked found_entry = STATE_GRANTING
                  then map_option (\<lambda>w'. (STATE_SUCCESS, None, bdata, w'))
                         (grant_blocked_lock_immediate cx obj found_entry w)
                  else Some (STATE_SUCCESS, None, bdata, w)
              | Scan_Conflict found_entry \<Rightarrow>
                  if blocking = STATE_NLM_BLOCKING
                  then lock_proceed cx obj owner state blocking bdata lock False None w
                  else (let (info, w') = copy_conflict found_entry w
                        in Some (STATE_LOCK_CONFLICT, info, bdata, w'))
              | Scan_Done \<Rightarrow>
                  lock_proceed cx obj owner state blocking bdata lock True None w))"

section \<open>Unlock and cancel\<close>

definition state_unlock ::
  "'f op_ctx \<Rightarrow> ptr \<Rightarrow> ptr option \<Rightarrow> state_owner option \<Rightarrow> bool \<Rightarrow> u32 \<Rightarrow> fsal_lock_param \<Rightarrow> 'f sal
    \<Rightarrow> (state_status \<times> 'f sal) option" where
  "state_unlock cx obj state owner state_applies nsm_state lock w =
     (if \<not> obj_is_regular cx obj then Some (STATE_BAD_TYPE, w)
      else if lock_list w obj = [] then Some (STATE_SUCCESS, w)
      else do {
        w1 \<leftarrow> cancel_blocked_locks_range cx obj owner state_applies nsm_state lock w;
        (status, removed, w2) \<leftarrow> subtract_lock_from_list (nsm_use_caller_name cx) owner state_applies
                                   nsm_state lock obj w1;
        let w3 = (if lock_list w2 obj = []
                  then w2\<lparr>obj_refcount := decr (obj_refcount w2) obj\<rparr> else w2);
        if status \<noteq> STATE_SUCCESS then Some (status, w3)
        else do {
          let (status, w4, _) = do_lock_op cx obj state FSAL_OP_UNLOCK owner lock False w3;
          w5 \<leftarrow> grant_blocked_locks cx obj w4;
          Some (status, w5)
        }
      })"

fun cancel_target :: "bool \<Rightarrow> state_owner option \<Rightarrow> fsal_lock_param \<Rightarrow> sle list \<Rightarrow> sle option" where
  "cancel_target u owner lock [] = None"
| "cancel_target u owner lock (found_entry # rest) =
     (if different_owners u (sle_owner found_entry) owner then cancel_target u owner lock rest
      else if sle_blocked found_entry = STATE_NON_BLOCKING then cancel_target u owner lock rest
      else if different_lock (sle_lock found_entry) lock then cancel_target u owner lock rest
      else Some found_entry)"

definition state_cancel ::
  "'f op_ctx \<Rightarrow> ptr \<Rightarrow> state_owner option \<Rightarrow> fsal_lock_param \<Rightarrow> 'f sal
    \<Rightarrow> (state_status \<times> 'f sal) option" where
  "state_cancel cx obj owner lock w =
     (if \<not> obj_is_regular cx obj then Some (STATE_BAD_TYPE, w)
      else if lock_list w obj = [] then Some (STATE_SUCCESS, w)
      else (case cancel_target (nsm_use_caller_name cx) owner lock (lock_list w obj) of
              None \<Rightarrow> Some (STATE_SUCCESS, w)
            | Some found_entry \<Rightarrow> do {
                w1 \<leftarrow> cancel_blocked_lock cx obj found_entry w;
                w2 \<leftarrow> grant_blocked_locks cx obj w1;
                Some (STATE_SUCCESS, w2)
              }))"

section \<open>Client reboot\<close>

definition whole_file :: fsal_lock_param where
  "whole_file =
     \<lparr>lock_sle_type = FSAL_POSIX_LOCK, lock_type = FSAL_LOCK_R, lock_start = 0, lock_length = 0,
      lock_reclaim = False\<rparr>"

text \<open>
  The part of state_nlm_notify that removes the locks of a client: its first loop, and the return
  of the locks it retains to the list of the client.  \<open>newlocks\<close> collects the entries that belong
  to the current state of the client.  Errors are not counted, so the bound on
  the number of errors never stops the loop.
\<close>

partial_function (option) nlm_notify_locks ::
  "'f op_ctx \<Rightarrow> ptr \<Rightarrow> bool \<Rightarrow> u32 \<Rightarrow> state_status \<Rightarrow> ptr list \<Rightarrow> 'f sal
    \<Rightarrow> (state_status \<times> 'f sal) option" where
  "nlm_notify_locks cx nsmclient state_applies nsm_state status newlocks w =
     (case ssc_lock_list w nsmclient of
        [] \<Rightarrow> Some (status, w\<lparr>ssc_lock_list := (ssc_lock_list w)(nsmclient := newlocks)\<rparr>)
      | i # rest \<Rightarrow>
          (case entry_at i w of
             None \<Rightarrow> None
           | Some found_entry \<Rightarrow>
               (case (sle_state found_entry, sle_owner found_entry) of
                  (Some state, Some owner) \<Rightarrow>
                    if state_applies \<and> state_seqid w state = nsm_state
                    then nlm_notify_locks cx nsmclient state_applies nsm_state status
                           (newlocks @ [i]) (w\<lparr>ssc_lock_list := (ssc_lock_list w)(nsmclient := rest)\<rparr>)
                    else
                      let obj = sle_obj found_entry;
                          exp = sle_export found_entry;
                          w1 = w\<lparr>export_refcount := incr (export_refcount w) exp,
                                 so_refcount := incr (so_refcount w) (so_ptr owner),
                                 state_refcount := incr (state_refcount w) state,
                                 ssc_lock_list := (ssc_lock_list w)(nsmclient := rest @ [i])\<rparr>
                      in (case (if export_ready cx exp
                                then state_unlock (cx\<lparr>ctx_export := exp\<rparr>) obj (Some state)
                                       (Some owner) state_applies nsm_state whole_file w1
                                else Some (STATE_SUCCESS, w1)) of
                            None \<Rightarrow> None
                          | Some (status', w2) \<Rightarrow>
                              nlm_notify_locks cx nsmclient state_applies nsm_state status' newlocks
                                (w2\<lparr>so_refcount := decr (so_refcount w2) (so_ptr owner),
                                    obj_refcount := decr (obj_refcount w2) obj,
                                    export_refcount := decr (export_refcount w2) exp\<rparr>))
                | _ \<Rightarrow> None)))"

section \<open>Polling, upcalls and removal\<close>

definition set_grant_type :: "state_grant_type \<Rightarrow> sle \<Rightarrow> sle" where
  "set_grant_type t e =
     e\<lparr>sle_block_data := map_option (\<lambda>b. b\<lparr>sbd_grant_type := t\<rparr>) (sle_block_data e)\<rparr>"

fun poll_loop :: "'f op_ctx \<Rightarrow> ptr list \<Rightarrow> 'f sal \<Rightarrow> 'f sal option" where
  "poll_loop cx [] w = Some w"
| "poll_loop cx (i # is) w =
     (case entry_at i w of
        None \<Rightarrow> None
      | Some found_entry \<Rightarrow>
          (case sle_block_data found_entry of
             None \<Rightarrow> None
           | Some pblock \<Rightarrow>
               if sbd_block_type pblock \<noteq> STATE_BLOCK_POLL then poll_loop cx is w
               else poll_loop cx is
                      (snd (state_block_schedule cx i
                              (put_entry (set_grant_type STATE_GRANT_POLL found_entry) w)))))"

definition blocked_lock_polling :: "'f op_ctx \<Rightarrow> 'f sal \<Rightarrow> 'f sal option" where
  "blocked_lock_polling cx w = poll_loop cx (state_blocked_locks w) w"

text \<open>
  The search for the lock an upcall of the file system is about; the end of the list is fatal to
  the server, which is the value None here.
\<close>

fun upcall_loop ::
  "'f op_ctx \<Rightarrow> ptr \<Rightarrow> state_owner \<Rightarrow> fsal_lock_param \<Rightarrow> state_grant_type \<Rightarrow> ptr list
    \<Rightarrow> 'f sal \<Rightarrow> 'f sal option" where
  "upcall_loop cx obj owner lock grant_type [] w = None"
| "upcall_loop cx obj owner lock grant_type (i # is) w =
     (case entry_at i w of
        None \<Rightarrow> None
      | Some found_entry \<Rightarrow>
          if sle_obj found_entry \<noteq> obj then upcall_loop cx obj owner lock grant_type is w
          else if sle_owner found_entry \<noteq> Some owner
          then upcall_loop cx obj owner lock grant_type is w
          else if different_lock (sle_lock found_entry) lock
          then upcall_loop cx obj owner lock grant_type is w
          else Some (snd (state_block_schedule cx i
                            (put_entry (set_grant_type grant_type found_entry) w))))"

definition find_blocked_lock_upcall ::
  "'f op_ctx \<Rightarrow> ptr \<Rightarrow> state_owner \<Rightarrow> fsal_lock_param \<Rightarrow> state_grant_type \<Rightarrow> 'f sal
    \<Rightarrow> 'f sal option" where
  "find_blocked_lock_upcall cx obj owner lock grant_type w =
     upcall_loop cx obj owner lock grant_type (state_blocked_locks w) w"

definition grant_blocked_lock_upcall ::
  "'f op_ctx \<Rightarrow> ptr \<Rightarrow> state_owner \<Rightarrow> fsal_lock_param \<Rightarrow> 'f sal \<Rightarrow> 'f sal option" where
  "grant_blocked_lock_upcall cx obj owner lock w =
     find_blocked_lock_upcall cx obj owner lock STATE_GRANT_FSAL w"

definition available_blocked_lock_upcall ::
  "'f op_ctx \<Rightarrow> ptr \<Rightarrow> state_owner \<Rightarrow> fsal_lock_param \<Rightarrow> 'f sal \<Rightarrow> 'f sal option" where
  "available_blocked_lock_upcall cx obj owner lock w =
     find_blocked_lock_upcall cx obj owner lock STATE_GRANT_FSAL_AVAILABLE w"

definition state_lock_wipe :: "ptr \<Rightarrow> 'f sal \<Rightarrow> bool \<times> 'f sal" where
  "state_lock_wipe obj w =
     (if lock_list w obj = [] then (False, w) else (True, free_list (lock_list w obj) w))"

partial_function (option) cancel_all_nlm_blocked ::
  "'f op_ctx \<Rightarrow> 'f sal \<Rightarrow> 'f sal option" where
  "cancel_all_nlm_blocked cx w =
     (case state_blocked_locks w of
        [] \<Rightarrow> Some w
      | i # is \<Rightarrow>
          (case entry_at i w of
             None \<Rightarrow> None
           | Some found_entry \<Rightarrow>
               (let w1 = w\<lparr>state_blocked_locks := is\<rparr>;
                    (e1, w2) = lock_entry_inc_ref found_entry w1;
                    exp = sle_export e1;
                    w3 = w2\<lparr>export_refcount := incr (export_refcount w2) exp\<rparr>
                in case cancel_blocked_lock (cx\<lparr>ctx_export := exp\<rparr>) (sle_obj e1) e1 w3 of
                     None \<Rightarrow> None
                   | Some w4 \<Rightarrow>
                       (case entry_at i w4 of
                          None \<Rightarrow> None
                        | Some e4 \<Rightarrow>
                            (let w5 = lock_entry_dec_ref (e4\<lparr>sle_block_data := None\<rparr>) w4
                             in cancel_all_nlm_blocked cx
                                  (w5\<lparr>export_refcount := decr (export_refcount w5) exp\<rparr>))))))"

end
