(* ===== verification/Exclusion.thy ===== *)
theory Exclusion
  imports MergeInvariant LockManager
begin

text \<open>
  Mutual exclusion: no byte of a file is locked for writing by one owner while it is locked by
  another.  Merging, subtracting and granting keep this, because after each of them every byte an
  owner has locked was locked by that owner before, or was free of conflicts.
\<close>

section \<open>Active locks\<close>

definition active :: "sle \<Rightarrow> bool" where
  "active e \<longleftrightarrow> sle_blocked e = STATE_NON_BLOCKING \<or> sle_blocked e = STATE_GRANTING"

definition excl :: "bool \<Rightarrow> sle set \<Rightarrow> bool" where
  "excl u A \<longleftrightarrow>
     (\<forall>e \<in> A. \<forall>f \<in> A. active e \<longrightarrow> active f \<longrightarrow> sle_type e = FSAL_LOCK_W
        \<longrightarrow> different_owners u (sle_owner e) (sle_owner f) \<longrightarrow> sle_bytes e \<inter> sle_bytes f = {})"

definition same_owner :: "bool \<Rightarrow> state_owner option \<Rightarrow> state_owner option \<Rightarrow> bool" where
  "same_owner u p q \<longleftrightarrow> p = q \<or> \<not> different_owners u p q"

lemma same_owner_refl [simp]: "same_owner u p p"
  by (simp add: same_owner_def)

lemma same_owner_sym: "same_owner u p q \<Longrightarrow> same_owner u q p"
  by (auto simp: same_owner_def different_owners_sym)

lemma same_owner_trans: "same_owner u p q \<Longrightarrow> same_owner u q r \<Longrightarrow> same_owner u p r"
  unfolding same_owner_def using different_owners_trans by blast

lemma different_same:
  assumes "different_owners u p q" and "same_owner u p' p" and "same_owner u q' q"
  shows "different_owners u p' q'"
proof (rule ccontr)
  assume "\<not> different_owners u p' q'"
  then have q: "same_owner u p' q'" "p' \<noteq> None"
    using own.same_not_NULL [of u p' q'] by (simp_all add: same_owner_def)
  have pq: "same_owner u p q"
    by (rule same_owner_trans [OF same_owner_sym [OF assms(2)] same_owner_trans [OF q(1) assms(3)]])
  have "p \<noteq> None" using q(2) assms(2) own.same_not_NULL [of u p' p] by (auto simp: same_owner_def)
  then show False using pq assms(1) own.differ_refl [of u] by (auto simp: same_owner_def)
qed

definition below :: "bool \<Rightarrow> sle set \<Rightarrow> sle set \<Rightarrow> bool" where
  "below u B A \<longleftrightarrow>
     (\<forall>y \<in> B. active y \<longrightarrow> (\<forall>b \<in> sle_bytes y. \<exists>x \<in> A. active x \<and> same_owner u (sle_owner x) (sle_owner y)
        \<and> sle_type x = sle_type y \<and> b \<in> sle_bytes x))"

lemma below_excl:
  assumes "below u B A" and "excl u A"
  shows "excl u B"
  unfolding excl_def
proof (intro ballI impI equals0I)
  fix e f b
  assume *: "e \<in> B" "f \<in> B" "active e" "active f" "sle_type e = FSAL_LOCK_W"
    "different_owners u (sle_owner e) (sle_owner f)" "b \<in> sle_bytes e \<inter> sle_bytes f"
  obtain x where x: "x \<in> A" "active x" "same_owner u (sle_owner x) (sle_owner e)" "sle_type x = FSAL_LOCK_W"
    "b \<in> sle_bytes x"
    using assms(1) * unfolding below_def by (metis IntD1)
  obtain y where y: "y \<in> A" "active y" "same_owner u (sle_owner y) (sle_owner f)" "b \<in> sle_bytes y"
    using assms(1) * unfolding below_def by (metis IntD2)
  have "different_owners u (sle_owner x) (sle_owner y)"
    by (rule different_same [OF *(6) x(3) y(3)])
  with assms(2) x y show False unfolding excl_def by blast
qed

lemma below_mono: "B \<subseteq> A \<Longrightarrow> below u B A"
  unfolding below_def by (intro ballI impI bexI conjI) auto

lemma below_trans: "below u C B \<Longrightarrow> below u B A \<Longrightarrow> below u C A"
  unfolding below_def
proof (intro ballI impI)
  fix z b
  assume C: "\<forall>y\<in>C. active y \<longrightarrow> (\<forall>b\<in>sle_bytes y. \<exists>x\<in>B. active x \<and> same_owner u (sle_owner x) (sle_owner y)
      \<and> sle_type x = sle_type y \<and> b \<in> sle_bytes x)"
    and B: "\<forall>y\<in>B. active y \<longrightarrow> (\<forall>b\<in>sle_bytes y. \<exists>x\<in>A. active x \<and> same_owner u (sle_owner x) (sle_owner y)
      \<and> sle_type x = sle_type y \<and> b \<in> sle_bytes x)"
    and z: "z \<in> C" "active z" "b \<in> sle_bytes z"
  from C z obtain y where y: "y \<in> B" "active y" "same_owner u (sle_owner y) (sle_owner z)"
    "sle_type y = sle_type z" "b \<in> sle_bytes y" by blast
  with B obtain x where "x \<in> A" "active x" "same_owner u (sle_owner x) (sle_owner y)"
    "sle_type x = sle_type y" "b \<in> sle_bytes x" by blast
  with y same_owner_trans show "\<exists>x\<in>A. active x \<and> same_owner u (sle_owner x) (sle_owner z)
      \<and> sle_type x = sle_type z \<and> b \<in> sle_bytes x" by metis
qed

lemma below_Un: "below u (B \<union> C) A \<longleftrightarrow> below u B A \<and> below u C A"
  unfolding below_def by blast

lemma below_mono_right: "below u B A \<Longrightarrow> A \<subseteq> A' \<Longrightarrow> below u B A'"
  unfolding below_def by blast

lemma below_part:
  "(active y \<Longrightarrow> active c) \<Longrightarrow> same_owner u (sle_owner c) (sle_owner y) \<Longrightarrow> sle_type y = sle_type c
     \<Longrightarrow> sle_bytes y \<subseteq> sle_bytes c \<Longrightarrow> c \<in> A \<Longrightarrow> below u {y} A"
  unfolding below_def by auto

lemma excl_subset: "excl u A \<Longrightarrow> B \<subseteq> A \<Longrightarrow> excl u B"
  using below_mono below_excl by blast

lemma excl_erase [simp]: "excl u (erase ` A) = excl u A"
  by (simp add: excl_def active_def)

lemma excl_insert:
  assumes "excl u A"
    and "\<And>f. f \<in> A \<Longrightarrow> active f \<Longrightarrow> active e \<Longrightarrow> sle_type e = FSAL_LOCK_W \<or> sle_type f = FSAL_LOCK_W
      \<Longrightarrow> different_owners u (sle_owner e) (sle_owner f) \<Longrightarrow> sle_bytes e \<inter> sle_bytes f = {}"
    and "sle_owner e \<noteq> None"
  shows "excl u (insert e A)"
proof -
  have "\<not> different_owners u (sle_owner e) (sle_owner e)" using assms(3) by (auto simp: different_owners_def)
  moreover have "sle_bytes f \<inter> sle_bytes e = {}"
    if "f \<in> A" "active f" "active e" "sle_type f = FSAL_LOCK_W" "different_owners u (sle_owner f) (sle_owner e)" for f
    using assms(2) [OF that(1-3)] that(4,5) different_owners_sym [of u "sle_owner e"] by blast
  ultimately show ?thesis
    using assms(1,2) unfolding excl_def by (intro ballI impI) (elim insertE, auto)
qed

lemma below_step:
  assumes "below u B C" and "D \<subseteq> B \<union> A" and "C \<subseteq> A"
  shows "below u D A"
proof -
  have "below u (B \<union> A) A"
    using below_mono_right [OF assms(1,3)] below_mono [of A A] by (simp add: below_Un)
  with below_mono [OF assms(2)] show ?thesis by (rule below_trans)
qed

section \<open>Merging\<close>

lemma active_simps [simp]:
  "active (e\<lparr>sle_lock := k\<rparr>) = active e" "active (e\<lparr>sle_block_data := d\<rparr>) = active e"
  "active (e\<lparr>sle_ref_count := n\<rparr>) = active e" "active (erase e) = active e"
  by (simp_all add: active_def erase_def)

definition merge_below :: "bool \<Rightarrow> sle \<Rightarrow> sle set \<Rightarrow> 'f sal \<Rightarrow> sle \<Rightarrow> sle list \<Rightarrow> sle list \<Rightarrow> bool" where
  "merge_below u lock A w lk dn pend \<longleftrightarrow>
     below u (insert lk (set dn \<union> set pend)) (insert lock A)
     \<and> range_ok (sle_lock lk) \<and> (\<forall>e \<in> set dn \<union> set pend. range_ok (sle_lock e))"

lemma below_shrunk:
  "sle_owner d = sle_owner c \<Longrightarrow> sle_blocked d = sle_blocked c \<Longrightarrow> lock_type k = sle_type c
     \<Longrightarrow> bytes k \<subseteq> sle_bytes c \<Longrightarrow> below u {d\<lparr>sle_lock := k\<rparr>} {c}"
  by (rule below_part [of _ c]) (simp_all add: active_def)

lemma merge_keep_below:
  assumes ok: "range_ok (sle_lock c)" "range_ok (sle_lock lk)" and st: "merge_step u lk c = Keep e"
  shows "below u {e} {c}"
proof (cases "mergeable u lk c")
  case True
  from True ok show ?thesis
  proof (cases rule: merge_step_cases)
    case Wrap
    then show ?thesis using st by (simp add: below_mono)
  next
    case (Keep l)
    then have "e = c\<lparr>sle_lock := l\<rparr>" using st by simp
    with Keep below_shrunk [of c c l u] show ?thesis by simp
  qed (use st in simp_all)
qed (use st in \<open>simp add: merge_step_not_mergeable below_mono\<close>)

lemma merge_split_below:
  assumes ok: "range_ok (sle_lock c)" "range_ok (sle_lock lk)" and st: "merge_step u lk c = Split l r"
  shows "below u {l} {c}"
    and "sle_owner d = sle_owner c \<Longrightarrow> sle_blocked d = sle_blocked c \<Longrightarrow> below u {d\<lparr>sle_lock := r\<rparr>} {c}"
proof -
  have m: "mergeable u lk c" using st merge_step_not_mergeable by fastforce
  obtain k where k: "l = c\<lparr>sle_lock := k\<rparr>" "lock_type k = sle_type c" "lock_type r = sle_type c"
    "bytes k \<union> bytes r = sle_bytes c - sle_bytes lk"
    using m ok
  proof (cases rule: merge_step_cases)
    case (Split l' r')
    then show thesis using st that [of l'] by simp
  qed (use st in simp_all)
  then have b: "bytes k \<subseteq> sle_bytes c" "bytes r \<subseteq> sle_bytes c" by auto
  show "below u {l} {c}" using below_shrunk [of c c k u] k b by simp
  show "below u {d\<lparr>sle_lock := r\<rparr>} {c}" if "sle_owner d = sle_owner c" "sle_blocked d = sle_blocked c"
    using below_shrunk [OF that k(3) b(2)] .
qed

lemma merge_absorb_below:
  assumes ok: "range_ok (sle_lock c)" "range_ok (sle_lock lk)" and st: "merge_step u lk c = Absorb lk2"
  shows "below u {lk2} {lk, c}"
proof -
  have m: "mergeable u lk c" using st merge_step_not_mergeable by fastforce
  then have c: "active c" "same_owner u (sle_owner c) (sle_owner lk)"
    by (simp_all add: mergeable_def granted_def active_def same_owner_def)
  obtain k where k: "lk2 = lk\<lparr>sle_lock := k\<rparr>" "lock_type k = sle_type lk" "bytes k = sle_bytes lk \<union> sle_bytes c"
    "sle_type c = sle_type lk \<or> sle_bytes c \<subseteq> sle_bytes lk"
    using m ok
  proof (cases rule: merge_step_cases)
    case (Absorb l')
    then show thesis using st that [of l'] by simp
  qed (use st in simp_all)
  show ?thesis
    unfolding below_def
  proof (intro ballI impI)
    fix y b
    assume "y \<in> {lk2}" "active y" "b \<in> sle_bytes y"
    then have y: "y = lk2" "active lk" "b \<in> sle_bytes lk \<or> b \<in> sle_bytes c \<and> sle_type c = sle_type lk"
      using k by auto
    from y(3) show "\<exists>x\<in>{lk, c}. active x \<and> same_owner u (sle_owner x) (sle_owner y) \<and> sle_type x = sle_type y
        \<and> b \<in> sle_bytes x"
      using y(1,2) c k(1,2) by auto
  qed
qed

lemma merge_loop_below:
  assumes run: "merge_loop u w lock [] xs = Some (w', lock', xs')"
    and ok: "range_ok (sle_lock lock)" "\<forall>e \<in> set xs. range_ok (sle_lock e)"
  shows "below u (insert lock' (set xs')) (insert lock (set xs))"
proof -
  let ?P = "merge_below u lock (set xs)"
  have start: "?P w lock [] xs" using ok by (simp add: merge_below_def below_mono)
  have keep: "?P w lk (dn @ [e]) rest"
    if P: "?P w lk dn (c # rest)" and st: "merge_step u lk c = Keep e" for w lk dn c rest e
  proof -
    have ok: "range_ok (sle_lock c)" "range_ok (sle_lock lk)" using P by (simp_all add: merge_below_def)
    have "below u (insert lk (set dn \<union> insert e (set rest))) (insert lk (set dn \<union> insert c (set rest)))"
      using merge_keep_below [OF ok st] by (rule below_step) auto
    from below_trans [OF this] show ?thesis
      using P merge_step_ranges(1) [OF ok st] by (auto simp: merge_below_def)
  qed
  have split: "?P w1 lk (dn @ [l]) (rest @ [d\<lparr>sle_lock := r\<rparr>])"
    if P: "?P w lk dn (c # rest)" and st: "merge_step u lk c = Split l r"
      and d: "state_lock_entry_t_dup c w = Some (d, w1)" for w lk dn c rest l r d w1
  proof -
    have ok: "range_ok (sle_lock c)" "range_ok (sle_lock lk)" using P by (simp_all add: merge_below_def)
    have "sle_owner d = sle_owner c" "sle_blocked d = sle_blocked c" using dup_simps [OF d] by simp_all
    with merge_split_below [OF ok st] have "below u ({l} \<union> {d\<lparr>sle_lock := r\<rparr>}) {c}"
      by (simp only: below_Un)
    then have "below u (insert lk (set dn \<union> insert l (set rest \<union> {d\<lparr>sle_lock := r\<rparr>})))
        (insert lk (set dn \<union> insert c (set rest)))"
      by (rule below_step) auto
    from below_trans [OF this] show ?thesis
      using P merge_step_ranges(2) [OF ok st] by (auto simp: merge_below_def insert_commute)
  qed
  have "?P w' lock' xs' []"
  proof (rule merge_loop_invariant [where P = ?P, OF run start])
    show "?P w1 lk (dn @ [l, d\<lparr>sle_lock := r\<rparr>]) []"
      if "?P w lk dn [c]" "merge_step u lk c = Split l r" "state_lock_entry_t_dup c w = Some (d, w1)"
      for w lk dn c l r d w1
      using split [OF that] by (simp add: merge_below_def Un_commute insert_commute)
    show "?P (remove_from_locklist c w) lk2 dn rest"
      if P: "?P w lk dn (c # rest)" and st: "merge_step u lk c = Absorb lk2" for w lk dn c rest lk2
    proof -
      have ok: "range_ok (sle_lock c)" "range_ok (sle_lock lk)" using P by (simp_all add: merge_below_def)
      have "below u (insert lk2 (set dn \<union> set rest)) (insert lk (set dn \<union> insert c (set rest)))"
        using merge_absorb_below [OF ok st] by (rule below_step) auto
      from below_trans [OF this] show ?thesis
        using P merge_step_ranges(3) [OF ok st] by (auto simp: merge_below_def)
    qed
  qed (rule keep split; assumption)+
  then show ?thesis by (simp add: merge_below_def)
qed

lemma merge_lock_below:
  assumes run: "merge_lock_entry u obj lock w = Some (lock', w')"
    and ok: "range_ok (sle_lock lock)" "\<forall>e \<in> set (lock_list w obj). range_ok (sle_lock e)"
  shows "below u (insert lock' (set (lock_list w' obj))) (insert lock (set (lock_list w obj)))"
proof -
  obtain w1 xs where r: "merge_loop u w lock [] (lock_list w obj) = Some (w1, lock', xs)"
    "lock_list w' obj = replace_entry lock' xs"
    using run by (auto simp: merge_lock_entry_def replace_entry_def split: option.splits)
  have "insert lock' (set (lock_list w' obj)) \<subseteq> insert lock' (set xs)"
    by (auto simp: r(2) replace_entry_def)
  from below_trans [OF below_mono [OF this] merge_loop_below [OF r(1) ok]] show ?thesis .
qed

lemma merge_grows:
  fixes w :: "'f sal"
  assumes run: "merge_lock_entry u obj lock w = Some (lock', w')"
    and ok: "range_ok (sle_lock lock)" "\<forall>e \<in> set (lock_list w obj). range_ok (sle_lock e)"
  shows "sle_bytes lock \<subseteq> sle_bytes lock' \<and> sle_type lock' = sle_type lock"
proof -
  obtain w1 xs where r: "merge_loop u w lock [] (lock_list w obj) = Some (w1, lock', xs)"
    using run by (auto simp: merge_lock_entry_def split: option.splits)
  define P where "P = (\<lambda>(w :: 'f sal) (lk :: sle) (dn :: sle list) (pend :: sle list). sle_bytes lock \<subseteq> sle_bytes lk
      \<and> sle_type lk = sle_type lock \<and> range_ok (sle_lock lk) \<and> (\<forall>e \<in> set pend. range_ok (sle_lock e)))"
  have split: "P w1 lk (dn @ [l]) (rest @ [d\<lparr>sle_lock := r\<rparr>])"
    if "P w lk dn (c # rest)" "merge_step u lk c = Split l r" for w w1 lk dn c rest l r d
  proof -
    have "range_ok (sle_lock c)" "range_ok (sle_lock lk)" using that(1) by (simp_all add: P_def)
    from merge_step_ranges(2) [OF this that(2)] that(1) show ?thesis by (simp add: P_def)
  qed
  have "P w1 lock' xs []"
  proof (rule merge_loop_invariant [where P = P, OF r])
    show "P w lock [] (lock_list w obj)" using ok by (simp add: P_def)
    show "P w lk (dn @ [e]) rest" if "P w lk dn (c # rest)" "merge_step u lk c = Keep e" for w lk dn c rest e
      using that(1) by (simp add: P_def)
    show "P (remove_from_locklist c w) lk2 dn rest"
      if H: "P w lk dn (c # rest)" and st: "merge_step u lk c = Absorb lk2" for w lk dn c rest lk2
    proof -
      have m: "mergeable u lk c" using st merge_step_not_mergeable by fastforce
      have c: "range_ok (sle_lock c)" "range_ok (sle_lock lk)" using H by (simp_all add: P_def)
      from m c obtain l where "lk2 = lk\<lparr>sle_lock := l\<rparr>" "range_ok l" "lock_type l = sle_type lk"
        "bytes l = sle_bytes lk \<union> sle_bytes c"
        by (cases rule: merge_step_cases) (use st in simp_all)
      with H show ?thesis by (auto simp: P_def)
    qed
    show "P w1 lk (dn @ [l, d\<lparr>sle_lock := r\<rparr>]) []"
      if "P w lk dn [c]" "merge_step u lk c = Split l r" for w w1 lk dn c l r d
      using split [OF that] by (simp add: P_def)
  qed (rule split)
  then show ?thesis by (simp add: P_def)
qed

section \<open>Conflicts\<close>

lemma active_iff:
  "active e \<longleftrightarrow> sle_blocked e \<noteq> STATE_NLM_BLOCKING \<and> sle_blocked e \<noteq> STATE_NFSV4_BLOCKING
     \<and> sle_blocked e \<noteq> STATE_CANCELED"
  by (cases "sle_blocked e") (simp_all add: active_def)

definition conflicts :: "bool \<Rightarrow> state_owner option \<Rightarrow> fsal_lock_param \<Rightarrow> sle \<Rightarrow> bool" where
  "conflicts u owner lock e \<longleftrightarrow>
     active e \<and> (sle_type e = FSAL_LOCK_W \<or> lock_type lock = FSAL_LOCK_W)
     \<and> different_owners u (sle_owner e) owner \<and> sle_bytes e \<inter> bytes lock \<noteq> {}"

lemma get_overlapping_find:
  assumes "range_ok lock" and "\<forall>e \<in> set xs. range_ok (sle_lock e)"
  shows "get_overlapping_entry u xs owner lock = List.find (conflicts u owner lock) xs"
  using assms(2)
proof (induction xs)
  case (Cons e xs)
  then have "sle_bytes e \<inter> bytes lock \<noteq> {} \<longleftrightarrow>
      lock_start lock \<le> lock_end (sle_lock e) \<and> lock_start (sle_lock e) \<le> lock_end lock"
    using assms(1) by (intro bytes_overlap_iff) simp_all
  with Cons show ?case by (auto simp: conflicts_def active_iff)
qed simp

section \<open>Steps that keep the locks exclusive\<close>

definition safe :: "(ptr \<Rightarrow> nat) \<Rightarrow> bool \<Rightarrow> ptr \<Rightarrow> 'f sal \<Rightarrow> 'f sal \<Rightarrow> bool" where
  "safe x u obj w w' \<longleftrightarrow>
     frame obj w w' \<and> (excl u (set (lock_list w obj)) \<longrightarrow> excl u (set (lock_list w' obj)))
     \<and> waits (lock_list w' obj) \<subseteq> waits (lock_list w obj) \<and> (idle x obj w \<longrightarrow> calm w \<longrightarrow> calm w')"

lemma safe_refl [simp]: "safe x u obj w w"
  by (simp add: safe_def)

lemma safe_trans: "safe x u obj w w1 \<Longrightarrow> safe x u obj w1 w2 \<Longrightarrow> safe x u obj w w2"
  unfolding safe_def idle_waits by (meson frame_trans order_trans subsetD)

lemma view_set: "set (view w obj) = erase ` set (lock_list w obj)"
  by (simp add: view_def)

lemma view_waits: "waits (view w obj) = waits (lock_list w obj)"
proof -
  have "waits (map erase xs) = waits xs" for xs by (induction xs) auto
  then show ?thesis by (simp add: view_def)
qed

lemma safeI_view:
  assumes "view w' obj = view w obj" and "frame obj w w'" and "calm w \<Longrightarrow> calm w'"
  shows "safe x u obj w w'"
proof -
  have "excl u (set (lock_list w' obj)) = excl u (set (lock_list w obj))"
    using excl_erase [of u "set (lock_list w obj)"] excl_erase [of u "set (lock_list w' obj)"]
      view_set [of w obj] view_set [of w' obj] assms(1) by metis
  moreover have "waits (lock_list w' obj) = waits (lock_list w obj)"
    using view_waits [of w obj] view_waits [of w' obj] assms(1) by metis
  ultimately show ?thesis using assms(2,3) unfolding safe_def by simp
qed

lemma safe_core:
  assumes C: "core w' = core w"
  shows "safe x u obj w w'"
  by (rule safeI_view) (simp_all add: view_core [OF C] frame_core [OF C] calm_core [OF C])

lemma safe_core_right: "core w2 = core w1 \<Longrightarrow> safe x u obj w w1 \<Longrightarrow> safe x u obj w w2"
  using safe_core safe_trans by blast

lemma put_safe:
  assumes inv: "refs_inv x w" and e: "e \<in> set (lock_list w obj)"
    and e': "sle_id e' = sle_id e" "sle_obj e' = obj" "sle_owner e' = sle_owner e" "sle_lock e' = sle_lock e"
      "active e' \<Longrightarrow> active e" "waiting e' \<Longrightarrow> waiting e"
  shows "safe y u obj w (put_entry e' w)"
proof -
  note C = core_sel [OF put_entry_list [OF inv e e'(1,2)]]
  have S: "set (lock_list (put_entry e' w) obj) = insert e' {y \<in> set (lock_list w obj). sle_id y \<noteq> sle_id e}"
    using C(3) set_replace_entry [OF e e'(1)] by simp
  have "below u {e'} {e}" by (rule below_part [of _ e]) (use e' in simp_all)
  then have "below u (set (lock_list (put_entry e' w) obj)) (set (lock_list w obj))"
    by (rule below_step) (use S e in auto)
  moreover have "waits (lock_list (put_entry e' w) obj) \<subseteq> waits (lock_list w obj)"
    unfolding waits_def S using e e'(1,6) by auto
  moreover have "calm (put_entry e' w) = calm w" by (simp add: calm_def C)
  ultimately show ?thesis
    using put_view(2) [OF inv e e'(1,2)] below_excl unfolding safe_def by blast
qed

lemma remove_safe:
  assumes inv: "refs_inv x w" and e: "e \<in> set (lock_list w obj)" and ng: "sle_blocked e \<noteq> STATE_GRANTING"
  shows "safe y u obj w (remove_from_locklist e w)"
proof -
  note C = core_sel [OF remove_core [OF inv e]]
  have S: "set (lock_list (remove_from_locklist e w) obj) \<subseteq> set (lock_list w obj)"
    by (auto simp: C in_others)
  then have "waits (lock_list (remove_from_locklist e w) obj) \<subseteq> waits (lock_list w obj)"
    unfolding waits_def by blast
  moreover have "calm w \<Longrightarrow> calm (remove_from_locklist e w)" using ng by (auto simp: calm_def C)
  ultimately show ?thesis
    using remove_view(2) [OF inv e] excl_subset [OF _ S] unfolding safe_def by blast
qed

section \<open>Granting\<close>

lemma grant_step_excl:
  assumes "grant_step u xs ys" and ok: "\<forall>e \<in> set xs. range_ok (sle_lock e) \<and> sle_owner e \<noteq> None"
  shows "(excl u (set xs) \<longrightarrow> excl u (set ys)) \<and> waits ys \<subseteq> waits xs
    \<and> (\<forall>e \<in> set ys. range_ok (sle_lock e) \<and> sle_owner e \<noteq> None)"
  using assms(1)
proof cases
  case (drop e)
  have "set ys \<subseteq> set xs" by (auto simp: drop in_others)
  with ok show ?thesis using excl_subset unfolding waits_def by blast
next
  case (grant e)
  let ?e = "e\<lparr>sle_blocked := STATE_GRANTING\<rparr>"
  have e: "e \<in> set xs" "waiting e" "List.find (conflicts u (sle_owner e) (sle_lock e)) xs = None"
    using grant(2) get_overlapping_find [of "sle_lock e" xs u "sle_owner e"] ok
    by (auto simp: grantable_def)
  have S: "set ys = insert ?e {y \<in> set xs. sle_id y \<noteq> sle_id e}"
    unfolding grant(1) by (rule set_replace_entry [OF e(1)]) simp
  have "excl u (insert ?e (set xs))" if "excl u (set xs)"
    using that
  proof (rule excl_insert)
    fix f
    assume f: "f \<in> set xs" "active f" "sle_type ?e = FSAL_LOCK_W \<or> sle_type f = FSAL_LOCK_W"
      "different_owners u (sle_owner ?e) (sle_owner f)"
    have "\<not> conflicts u (sle_owner e) (sle_lock e) f" using e(3) f(1) by (simp add: find_None_iff)
    with f show "sle_bytes ?e \<inter> sle_bytes f = {}"
      using different_owners_sym [of u "sle_owner e"] by (auto simp: conflicts_def)
  qed (use ok e in simp)
  moreover have "set ys \<subseteq> insert ?e (set xs)" using S by auto
  ultimately have "excl u (set xs) \<longrightarrow> excl u (set ys)" using excl_subset by blast
  moreover have "waits ys \<subseteq> waits xs" unfolding waits_def S by auto
  moreover have "\<forall>e \<in> set ys. range_ok (sle_lock e) \<and> sle_owner e \<noteq> None" using ok e(1) S by simp
  ultimately show ?thesis by simp
qed

lemma grant_steps_excl:
  assumes "(grant_step u)\<^sup>*\<^sup>* xs ys" and "\<forall>e \<in> set xs. range_ok (sle_lock e) \<and> sle_owner e \<noteq> None"
  shows "(excl u (set xs) \<longrightarrow> excl u (set ys)) \<and> waits ys \<subseteq> waits xs
    \<and> (\<forall>e \<in> set ys. range_ok (sle_lock e) \<and> sle_owner e \<noteq> None)"
  using assms(1)
proof (induction rule: rtranclp_induct)
  case base
  show ?case using assms(2) by simp
next
  case (step ys zs)
  then show ?case using grant_step_excl [OF step(2)] by blast
qed

lemma grants_safe:
  assumes inv: "refs_inv x w" and ok: "async_submit_ok cx"
  obtains w' where "grant_blocked_locks cx obj w = Some w'" "refs_inv x w'"
    "safe x (nsm_use_caller_name cx) obj w w'"
proof -
  let ?u = "nsm_use_caller_name cx"
  obtain w' where g: "grant_blocked_locks cx obj w = Some w'" "refs_inv x w'" "frame obj w w'"
    "(grant_step ?u)\<^sup>*\<^sup>* (view w obj) (view w' obj)" "idle x obj w \<longrightarrow> calm w \<longrightarrow> calm w'"
    by (rule grant_blocked_locks_ok [OF inv ok, of obj])
  have "\<forall>e \<in> set (view w obj). range_ok (sle_lock e) \<and> sle_owner e \<noteq> None"
    using list_entry(4,5) [OF inv] by (auto simp: view_def)
  from grant_steps_excl [OF g(4) this] have "safe x ?u obj w w'"
    using g(3,5) unfolding safe_def view_waits view_set excl_erase by blast
  with g(1,2) that show thesis by blast
qed

text \<open>Granting leaves the other entries alone.\<close>

lemma grant_step_keeps:
  assumes "grant_step u xs ys" and d: "distinct (map sle_id xs)"
  shows "distinct (map sle_id ys) \<and> (\<forall>y \<in> set xs. \<not> waiting y \<longrightarrow> y \<in> set ys)
    \<and> (\<forall>y \<in> set ys. granted y \<longrightarrow> y \<in> set xs)"
proof -
  have ne: "sle_id y \<noteq> sle_id e" if "e \<in> set xs" "waiting e" "y \<in> set xs" "\<not> waiting y" for e y
    using d that by (metis distinct_map inj_onD)
  from assms(1) show ?thesis
  proof cases
    case (drop e)
    then show ?thesis
      using d ne by (auto simp: grantable_def in_others others_def distinct_map_filter)
  next
    case (grant e)
    then have e: "e \<in> set xs" "waiting e" by (simp_all add: grantable_def)
    have "set ys = insert (e\<lparr>sle_blocked := STATE_GRANTING\<rparr>) {y \<in> set xs. sle_id y \<noteq> sle_id e}"
      unfolding grant(1) by (rule set_replace_entry [OF e(1)]) simp
    then show ?thesis using d ne [OF e] by (auto simp: grant(1) granted_def)
  qed
qed

lemma grant_steps_keep:
  assumes "(grant_step u)\<^sup>*\<^sup>* xs ys" and d: "distinct (map sle_id xs)"
  shows "distinct (map sle_id ys) \<and> (\<forall>y \<in> set xs. \<not> waiting y \<longrightarrow> y \<in> set ys)
    \<and> (\<forall>y \<in> set ys. granted y \<longrightarrow> y \<in> set xs)"
  using assms(1)
proof (induction rule: rtranclp_induct)
  case (step ys zs)
  then show ?case using grant_step_keeps [OF step(2)] by blast
qed (use d in simp)

lemma grants_keep:
  assumes inv: "refs_inv x w" and ok: "async_submit_ok cx" and g: "grant_blocked_locks cx obj w = Some w'"
  shows "y \<in> set (lock_list w obj) \<Longrightarrow> \<not> waiting y \<Longrightarrow> \<exists>z \<in> set (lock_list w' obj). erase z = erase y"
    and "z \<in> set (lock_list w' obj) \<Longrightarrow> granted z \<Longrightarrow> \<exists>y \<in> set (lock_list w obj). erase y = erase z"
proof -
  have st: "(grant_step (nsm_use_caller_name cx))\<^sup>*\<^sup>* (view w obj) (view w' obj)"
    using grant_blocked_locks_ok [OF inv ok, of obj] g by (metis option.inject)
  note K = grant_steps_keep [OF st view_distinct [OF inv]]
  show "\<exists>z \<in> set (lock_list w' obj). erase z = erase y"
    if "y \<in> set (lock_list w obj)" "\<not> waiting y"
  proof -
    have "erase y \<in> set (view w' obj)" using K in_view [OF that(1)] that(2) by simp
    then show ?thesis by (auto simp: view_def)
  qed
  show "\<exists>y \<in> set (lock_list w obj). erase y = erase z"
    if "z \<in> set (lock_list w' obj)" "granted z"
  proof -
    have "erase z \<in> set (view w obj)" using K in_view [OF that(1)] that(2) by (simp add: granted_def)
    then show ?thesis by (auto simp: view_def)
  qed
qed

text \<open>An active entry that has at least the bytes of a given one.\<close>

definition kept :: "sle \<Rightarrow> sle list \<Rightarrow> bool" where
  "kept e xs \<longleftrightarrow>
     (\<exists>z \<in> set xs. active z \<and> sle_owner z = sle_owner e \<and> sle_type z = sle_type e \<and> sle_bytes e \<subseteq> sle_bytes z)"

lemma kept_erase: "erase e = erase d \<Longrightarrow> kept e xs = kept d xs"
  unfolding kept_def by (metis erase_sel(2,5))

lemma kept_in: "z \<in> set xs \<Longrightarrow> active z \<Longrightarrow> erase z = erase e \<Longrightarrow> kept e xs"
  unfolding kept_def by (metis erase_sel(2,5) subset_refl)

lemma kept_grants:
  assumes "refs_inv x w" and "async_submit_ok cx" and "grant_blocked_locks cx obj w = Some w'"
    and "kept e (lock_list w obj)"
  shows "kept e (lock_list w' obj)"
proof -
  obtain y where y: "y \<in> set (lock_list w obj)" "active y" "sle_owner y = sle_owner e" "sle_type y = sle_type e"
    "sle_bytes e \<subseteq> sle_bytes y"
    using assms(4) unfolding kept_def by blast
  have "\<not> waiting y" using y(2) by (auto simp: active_def waiting_def)
  then obtain z where z: "z \<in> set (lock_list w' obj)" "erase z = erase y"
    using grants_keep(1) [OF assms(1-3) y(1)] by blast
  have "active z = active y" "sle_owner z = sle_owner y" "sle_lock z = sle_lock y"
    using z(2) by (metis active_simps(4), metis erase_sel(2), metis erase_sel(5))
  with y show ?thesis unfolding kept_def by (intro bexI [OF _ z(1)]) simp
qed

text \<open>A lock being granted becomes a granted lock, and the locks that waited for it are tried.\<close>

lemma finish_ok:
  assumes inv: "refs_inv x w" and e: "e \<in> set (lock_list w obj)" "active e" and ok: "async_submit_ok cx"
  obtains lock' w1 w' where
    "merge_lock_entry (nsm_use_caller_name cx) obj (e\<lparr>sle_blocked := STATE_NON_BLOCKING\<rparr>)
       (put_entry (e\<lparr>sle_blocked := STATE_NON_BLOCKING\<rparr>) w) = Some (lock', w1)"
    "grant_blocked_locks cx obj w1 = Some w'" "refs_inv x w'" "safe x (nsm_use_caller_name cx) obj w w'"
    "kept e (lock_list w' obj)"
proof -
  let ?u = "nsm_use_caller_name cx"
  let ?e = "e\<lparr>sle_blocked := STATE_NON_BLOCKING\<rparr>"
  let ?w = "put_entry ?e w"
  note E = list_entry [OF inv e(1)]
  have inv1: "refs_inv x ?w"
    using E(1-6) at_rest_active [OF E(10)] by (intro put_list_inv [OF inv e(1)]) simp_all
  have s1: "safe x ?u obj w ?w" using E e(2) by (intro put_safe [OF inv e(1)]) simp_all
  have e1: "?e \<in> set (lock_list ?w obj)"
    using core_sel(3) [OF put_entry_list [OF inv e(1), of ?e]] set_replace_entry [OF e(1), of ?e] E(1) by simp
  obtain k w1 where m: "merge_lock_entry ?u obj ?e ?w = Some (?e\<lparr>sle_lock := k\<rparr>, w1)" "range_ok k" "refs_inv x w1"
    "?e\<lparr>sle_lock := k\<rparr> \<in> set (lock_list w1 obj)" "list_only obj ?w w1"
    "waits (lock_list w1 obj) \<subseteq> waits (lock_list ?w obj)" "calm ?w \<longrightarrow> calm w1"
    by (rule merge_held_ok [OF inv1 e1, of ?u])
  have "below ?u (insert (?e\<lparr>sle_lock := k\<rparr>) (set (lock_list w1 obj))) (insert ?e (set (lock_list ?w obj)))"
    by (rule merge_lock_below [OF m(1) list_entry(4) [OF inv1 e1]]) (use list_entry(4) [OF inv1] in blast)
  from below_trans [OF below_mono [OF subset_insertI] this]
  have B: "below ?u (set (lock_list w1 obj)) (set (lock_list ?w obj))"
    unfolding insert_absorb [OF e1] .
  have s2: "safe x ?u obj ?w w1"
    using m(6,7) list_only_frame [OF m(5)] below_excl [OF B] unfolding safe_def by simp
  obtain w' where g: "grant_blocked_locks cx obj w1 = Some w'" "refs_inv x w'" "safe x ?u obj w1 w'"
    by (rule grants_safe [OF m(3) ok, of obj])
  have "\<forall>e \<in> set (lock_list ?w obj). range_ok (sle_lock e)" using list_entry(4) [OF inv1] by blast
  from merge_grows [OF m(1) list_entry(4) [OF inv1 e1] this]
  have "kept e (lock_list w1 obj)"
    unfolding kept_def by (intro bexI [OF _ m(4)]) (simp add: active_def)
  then have k: "kept e (lock_list w' obj)" by (rule kept_grants [OF m(3) ok g(1)])
  show thesis
    by (rule that [OF m(1) g(1,2) _ k]) (rule safe_trans [OF s1 safe_trans [OF s2 g(3)]])
qed

lemma find_entry_again:
  assumes inv: "refs_inv x w'" and v: "view w' = view w" and e: "e \<in> set (lock_list w obj)"
  obtains e' where "e' \<in> set (lock_list w' obj)" "erase e' = erase e" "find_entry obj (sle_id e) w' = Some e'"
  using find_again [OF inv, of e obj] in_view [OF e] v by metis

lemma immediate_ok:
  assumes inv: "refs_inv x w" and e: "e \<in> set (lock_list w obj)" "active e" and ok: "async_submit_ok cx"
  obtains w' where "grant_blocked_lock_immediate cx obj e w = Some w'" "refs_inv x w'"
    "safe x (nsm_use_caller_name cx) obj w w'" "kept e (lock_list w' obj)"
proof -
  let ?u = "nsm_use_caller_name cx"
  define grant where "grant = (\<lambda>w1. do {
            e \<leftarrow> find_entry obj (sle_id e) w1;
            let e1 = e\<lparr>sle_blocked := STATE_NON_BLOCKING\<rparr>;
            (_, w2) \<leftarrow> merge_lock_entry ?u obj e1 (put_entry e1 w1);
            grant_blocked_locks cx obj w2
          })"
  have G: "\<exists>w'. grant w1 = Some w' \<and> refs_inv x w' \<and> safe x ?u obj w w' \<and> kept e (lock_list w' obj)"
    if i: "refs_inv x w1" and f: "find_entry obj (sle_id e) w1 = Some e1" "e1 \<in> set (lock_list w1 obj)"
      "active e1" "erase e1 = erase e" and s: "safe x ?u obj w w1" for w1 e1
  proof -
    obtain lock' w2 w' where "merge_lock_entry ?u obj (e1\<lparr>sle_blocked := STATE_NON_BLOCKING\<rparr>)
        (put_entry (e1\<lparr>sle_blocked := STATE_NON_BLOCKING\<rparr>) w1) = Some (lock', w2)"
      "grant_blocked_locks cx obj w2 = Some w'" "refs_inv x w'" "safe x ?u obj w1 w'" "kept e1 (lock_list w' obj)"
      by (rule finish_ok [OF i f(2,3) ok])
    with safe_trans [OF s] f(1) kept_erase [OF f(4)] show ?thesis by (simp add: grant_def Let_def)
  qed
  have run: "grant_blocked_lock_immediate cx obj e w = (case sle_block_data e of
           None \<Rightarrow> grant w
         | Some block_data \<Rightarrow>
             (case sbd_blocked_cookie block_data of
                None \<Rightarrow> grant (put_entry (e\<lparr>sle_block_data := None\<rparr>) w)
              | Some cookie \<Rightarrow>
                  (case state_find_grant cookie w of
                     (_, None, w1) \<Rightarrow> Some w1
                   | (_, Some entry, w1) \<Rightarrow> free_cookie entry True w1 \<bind> grant)))"
    unfolding grant_blocked_lock_immediate_def grant_def Let_def by (rule refl)
  note E = list_entry [OF inv e(1)]
  have "\<exists>w'. grant_blocked_lock_immediate cx obj e w = Some w' \<and> refs_inv x w' \<and> safe x ?u obj w w'
    \<and> kept e (lock_list w' obj)"
  proof (cases "sle_block_data e")
    case None
    then show ?thesis using G [OF inv find_entry_list [OF inv e(1)] e refl] run by simp
  next
    case bd: (Some bd)
    show ?thesis
    proof (cases "sbd_blocked_cookie bd")
      case None
      let ?e = "e\<lparr>sle_block_data := None\<rparr>"
      have i: "refs_inv x (put_entry ?e w)" using E(1-6,10) by (intro put_list_inv [OF inv e(1)]) simp_all
      have l: "?e \<in> set (lock_list (put_entry ?e w) obj)"
        using core_sel(3) [OF put_entry_list [OF inv e(1), of ?e]] set_replace_entry [OF e(1), of ?e] E(1) by simp
      have s: "safe x ?u obj w (put_entry ?e w)" using E e(2) by (intro put_safe [OF inv e(1)]) simp_all
      show ?thesis
        using G [OF i _ l _ _ s] find_entry_list [OF i l] e(2) run bd None by simp
    next
      case (Some k)
      obtain st c w1 where f: "state_find_grant k w = (st, c, w1)" by (metis prod_cases3)
      show ?thesis
      proof (cases c)
        case None
        then show ?thesis
          using run bd Some f find_grant_None [of k w st w1] inv kept_in [OF e refl] by simp
      next
        case c: (Some c)
        obtain w2 where t: "free_cookie c True w1 = Some w2" "refs_inv x w2" "view w2 = view w" "\<And>obj. frame obj w w2"
          "calm w \<longrightarrow> calm w2"
          using take_cookie_ok [OF inv, of k st c w1] f c by blast
        obtain e2 where e2: "e2 \<in> set (lock_list w2 obj)" "erase e2 = erase e" "find_entry obj (sle_id e) w2 = Some e2"
          by (rule find_entry_again [OF t(2,3) e(1)])
        have "active e2" using e2(2) e(2) by (metis active_simps(4))
        moreover have "safe x ?u obj w w2" using t(3-5) by (intro safeI_view) simp_all
        ultimately show ?thesis using G [OF t(2) e2(3,1) _ e2(2)] run bd Some f c t(1) by simp
      qed
    qed
  qed
  with that show thesis by blast
qed

end
