(* ===== verification/LockSafety.thy ===== *)
theory LockSafety
  imports Exclusion
begin

text \<open>
  The operations of the lock manager: each returns (no NULL or dangling pointer is reached), keeps
  the reference discipline of lock entries and keeps the locks of a file exclusive.
\<close>

section \<open>Cancelling\<close>

lemma remove_again:
  assumes inv: "refs_inv x w2" and v: "view w2 = view w1" and e: "e \<in> set (lock_list w1 obj)"
    and ng: "sle_blocked e \<noteq> STATE_GRANTING"
  shows "\<exists>e2. find_entry obj (sle_id e) w2 = Some e2 \<and> refs_inv x (remove_from_locklist e2 w2)
    \<and> safe y u obj w2 (remove_from_locklist e2 w2)
    \<and> view (remove_from_locklist e2 w2) obj = others e (view w2 obj)"
proof -
  obtain e2 where e2: "e2 \<in> set (lock_list w2 obj)" "erase e2 = erase e" "find_entry obj (sle_id e) w2 = Some e2"
    by (rule find_entry_again [OF inv v e])
  have "sle_blocked e2 \<noteq> STATE_GRANTING" "sle_id e2 = sle_id e" using e2(2) ng by (metis erase_sel(4), metis erase_sel(1))
  then show ?thesis
    using e2(3) remove_inv [OF inv e2(1)] remove_safe [OF inv e2(1)] remove_view(1) [OF inv e2(1)] others_cong [of e2 e]
    by simp
qed

definition cancelled :: "sle \<Rightarrow> sle list \<Rightarrow> sle list \<Rightarrow> bool" where
  "cancelled e xs ys \<longleftrightarrow>
     ys = others e xs \<or> ys = replace_entry (erase (e\<lparr>sle_blocked := STATE_CANCELED\<rparr>)) xs"

lemma cancel_blocked_ok:
  assumes inv: "refs_inv x w" and e: "e \<in> set (lock_list w obj)"
  obtains w' where "cancel_blocked_lock cx obj e w = Some w'" "refs_inv x w'" "safe x u obj w w'"
    "cancelled e (view w obj) (view w' obj)"
proof -
  let ?e = "e\<lparr>sle_blocked := STATE_CANCELED\<rparr>"
  let ?w = "put_entry ?e w"
  note E = list_entry [OF inv e]
  have inv1: "refs_inv x ?w"
    using E(1-6) at_rest_active [OF E(10)] by (intro put_list_inv [OF inv e]) simp_all
  have s1: "safe x u obj w ?w"
    using E by (intro put_safe [OF inv e]) (simp_all add: active_def)
  have e1: "?e \<in> set (lock_list ?w obj)"
    using core_sel(3) [OF put_entry_list [OF inv e, of ?e]] set_replace_entry [OF e, of ?e] E(1) by simp
  have v1: "view ?w obj = replace_entry (erase ?e) (view w obj)"
    using put_view(1) [OF inv e, of ?e] E(1) by simp
  have fin: "\<exists>w'. find_entry (sle_obj e) (sle_id e) w2 \<bind> (\<lambda>e2. Some (remove_from_locklist e2 w2)) = Some w'
      \<and> refs_inv x w' \<and> safe x u obj w w' \<and> cancelled e (view w obj) (view w' obj)"
    if i: "refs_inv x w2" and v: "view w2 = view ?w" and s: "safe x u obj ?w w2" for w2
  proof -
    obtain e2 where r: "find_entry obj (sle_id ?e) w2 = Some e2" "refs_inv x (remove_from_locklist e2 w2)"
      "safe x u obj w2 (remove_from_locklist e2 w2)"
      "view (remove_from_locklist e2 w2) obj = others ?e (view w2 obj)"
      using remove_again [OF i v e1, of x u] by auto
    have "others ?e (view w2 obj) = others e (view w obj)"
      using v v1 by (simp add: others_cong [of ?e e])
    then show ?thesis
      using r(1,2,4) safe_trans [OF s1 safe_trans [OF s r(3)]] E(1) by (simp add: cancelled_def)
  qed
  have "\<exists>w'. cancel_blocked_lock cx obj e w = Some w' \<and> refs_inv x w' \<and> safe x u obj w w'
    \<and> cancelled e (view w obj) (view w' obj)"
  proof (cases "Option.bind (sle_block_data e) sbd_blocked_cookie")
    case None
    obtain st w2 info where d: "do_lock_op cx obj (sle_state e) FSAL_OP_CANCEL (sle_owner e) (sle_lock e) False ?w
        = (st, w2, info)" by (metis prod_cases3)
    note C = do_lock_op_core [OF d]
    have i2: "refs_inv x w2" "view w2 = view ?w" "safe x u obj ?w w2"
      using inv1 by (simp_all add: refs_inv_core [OF C] view_core [OF C] safe_core [OF C])
    have run: "cancel_blocked_lock cx obj e w = (if st \<noteq> STATE_SUCCESS then Some w2
        else find_entry (sle_obj e) (sle_id e) w2 \<bind> (\<lambda>e2. Some (remove_from_locklist e2 w2)))"
      using d None by (simp add: cancel_blocked_lock_def Let_def)
    show ?thesis
    proof (cases "st = STATE_SUCCESS")
      case True
      with fin [OF i2] run show ?thesis by simp
    next
      case False
      with run i2 v1 safe_trans [OF s1 i2(3)] show ?thesis by (simp add: cancelled_def)
    qed
  next
    case (Some k)
    obtain st c w2 where f: "state_find_grant k ?w = (st, c, w2)" by (metis prod_cases3)
    have run: "cancel_blocked_lock cx obj e w = (case c of
         None \<Rightarrow> find_entry (sle_obj e) (sle_id e) w2 \<bind> (\<lambda>e2. Some (remove_from_locklist e2 w2))
       | Some entry \<Rightarrow> free_cookie entry True w2 \<bind>
           (\<lambda>w3. find_entry (sle_obj e) (sle_id e) w3 \<bind> (\<lambda>e2. Some (remove_from_locklist e2 w3))))"
      using f Some by (simp add: cancel_blocked_lock_def Let_def split: option.splits)
    show ?thesis
    proof (cases c)
      case None
      with f have "w2 = ?w" using find_grant_None by blast
      with fin [of ?w] inv1 run None show ?thesis by simp
    next
      case c: (Some c)
      obtain w3 where t: "free_cookie c True w2 = Some w3" "refs_inv x w3" "view w3 = view ?w"
        "\<And>obj. frame obj ?w w3" "calm ?w \<longrightarrow> calm w3"
        using take_cookie_ok [OF inv1, of k st c w2] f c by blast
      have "safe x u obj ?w w3" using t(3-5) by (intro safeI_view) simp_all
      with fin [OF t(2,3)] run c t(1) show ?thesis by simp
    qed
  qed
  with that show thesis by blast
qed

lemma cancelled_ids:
  "cancelled e xs ys \<Longrightarrow> sle_id ` set xs - {sle_id e} \<subseteq> sle_id ` set ys"
proof -
  have "sle_id ` set xs = sle_id ` set (replace_entry d xs)" for d
    using replace_entry_ids [of d xs] by (metis set_map)
  then show "cancelled e xs ys \<Longrightarrow> ?thesis" by (auto simp: cancelled_def in_others)
qed

definition stated :: "ptr \<Rightarrow> 'f sal \<Rightarrow> bool" where
  "stated obj w \<longleftrightarrow> (\<forall>e \<in> set (lock_list w obj). sle_state e \<noteq> None)"

lemma stated_view: "stated obj w \<longleftrightarrow> (\<forall>e \<in> set (view w obj). sle_state e \<noteq> None)"
  by (simp add: stated_def view_def)

lemma cancelled_stated:
  "cancelled e (view w obj) (view w' obj) \<Longrightarrow> e \<in> set (lock_list w obj) \<Longrightarrow> stated obj w \<Longrightarrow> stated obj w'"
proof -
  assume c: "cancelled e (view w obj) (view w' obj)" and e: "e \<in> set (lock_list w obj)" and s: "stated obj w"
  have "sle_state e \<noteq> None" using e s by (simp add: stated_def)
  with c s show "stated obj w'"
    unfolding stated_view cancelled_def by (auto simp: in_others replace_entry_def split: if_splits)
qed

lemma cancel_loop_ok:
  assumes "refs_inv x w" and "set is \<subseteq> sle_id ` set (lock_list w obj)" and "distinct is"
    and "sa \<longrightarrow> stated obj w"
  shows "\<exists>w'. cancel_loop cx owner sa st lock obj is w = Some w' \<and> refs_inv x w' \<and> safe x u obj w w'
    \<and> (sa \<longrightarrow> stated obj w')"
  using assms
proof (induction "is" arbitrary: w)
  case (Cons i "is")
  obtain e where e: "e \<in> set (lock_list w obj)" "sle_id e = i" using Cons.prems(2) by auto
  have f: "List.find (\<lambda>e. sle_id e = i) (lock_list w obj) = Some e"
    using list_find_entry [OF Cons.prems(1) e(1)] e(2) by simp
  have rest: "set is \<subseteq> sle_id ` set (lock_list w obj)" "distinct is" using Cons.prems(2,3) by auto
  have sa: "\<not> (sa \<and> sle_state e = None)" using Cons.prems(4) e(1) by (auto simp: stated_def)
  have "cancel_loop cx owner sa st lock obj (i # is) w = cancel_loop cx owner sa st lock obj is w
    \<or> cancel_loop cx owner sa st lock obj (i # is) w = (case cancel_blocked_lock cx obj e w of
          None \<Rightarrow> None | Some w' \<Rightarrow> cancel_loop cx owner sa st lock obj is w')"
  proof (cases sa)
    case True
    with sa obtain s where "sle_state e = Some s" by auto
    with True show ?thesis by (cases "cancel_blocked_lock cx obj e w") (simp_all add: f)
  qed (cases "cancel_blocked_lock cx obj e w"; simp add: f)
  then show ?case
  proof (elim disjE)
    assume "cancel_loop cx owner sa st lock obj (i # is) w = cancel_loop cx owner sa st lock obj is w"
    with Cons.IH [OF Cons.prems(1) rest Cons.prems(4)] show ?thesis by simp
  next
    assume run: "cancel_loop cx owner sa st lock obj (i # is) w = (case cancel_blocked_lock cx obj e w of
          None \<Rightarrow> None | Some w' \<Rightarrow> cancel_loop cx owner sa st lock obj is w')"
    obtain w1 where c: "cancel_blocked_lock cx obj e w = Some w1" "refs_inv x w1" "safe x u obj w w1"
      "cancelled e (view w obj) (view w1 obj)"
      by (rule cancel_blocked_ok [OF Cons.prems(1) e(1), of cx u])
    have "set is \<subseteq> sle_id ` set (lock_list w1 obj)"
      using cancelled_ids [OF c(4)] Cons.prems(2,3) e(2) unfolding view_ids by auto
    moreover have "sa \<longrightarrow> stated obj w1" using cancelled_stated [OF c(4) e(1)] Cons.prems(4) by blast
    ultimately obtain w' where "cancel_loop cx owner sa st lock obj is w1 = Some w'" "refs_inv x w'"
      "safe x u obj w1 w'" "sa \<longrightarrow> stated obj w'"
      using Cons.IH [OF c(2) _ rest(2)] by blast
    with run c(1) safe_trans [OF c(3)] show ?thesis by auto
  qed
qed simp

section \<open>Replies to grants\<close>

lemma safe_fewer: "safe y u obj w w' \<Longrightarrow> (\<And>i. x i = 0 \<Longrightarrow> y i = 0) \<Longrightarrow> safe x u obj w w'"
  unfolding safe_def idle_waits by blast

lemma safe_file: "safe x u obj w w' \<Longrightarrow> i < sal_next w \<Longrightarrow> sle_file w' i = sle_file w i"
  by (simp add: safe_def frame_def)

lemma held_next: "refs_inv x w \<Longrightarrow> x i \<noteq> 0 \<Longrightarrow> i < sal_next w"
  using held_entry refs_inv_next by blast

lemma drop_cookie_ok:
  assumes inv: "refs_inv x w" and c: "x (sce_lock_entry c) \<noteq> 0" "sce_obj c = sle_file w (sce_lock_entry c)"
  obtains w' where "free_cookie c True w = Some w'"
    "refs_inv (x(sce_lock_entry c := x (sce_lock_entry c) - 1)) w'" "safe y u obj w w'"
proof -
  obtain w' where "free_cookie c True w = Some w'" "refs_inv (x(sce_lock_entry c := x (sce_lock_entry c) - 1)) w'"
    "view w' = view w" "\<And>obj. frame obj w w'" "calm w \<longrightarrow> calm w'"
    using free_cookie_ok [OF inv c] by blast
  then show thesis using that by (simp add: safeI_view)
qed

lemma complete_ok:
  assumes inv: "refs_inv x w" and c: "x (sce_lock_entry c) \<noteq> 0" "sce_obj c = sle_file w (sce_lock_entry c)"
    and ok: "async_submit_ok cx"
  obtains w' where "state_complete_grant cx c w = Some w'"
    "refs_inv (x(sce_lock_entry c := x (sce_lock_entry c) - 1)) w'"
    "safe x (nsm_use_caller_name cx) (sce_obj c) w w'"
proof -
  let ?i = "sce_lock_entry c" and ?obj = "sce_obj c" and ?u = "nsm_use_caller_name cx"
  obtain e where e: "entry_at ?i w = Some e" using held_entry [OF inv c(1)] by blast
  have f: "find_entry ?obj ?i w = Some e" using e c(2) by (simp add: entry_at_def)
  let ?e = "e\<lparr>sle_blocked := STATE_NON_BLOCKING\<rparr>"
  have "\<exists>w3. (if sle_blocked e = STATE_GRANTING
              then do {
                let e1 = e\<lparr>sle_blocked := STATE_NON_BLOCKING\<rparr>;
                (_, w2) \<leftarrow> merge_lock_entry ?u ?obj e1 (put_entry e1 w);
                grant_blocked_locks cx ?obj w2
              }
              else Some w) = Some w3 \<and> refs_inv x w3 \<and> safe x ?u ?obj w w3"
  proof (cases "sle_blocked e = STATE_GRANTING")
    case True
    from inv e show ?thesis
    proof (cases rule: entry_at_cases)
      case list
      have l: "e \<in> set (lock_list w ?obj)" using list(2) c(2) by simp
      have "active e" using True by (simp add: active_def)
      from finish_ok [OF inv l this ok] obtain lock' w1 w' where
        "merge_lock_entry ?u ?obj ?e (put_entry ?e w) = Some (lock', w1)"
        "grant_blocked_locks cx ?obj w1 = Some w'" "refs_inv x w'" "safe x ?u ?obj w w'" by metis
      then show ?thesis using True by simp
    next
      case detached
      note D = detached_entry [OF inv detached(2)]
      let ?w = "put_entry ?e w"
      have i1: "refs_inv x ?w" using D by (intro put_detached_inv [OF inv detached(2)]) simp_all
      note C = core_sel [OF put_entry_detached [OF inv detached(2), of ?e]]
      have "view ?w = view w" "frame ?obj w ?w" by (simp_all add: view_def frame_def fun_eq_iff C)
      moreover have "calm ?w" if "calm w"
        using that detached(2) by (auto simp: calm_def C replace_entry_def)
      ultimately have s1: "safe x ?u ?obj w ?w" by (intro safeI_view) simp_all
      have m: "merge_lock_entry ?u ?obj ?e ?w = Some (?e, ?w)"
        using D(7) [of ?obj] D(8) by (intro merge_unowned) (simp_all add: C)
      obtain w' where g: "grant_blocked_locks cx ?obj ?w = Some w'" "refs_inv x w'" "safe x ?u ?obj ?w w'"
        by (rule grants_safe [OF i1 ok])
      with m True safe_trans [OF s1 g(3)] show ?thesis by simp
    qed
  qed (use inv in simp)
  then obtain w3 where w3: "(if sle_blocked e = STATE_GRANTING
              then do {
                let e1 = e\<lparr>sle_blocked := STATE_NON_BLOCKING\<rparr>;
                (_, w2) \<leftarrow> merge_lock_entry ?u ?obj e1 (put_entry e1 w);
                grant_blocked_locks cx ?obj w2
              }
              else Some w) = Some w3" "refs_inv x w3" "safe x ?u ?obj w w3" by blast
  have c3: "sce_obj c = sle_file w3 ?i"
    using c(2) safe_file [OF w3(3) held_next [OF inv c(1)]] by simp
  obtain w' where d: "free_cookie c True w3 = Some w'" "refs_inv (x(?i := x ?i - 1)) w'" "safe x ?u ?obj w3 w'"
    by (rule drop_cookie_ok [OF w3(2) c(1) c3])
  have "state_complete_grant cx c w = Some w'"
    using f w3(1) d(1) unfolding state_complete_grant_def Let_def by simp
  then show thesis by (rule that [OF _ d(2) safe_trans [OF w3(3) d(3)]])
qed

lemma release_ok:
  assumes inv: "refs_inv x w" and c: "x (sce_lock_entry c) \<noteq> 0" "sce_obj c = sle_file w (sce_lock_entry c)"
    and cm: "calm w" and ok: "async_submit_ok cx"
  obtains st w' where "state_release_grant cx c w = Some (st, w')"
    "refs_inv (x(sce_lock_entry c := x (sce_lock_entry c) - 1)) w'"
    "safe x (nsm_use_caller_name cx) (sce_obj c) w w'"
proof -
  let ?i = "sce_lock_entry c" and ?obj = "sce_obj c" and ?u = "nsm_use_caller_name cx"
  let ?x = "x(?i := x ?i - 1)"
  obtain e where e: "entry_at ?i w = Some e" using held_entry [OF inv c(1)] by blast
  have f: "find_entry ?obj ?i w = Some e" using e c(2) by (simp add: entry_at_def)
  let ?e = "e\<lparr>sle_blocked := STATE_CANCELED\<rparr>"
  define step where "step = (if sle_blocked e = STATE_GRANTING
          then let e1 = ?e;
                   (status, w1, _) = do_lock_op cx ?obj (sle_state e1) FSAL_OP_UNLOCK (sle_owner e1)
                                       (sle_lock e1) False (put_entry e1 w)
               in (status, if status \<noteq> STATE_SUCCESS then w1 else remove_from_locklist e1 w1)
          else (STATE_SUCCESS, w))"
  have "refs_inv x (snd step) \<and> safe x ?u ?obj w (snd step)"
  proof (cases "sle_blocked e = STATE_GRANTING")
    case True
    have l: "e \<in> set (lock_list w ?obj)"
      using inv e
    proof (cases rule: entry_at_cases)
      case detached
      with cm True show ?thesis by (simp add: calm_def)
    qed (use c(2) in simp)
    note E = list_entry [OF inv l]
    let ?w = "put_entry ?e w"
    obtain st w1 info where d: "do_lock_op cx ?obj (sle_state e) FSAL_OP_UNLOCK (sle_owner e) (sle_lock e) False ?w
        = (st, w1, info)" by (metis prod_cases3)
    note C = do_lock_op_core [OF d]
    have i1: "refs_inv x ?w"
      using E(1-6) at_rest_active [OF E(10)] by (intro put_list_inv [OF inv l]) simp_all
    have s1: "safe x ?u ?obj w ?w" using E by (intro put_safe [OF inv l]) (simp_all add: active_def)
    have l1: "?e \<in> set (lock_list ?w ?obj)"
      using core_sel(3) [OF put_entry_list [OF inv l, of ?e]] set_replace_entry [OF l, of ?e] E(1) by simp
    have i2: "refs_inv x w1" "safe x ?u ?obj w w1" "?e \<in> set (lock_list w1 ?obj)"
      using i1 safe_core_right [OF C s1] l1 C by (simp_all add: refs_inv_core [OF C] core_def)
    have "refs_inv x (remove_from_locklist ?e w1)" "safe x ?u ?obj w (remove_from_locklist ?e w1)"
      using remove_inv [OF i2(1,3)] safe_trans [OF i2(2) remove_safe [OF i2(1,3)]] by simp_all
    with i2 True d show ?thesis by (simp add: step_def)
  qed (use inv in \<open>simp add: step_def\<close>)
  then obtain st w2 where s: "step = (st, w2)" "refs_inv x w2" "safe x ?u ?obj w w2" by (cases step) simp
  have c2: "sce_obj c = sle_file w2 ?i"
    using c(2) safe_file [OF s(3) held_next [OF inv c(1)]] by simp
  obtain w3 where d: "free_cookie c True w2 = Some w3" "refs_inv ?x w3" "safe x ?u ?obj w2 w3"
    by (rule drop_cookie_ok [OF s(2) c(1) c2])
  obtain w4 where g: "grant_blocked_locks cx ?obj w3 = Some w4" "refs_inv ?x w4" "safe ?x ?u ?obj w3 w4"
    by (rule grants_safe [OF d(2) ok])
  let ?w' = "if lock_list w4 ?obj = [] then w4\<lparr>obj_refcount := decr (obj_refcount w4) ?obj\<rparr> else w4"
  have C': "core ?w' = core w4" by (simp add: core_def)
  have "state_release_grant cx c w = Some (st, ?w')"
    using f s(1) d(1) g(1) unfolding state_release_grant_def Let_def step_def by simp
  moreover have "safe x ?u ?obj w3 w4" by (rule safe_fewer [OF g(3)]) auto
  then have "safe x ?u ?obj w ?w'"
    by (rule safe_core_right [OF C' safe_trans [OF s(3) safe_trans [OF d(3)]]])
  moreover have "refs_inv ?x ?w'" using g(2) by (simp only: refs_inv_core [OF C'])
  ultimately show thesis using that by blast
qed

section \<open>The invariant of the lock manager\<close>

definition lock_inv :: "bool \<Rightarrow> 'f sal \<Rightarrow> bool" where
  "lock_inv u w \<longleftrightarrow>
     (\<exists>x. refs_inv x w \<and> (\<forall>obj. idle x obj w)) \<and> calm w \<and> (\<forall>obj. excl u (set (lock_list w obj)))"

lemma frame_other:
  assumes "frame obj w w'" and "ob \<noteq> obj"
  shows "idle x ob w' = idle x ob w" "excl u (set (lock_list w' ob)) = excl u (set (lock_list w ob))"
proof -
  have v: "view w' ob = view w ob" using assms by (simp add: frame_def)
  then show "idle x ob w' = idle x ob w" by (simp add: idle_def)
  show "excl u (set (lock_list w' ob)) = excl u (set (lock_list w ob))"
    using excl_erase [of u "set (lock_list w ob)"] excl_erase [of u "set (lock_list w' ob)"]
      view_set [of w ob] view_set [of w' ob] v by metis
qed

lemma lock_invI:
  assumes "refs_inv y w'" and "\<And>i. x i = 0 \<Longrightarrow> y i = 0" and s: "safe x u obj w w'"
    and idle: "\<And>ob. idle x ob w" and "calm w" and ex: "\<And>ob. excl u (set (lock_list w ob))"
  shows "lock_inv u w'"
proof -
  have fr: "frame obj w w'" using s by (simp add: safe_def)
  have "idle x ob w'" for ob
  proof (cases "ob = obj")
    case True
    then show ?thesis using s idle [of obj] unfolding safe_def idle_waits by blast
  qed (use frame_other(1) [OF fr] idle in simp)
  then have "\<forall>ob. idle y ob w'" using assms(2) unfolding idle_waits by blast
  moreover have "excl u (set (lock_list w' ob))" for ob
  proof (cases "ob = obj")
    case True
    then show ?thesis using s ex [of obj] unfolding safe_def by blast
  qed (use frame_other(2) [OF fr] ex in simp)
  moreover have "calm w'" using s idle [of obj] \<open>calm w\<close> unfolding safe_def by blast
  ultimately show ?thesis using assms(1) unfolding lock_inv_def by blast
qed

lemma granted_res_ok:
  assumes inv: "lock_inv (nsm_use_caller_name cx) w" and ok: "async_submit_ok cx"
  shows "\<exists>w'. nlm4_Granted_Res cx k g w = Some w' \<and> lock_inv (nsm_use_caller_name cx) w'"
proof -
  let ?u = "nsm_use_caller_name cx"
  obtain x where x: "refs_inv x w" "\<And>ob. idle x ob w" using inv unfolding lock_inv_def by blast
  have cm: "calm w" and ex: "\<And>ob. excl ?u (set (lock_list w ob))" using inv unfolding lock_inv_def by blast+
  obtain st co w1 where f: "state_find_grant k w = (st, co, w1)" by (metis prod_cases3)
  show ?thesis
  proof (cases co)
    case None
    then show ?thesis using f find_grant_None [of k w st w1] inv by (simp add: nlm4_Granted_Res_def)
  next
    case (Some c)
    let ?i = "sce_lock_entry c"
    let ?x = "x(?i := Suc (x ?i))"
    have ck: "ht_lock_cookies w k = Some c"
      using f Some by (auto simp: state_find_grant_def split: option.splits)
    note F = find_grant_ok [OF x(1) f [unfolded Some]]
    have idle1: "idle ?x ob w1" for ob
      unfolding idle_waits
    proof (rule ballI)
      fix j assume "j \<in> waits (lock_list w1 ob)"
      then obtain e where e: "e \<in> set (lock_list w ob)" "waiting e" "sle_id e = j" by (auto simp: F(5) waits_def)
      then have "cookies_of w j = {}" using list_entry(9) [OF x(1) e(1,2)] by simp
      then have "j \<noteq> ?i" using ck by (auto simp: cookies_of_def)
      moreover have "x j = 0" using x(2) [of ob] e by (auto simp: idle_waits waits_def)
      ultimately show "?x j = 0" by simp
    qed
    have cm1: "calm w1" using cm by (simp add: calm_def F(6))
    have ex1: "excl ?u (set (lock_list w1 ob))" for ob using ex by (simp add: F(5))
    obtain e where e: "entry_at ?i w1 = Some e" using held_entry [OF F(1), of ?i] by auto
    have fe: "find_entry (sce_obj c) ?i w1 = Some e" using e F(2) by (simp add: entry_at_def)
    let ?cx = "cx\<lparr>ctx_export := sle_export e\<rparr>"
    have ok': "async_submit_ok ?cx" using ok by simp
    let ?w2 = "w1\<lparr>export_refcount := incr (export_refcount w1) (sle_export e)\<rparr>"
    have C: "core ?w2 = core w1" by (simp add: core_def)
    have i2: "refs_inv ?x ?w2" "sce_obj c = sle_file ?w2 ?i" "\<And>ob. idle ?x ob ?w2" "calm ?w2"
      "\<And>ob. excl ?u (set (lock_list ?w2 ob))"
      using F(1,2) cm1 idle1 ex1 by (simp_all add: refs_inv_core [OF C] calm_core [OF C] idle_def view_core [OF C])
    note finish = lock_invI [OF _ _ _ i2(3,4,5)]
    show ?thesis
    proof (cases "sle_block_data e = None")
      case True
      then have "nlm4_Granted_Res cx k g w = Some w1" using f Some fe by (simp add: nlm4_Granted_Res_def)
      moreover have "lock_inv ?u w1" using F(1) idle1 cm1 ex1 unfolding lock_inv_def by blast
      ultimately show ?thesis by blast
    next
      case False
      then obtain bd where bd: "sle_block_data e = Some bd" by auto
      show ?thesis
      proof (cases "\<not> g \<or> \<not> export_ready cx (sle_export e)")
        case True
        obtain st w' where r: "state_release_grant ?cx c ?w2 = Some (st, w')" "refs_inv (?x(?i := ?x ?i - 1)) w'"
          "safe ?x ?u (sce_obj c) ?w2 w'"
          by (rule release_ok [OF i2(1) _ i2(2,4) ok']) auto
        have "nlm4_Granted_Res cx k g w = Some w'"
          using f Some fe bd True r(1) by (simp add: nlm4_Granted_Res_def Let_def)
        moreover have "lock_inv ?u w'" by (rule finish [OF r(2) _ r(3)]) (simp split: if_splits)
        ultimately show ?thesis by blast
      next
        case granted: False
        obtain w' where r: "state_complete_grant ?cx c ?w2 = Some w'" "refs_inv (?x(?i := ?x ?i - 1)) w'"
          "safe ?x ?u (sce_obj c) ?w2 w'"
          by (rule complete_ok [OF i2(1) _ i2(2) ok']) auto
        have "nlm4_Granted_Res cx k g w = Some w'"
          using f Some fe bd granted r(1) by (simp add: nlm4_Granted_Res_def Let_def)
        moreover have "lock_inv ?u w'" by (rule finish [OF r(2) _ r(3)]) (simp split: if_splits)
        ultimately show ?thesis by blast
      qed
    qed
  qed
qed

section \<open>Locking\<close>

lemma scan_done:
  assumes "lock_scan u exp (Some owner) lock xs = Scan_Done" and "\<not> lock_reclaim lock"
    and "range_ok lock" and "\<forall>e \<in> set xs. range_ok (sle_lock e)"
  shows "\<forall>e \<in> set xs. (sle_type e = FSAL_LOCK_W \<or> lock_type lock = FSAL_LOCK_W)
    \<longrightarrow> different_owners u (sle_owner e) (Some owner) \<longrightarrow> sle_bytes e \<inter> bytes lock = {}"
  using assms(1,4)
proof (induction xs)
  case (Cons e xs)
  have "sle_bytes e \<inter> bytes lock \<noteq> {} \<longleftrightarrow>
      lock_start lock \<le> lock_end (sle_lock e) \<and> lock_start (sle_lock e) \<le> lock_end lock"
    using assms(3) Cons.prems(2) by (intro bytes_overlap_iff) simp_all
  with Cons assms(2) show ?case by (auto split: if_splits)
qed simp

lemma scan_existing:
  "lock_scan u exp owner lock xs = Scan_Existing e
     \<Longrightarrow> e \<in> set xs \<and> active e \<and> same_owner u (sle_owner e) owner \<and> sle_type e = lock_type lock
       \<and> bytes lock \<subseteq> sle_bytes e"
  by (induction xs) (auto simp: active_def same_owner_def mem_bytes split: if_splits)

text \<open>A file system call blocks only when it was asked to.\<close>

lemma do_lock_op_blocked:
  "do_lock_op cx obj state lock_op owner lock want w = (STATE_LOCK_BLOCKED, w', info) \<Longrightarrow> lock_op = FSAL_OP_LOCKB"
  by (auto simp: do_lock_op_def Let_def split: prod.splits if_splits)

lemma new_safe:
  assumes inv: "refs_inv x w" and un: "unused w obj (sle_id lock)" and ok: "range_ok (sle_lock lock)"
    and l: "sle_obj lock = obj" "sle_owner lock \<noteq> None" "sle_ref_count lock = 1"
      "sle_blocked lock = STATE_NON_BLOCKING"
    and free: "\<forall>f \<in> set (lock_list w obj). active f \<longrightarrow> sle_type f = FSAL_LOCK_W \<or> sle_type lock = FSAL_LOCK_W
      \<longrightarrow> different_owners u (sle_owner f) (sle_owner lock) \<longrightarrow> sle_bytes f \<inter> sle_bytes lock = {}"
  obtains k w1 w2 where "merge_lock_entry u obj lock w = Some (lock\<lparr>sle_lock := k\<rparr>, w1)"
    "w2 = w1\<lparr>lock_list := (lock_list w1)(obj := lock_list w1 obj @ [lock\<lparr>sle_lock := k\<rparr>])\<rparr>"
    "refs_inv x w2" "safe x u obj w w2" "kept lock (lock_list w2 obj)"
proof -
  obtain k w1 where m: "merge_lock_entry u obj lock w = Some (lock\<lparr>sle_lock := k\<rparr>, w1)" "range_ok k"
    "refs_inv x w1" "unused w1 obj (sle_id lock)" "list_only obj w w1"
    "waits (lock_list w1 obj) \<subseteq> waits (lock_list w obj)" "calm w \<longrightarrow> calm w1"
    by (rule merge_new_ok [OF inv un ok, of u])
  let ?w = "w1\<lparr>lock_list := (lock_list w1)(obj := lock_list w1 obj @ [lock\<lparr>sle_lock := k\<rparr>])\<rparr>"
  have i2: "refs_inv x ?w" using m l by (intro append_inv [OF m(3)]) (simp_all add: waiting_def)
  have B: "below u (insert (lock\<lparr>sle_lock := k\<rparr>) (set (lock_list w1 obj))) (insert lock (set (lock_list w obj)))"
    by (rule merge_lock_below [OF m(1) ok]) (use list_entry(4) [OF inv] in blast)
  have "excl u (insert lock (set (lock_list w obj)))" if "excl u (set (lock_list w obj))"
    using that
  proof (rule excl_insert)
    fix f
    assume f: "f \<in> set (lock_list w obj)" "active f" "sle_type lock = FSAL_LOCK_W \<or> sle_type f = FSAL_LOCK_W"
      "different_owners u (sle_owner lock) (sle_owner f)"
    then show "sle_bytes lock \<inter> sle_bytes f = {}"
      using free different_owners_sym [of u "sle_owner lock"] by (metis Int_commute)
  qed (rule l(2))
  then have "excl u (set (lock_list w obj)) \<longrightarrow> excl u (set (lock_list ?w obj))"
    using below_excl [OF B] by auto
  moreover have "frame obj w ?w"
    using m(5) by (simp add: list_only_def frame_def view_def)
  moreover have "waits (lock_list ?w obj) \<subseteq> waits (lock_list w obj)"
    using m(6) l(4) by (simp add: waiting_def)
  moreover have "calm ?w = calm w1" by (simp add: calm_def)
  ultimately have "safe x u obj w ?w" using m(7) unfolding safe_def by simp
  moreover have "kept lock (lock_list ?w obj)"
    using merge_grows [OF m(1) ok] list_entry(4) [OF inv] l(4)
    unfolding kept_def by (intro bexI [of _ "lock\<lparr>sle_lock := k\<rparr>"]) (auto simp: active_def)
  ultimately show thesis using that [OF m(1) refl i2] by simp
qed

definition covered :: "bool \<Rightarrow> state_owner option \<Rightarrow> fsal_lock_param \<Rightarrow> sle list \<Rightarrow> bool" where
  "covered u owner lock xs \<longleftrightarrow>
     (\<exists>e \<in> set xs. active e \<and> same_owner u (sle_owner e) owner \<and> sle_type e = lock_type lock
        \<and> bytes lock \<subseteq> sle_bytes e)"

lemma kept_covered:
  assumes "kept e xs" and "same_owner u (sle_owner e) owner" "sle_type e = lock_type lock" "bytes lock \<subseteq> sle_bytes e"
  shows "covered u owner lock xs"
proof -
  obtain z where z: "z \<in> set xs" "active z" "sle_owner z = sle_owner e" "sle_type z = sle_type e"
    "sle_bytes e \<subseteq> sle_bytes z"
    using assms(1) unfolding kept_def by blast
  then show ?thesis
    using assms(2-4) unfolding covered_def by (intro bexI [OF _ z(1)]) auto
qed

lemma wait_inv:
  assumes inv: "refs_inv x w" and un: "unused w obj (sle_id e)"
    and e: "sle_obj e = obj" "sle_owner e \<noteq> None" "range_ok (sle_lock e)" "sle_ref_count e = 1" "\<not> active e" "nlm_owned e"
    and all: "\<And>ob. idle x ob w" "calm w" "\<And>ob. excl u (set (lock_list w ob))"
  shows "lock_inv u (w\<lparr>lock_list := (lock_list w)(obj := lock_list w obj @ [e]), state_blocked_locks := bl\<rparr>)"
    (is "lock_inv u ?w")
proof -
  let ?w1 = "w\<lparr>lock_list := (lock_list w)(obj := lock_list w obj @ [e])\<rparr>"
  have C: "core ?w = core ?w1" by (simp add: core_def)
  have "refs_inv x ?w1" by (rule append_inv [OF inv un e(1-4)]) (simp add: e(6))
  then have i: "refs_inv x ?w" by (simp only: refs_inv_core [OF C])
  have x0: "x (sle_id e) = 0" using inv un by (auto simp: refs_inv_def cookies_ok_def unused_def)
  have "idle x ob ?w" for ob
    using all(1) [of ob] x0 by (cases "ob = obj") (auto simp: idle_waits)
  moreover have "excl u (insert e (set (lock_list w obj)))"
    using all(3) [of obj] e(5) e(2) by (intro excl_insert) simp_all
  then have "excl u (set (lock_list ?w ob))" for ob
    using all(3) [of ob] by (cases "ob = obj") simp_all
  moreover have "calm ?w" using all(2) by (simp add: calm_def)
  ultimately show ?thesis using i unfolding lock_inv_def by blast
qed

lemma lock_inv_core:
  assumes "core w' = core w"
  shows "lock_inv u w' = lock_inv u w"
proof -
  have "lock_list w' = lock_list w" using assms by (simp add: core_def)
  then show ?thesis
    by (simp add: lock_inv_def idle_def refs_inv_core [OF assms] view_core [OF assms] calm_core [OF assms])
qed

lemma lock_inv_fresh:
  assumes x: "refs_inv x w" "\<And>ob. idle x ob w" "calm w" "\<And>ob. excl u (set (lock_list w ob))"
    and C: "core w' = (Suc (sal_next w), (sle_file w)(sal_next w := obj), lock_list w, detached w,
                       ht_lock_cookies w, state_seqid w)"
  shows "refs_inv x w'" "idle x ob w'" "calm w'" "excl u (set (lock_list w' ob))"
    "unused w' obj (sal_next w)"
  using fresh_inv(1,2) [OF x(1) C] x(2-4) core_sel [OF C] by (simp_all add: idle_waits calm_def)

lemma lock_proceed_ok:
  assumes inv: "lock_inv (nsm_use_caller_name cx) w" and ok: "async_submit_ok cx" "range_ok lock"
    and na: "\<not> fso_lock_support_async_block (fsal_export cx)"
    and bd: "blocking = STATE_NLM_BLOCKING \<Longrightarrow> bdata \<noteq> None \<and> is_STATE_LOCK_OWNER_NLM (so_owner owner)"
    and allow: "if allow
      then \<forall>f \<in> set (lock_list w obj). (sle_type f = FSAL_LOCK_W \<or> lock_type lock = FSAL_LOCK_W)
        \<longrightarrow> different_owners (nsm_use_caller_name cx) (sle_owner f) (Some owner) \<longrightarrow> sle_bytes f \<inter> bytes lock = {}
      else blocking = STATE_NLM_BLOCKING"
  shows "\<exists>st info' bd' w'. lock_proceed cx obj owner state blocking bdata lock allow info w = Some (st, info', bd', w')
    \<and> lock_inv (nsm_use_caller_name cx) w'
    \<and> (st = STATE_SUCCESS \<longrightarrow> covered (nsm_use_caller_name cx) (Some owner) lock (lock_list w' obj))"
proof -
  let ?u = "nsm_use_caller_name cx"
  obtain x where x: "refs_inv x w" "\<And>ob. idle x ob w" using inv unfolding lock_inv_def by blast
  have cm: "calm w" and ex: "\<And>ob. excl ?u (set (lock_list w ob))" using inv unfolding lock_inv_def by blast+
  let ?op = "if blocking = STATE_NLM_BLOCKING then FSAL_OP_LOCKB else FSAL_OP_LOCK"
  obtain e w1 where cr: "create_state_lock_entry obj (ctx_export cx) STATE_NON_BLOCKING owner state lock w = (e, w1)"
    by fastforce
  note C1 = create_core [OF cr]
  note I1 = lock_inv_fresh [OF x cm ex C1(1)]
  obtain st w2 fi where d: "(if allow then do_lock_op cx obj state ?op (Some owner) lock allow w1
      else (STATE_LOCK_BLOCKED, w1, None)) = (st, w2, fi)" by (metis prod_cases3)
  have C2: "core w2 = core w1" using d do_lock_op_core by (fastforce split: if_splits)
  have blk: "blocking = STATE_NLM_BLOCKING" if "st = STATE_LOCK_BLOCKED"
    using d that allow do_lock_op_blocked by (fastforce split: if_splits)
  have al: allow if "st = STATE_SUCCESS" using d that by (auto split: if_splits)
  have lists: "lock_list w2 = lock_list w" using C2 core_sel(3) [OF C1(1)] by (simp add: core_def)
  have I2: "refs_inv x w2" "\<And>ob. idle x ob w2" "calm w2" "\<And>ob. excl ?u (set (lock_list w2 ob))"
    "unused w2 obj (sle_id e)"
    using I1 lists core_sel(3) [OF C1(1)] C1(2) C2
    by (simp_all add: refs_inv_core [OF C2] idle_waits calm_core [OF C2] unused_def entry_at_core [OF C2])
      (simp_all add: core_def)
  let ?info = "if fi = None then info else fsal_conflict fi"
  have run: "lock_proceed cx obj owner state blocking bdata lock allow info w =
     (if st = STATE_SUCCESS
      then do {
           let w3 = (if lock_list w2 obj = []
                     then w2\<lparr>obj_refcount := incr (obj_refcount w2) obj\<rparr> else w2);
           (e, w4) \<leftarrow> merge_lock_entry ?u obj e w3;
           w5 \<leftarrow> grant_blocked_locks cx obj
                  (w4\<lparr>lock_list := (lock_list w4)(obj := lock_list w4 obj @ [e])\<rparr>);
           Some (st, ?info, bdata, w5)
         }
      else if st = STATE_LOCK_CONFLICT
      then Some (st, ?info, bdata, remove_from_locklist e w2)
      else if st = STATE_LOCK_BLOCKED
      then do {
           block_data \<leftarrow> bdata;
           let e = e\<lparr>sle_block_data := Some (block_data\<lparr>sbd_block_type :=
                       (if allow then STATE_BLOCK_POLL else STATE_BLOCK_INTERNAL)\<rparr>), sle_blocked := blocking\<rparr>;
           Some (st, ?info, None,
                 w2\<lparr>lock_list := (lock_list w2)(obj := lock_list w2 obj @ [e]),
                    state_blocked_locks := state_blocked_locks w2 @ [sle_id e]\<rparr>)
         }
      else Some (st, ?info, bdata, remove_from_locklist e w2))"
    unfolding lock_proceed_def Let_def using cr d na by simp
  show ?thesis
  proof (cases "st = STATE_SUCCESS")
    case True
    define w3 where "w3 = (if lock_list w2 obj = [] then w2\<lparr>obj_refcount := incr (obj_refcount w2) obj\<rparr> else w2)"
    have C3: "core w3 = core w2" by (simp add: w3_def core_def)
    have i3: "refs_inv x w3" "unused w3 obj (sle_id e)" "lock_list w3 = lock_list w"
      using I2(1,5) lists C3
      by (simp_all add: refs_inv_core [OF C3] unused_def entry_at_core [OF C3]) (simp_all add: core_def)
    obtain k w4 w4' where m: "merge_lock_entry ?u obj e w3 = Some (e\<lparr>sle_lock := k\<rparr>, w4)"
      "w4' = w4\<lparr>lock_list := (lock_list w4)(obj := lock_list w4 obj @ [e\<lparr>sle_lock := k\<rparr>])\<rparr>"
      "refs_inv x w4'" "safe x ?u obj w3 w4'" "kept e (lock_list w4' obj)"
    proof (rule new_safe [OF i3(1,2), of ?u])
      show "\<forall>f \<in> set (lock_list w3 obj). active f \<longrightarrow> sle_type f = FSAL_LOCK_W \<or> sle_type e = FSAL_LOCK_W
          \<longrightarrow> different_owners ?u (sle_owner f) (sle_owner e) \<longrightarrow> sle_bytes f \<inter> sle_bytes e = {}"
        using allow al [OF True] i3(3) C1(2) by simp
    qed (use C1(2) ok(2) in simp_all)
    obtain w5 where g: "grant_blocked_locks cx obj w4' = Some w5" "refs_inv x w5" "safe x ?u obj w4' w5"
      by (rule grants_safe [OF m(3) ok(1)])
    have "lock_proceed cx obj owner state blocking bdata lock allow info w = Some (st, ?info, bdata, w5)"
      using run True m(1) g(1) unfolding m(2) w3_def [symmetric] Let_def by simp
    moreover have "safe x ?u obj w2 w5"
      by (rule safe_trans [OF safe_core [OF C3] safe_trans [OF m(4) g(3)]])
    from lock_invI [OF g(2) _ this I2(2-4)] have "lock_inv ?u w5" by simp
    moreover have "covered ?u (Some owner) lock (lock_list w5 obj)"
      by (rule kept_covered [OF kept_grants [OF m(3) ok(1) g(1) m(5)]]) (simp_all add: C1(2))
    ultimately show ?thesis by blast
  next
    case ns: False
    show ?thesis
    proof (cases "st = STATE_LOCK_BLOCKED")
      case True
      obtain b where b: "bdata = Some b" "is_STATE_LOCK_OWNER_NLM (so_owner owner)" using bd [OF blk [OF True]] by auto
      let ?e = "e\<lparr>sle_block_data := Some (b\<lparr>sbd_block_type :=
                       (if allow then STATE_BLOCK_POLL else STATE_BLOCK_INTERNAL)\<rparr>), sle_blocked := blocking\<rparr>"
      have "lock_inv ?u (w2\<lparr>lock_list := (lock_list w2)(obj := lock_list w2 obj @ [?e]),
                    state_blocked_locks := state_blocked_locks w2 @ [sle_id ?e]\<rparr>)"
        using I2 C1(2) ok(2) blk [OF True] b(2)
        by (intro wait_inv [OF I2(1)]) (simp_all add: active_def nlm_owned_def)
      then show ?thesis using run True b by simp
    next
      case False
      have C: "core (remove_from_locklist e w2) = core w2"
        using I2(5) C1(2) by (intro remove_unused_core [OF I2(1)]) simp_all
      have "lock_inv ?u w2" using I2 unfolding lock_inv_def by blast
      then have "lock_inv ?u (remove_from_locklist e w2)" by (simp only: lock_inv_core [OF C])
      then show ?thesis using run ns False by simp
    qed
  qed
qed

lemma lock_invD:
  assumes "lock_inv u w"
  obtains x where "refs_inv x w" "\<And>ob. idle x ob w" "calm w" "\<And>ob. excl u (set (lock_list w ob))"
  using assms unfolding lock_inv_def by blast

lemma lock_inv_safe:
  assumes "refs_inv x w" "\<And>ob. idle x ob w" "calm w" "\<And>ob. excl u (set (lock_list w ob))"
    and "refs_inv x w'" and "safe x u obj w w'"
  shows "lock_inv u w'"
  by (rule lock_invI [OF assms(5) _ assms(6,2,3,4)])

lemma find_blocked_not_success: "find_blocked_request u exp owner blocking lock xs \<noteq> Some STATE_SUCCESS"
  by (induction xs) auto

lemma state_lock_ok:
  assumes inv: "lock_inv (nsm_use_caller_name cx) w" and ok: "async_submit_ok cx" "range_ok lock"
    and nr: "\<not> lock_reclaim lock" and na: "\<not> fso_lock_support_async_block (fsal_export cx)"
    and bd: "blocking = STATE_NLM_BLOCKING \<Longrightarrow> bdata \<noteq> None \<and> is_STATE_LOCK_OWNER_NLM (so_owner owner)"
  shows "\<exists>st info bd' w'. state_lock cx obj owner state blocking bdata lock w = Some (st, info, bd', w')
    \<and> lock_inv (nsm_use_caller_name cx) w'
    \<and> (st = STATE_SUCCESS \<longrightarrow> covered (nsm_use_caller_name cx) (Some owner) lock (lock_list w' obj))"
proof -
  let ?u = "nsm_use_caller_name cx"
  obtain x where x: "refs_inv x w" "\<And>ob. idle x ob w" "calm w" "\<And>ob. excl ?u (set (lock_list w ob))"
    using lock_invD [OF inv] by blast
  define decided where "decided = (if blocking \<noteq> STATE_NON_BLOCKING
      then find_blocked_request ?u (ctx_export cx) (Some owner) blocking lock (lock_list w obj) else None)"
  have rng: "\<forall>e \<in> set (lock_list w obj). range_ok (sle_lock e)" using list_entry(4) [OF x(1)] by blast
  show ?thesis
  proof (cases decided)
    case (Some st)
    have "st \<noteq> STATE_SUCCESS"
      using Some find_blocked_not_success by (auto simp: decided_def split: if_splits)
    then show ?thesis using inv Some by (simp add: state_lock_def decided_def Let_def)
  next
    case dec: None
    have run: "state_lock cx obj owner state blocking bdata lock w =
       (case lock_scan ?u (ctx_export cx) (Some owner) lock (lock_list w obj) of
                Scan_Export \<Rightarrow> Some (STATE_INVALID_ARGUMENT, None, bdata, w)
              | Scan_Existing found_entry \<Rightarrow>
                  if sle_blocked found_entry = STATE_GRANTING
                  then map_option (\<lambda>w'. (STATE_SUCCESS, None, bdata, w'))
                         (grant_blocked_lock_immediate cx obj found_entry w)
                  else Some (STATE_SUCCESS, None, bdata, w)
              | Scan_Conflict found_entry \<Rightarrow>
                  if blocking = STATE_NLM_BLOCKING
                  then lock_proceed cx obj owner state blocking bdata lock False None w
                  else (let (info, w') = copy_conflict found_entry w
                        in Some (STATE_LOCK_CONFLICT, info, bdata, w'))
              | Scan_Done \<Rightarrow> lock_proceed cx obj owner state blocking bdata lock True None w)"
      using dec unfolding state_lock_def decided_def Let_def by simp
    show ?thesis
    proof (cases "lock_scan ?u (ctx_export cx) (Some owner) lock (lock_list w obj)")
      case Scan_Export
      then show ?thesis using run inv by simp
    next
      case (Scan_Conflict e)
      show ?thesis
      proof (cases "blocking = STATE_NLM_BLOCKING")
        case True
        with run Scan_Conflict lock_proceed_ok [OF inv ok na bd, where allow = False] show ?thesis by simp
      next
        case False
        have "core (snd (copy_conflict e w)) = core w"
          by (simp add: copy_conflict_def core_def split: option.splits)
        from lock_inv_core [OF this] inv run Scan_Conflict False show ?thesis
          by (simp add: case_prod_beta Let_def)
      qed
    next
      case (Scan_Existing e)
      have e: "e \<in> set (lock_list w obj)" "active e" "same_owner ?u (sle_owner e) (Some owner)"
        "sle_type e = lock_type lock" "bytes lock \<subseteq> sle_bytes e"
        using scan_existing [OF Scan_Existing] by simp_all
      obtain w' where g: "grant_blocked_lock_immediate cx obj e w = Some w'" "refs_inv x w'" "safe x ?u obj w w'"
        "kept e (lock_list w' obj)"
        by (rule immediate_ok [OF x(1) e(1,2) ok(1)])
      have "covered ?u (Some owner) lock (lock_list w' obj)" "covered ?u (Some owner) lock (lock_list w obj)"
        using kept_covered [OF g(4) e(3-5)] kept_covered [OF kept_in [OF e(1,2) refl] e(3-5)] by simp_all
      then show ?thesis using run Scan_Existing g(1) lock_inv_safe [OF x g(2,3)] inv by simp
    next
      case Scan_Done
      with run lock_proceed_ok [OF inv ok na bd, where allow = True] scan_done [OF Scan_Done nr ok(2) rng] show ?thesis
        by simp
    qed
  qed
qed

section \<open>Unlocking and cancelling\<close>

lemma pieces_below:
  assumes "list_all2 (pieces_of B) cs fs"
  shows "below u (set (concat fs)) (set cs)" and "(\<forall>c \<in> set cs. granted c) \<Longrightarrow> waits (concat fs) = {}"
  using assms
proof (induction rule: list_all2_induct)
  case (Cons c cs es fs)
  have "below u {e} (set (c # cs))" if "e \<in> set es" for e
  proof -
    have "sle_bytes e \<subseteq> sle_bytes c" using Cons(1) that by (auto simp: pieces_of_def)
    then show ?thesis
      using Cons(1) that by (intro below_part [of _ c]) (auto simp: pieces_of_def active_def)
  qed
  then have "below u (set es) (set (c # cs))" unfolding below_def by blast
  moreover have "below u (set (concat fs)) (set (c # cs))"
    by (rule below_mono_right [OF Cons(3)]) auto
  ultimately show "below u (set (concat (es # fs))) (set (c # cs))" by (simp add: below_Un)
  show "waits (concat (es # fs)) = {}" if "\<forall>c \<in> set (c # cs). granted c"
    using Cons(4) that Cons(1) by (auto simp: waits_def pieces_of_def waiting_def granted_def)
qed (simp_all add: below_def)

lemma pieces_outside:
  "list_all2 (pieces_of B) cs fs \<Longrightarrow> e \<in> set (concat fs) \<Longrightarrow> sle_bytes e \<inter> B = {}"
  by (induction rule: list_all2_induct) (auto simp: pieces_of_def)

definition cleared :: "bool \<Rightarrow> state_owner option \<Rightarrow> fsal_lock_param \<Rightarrow> sle list \<Rightarrow> bool" where
  "cleared u owner lock xs \<longleftrightarrow>
     (\<forall>e \<in> set xs. granted e \<longrightarrow> owner = None \<or> \<not> different_owners u (sle_owner e) owner
        \<longrightarrow> sle_bytes e \<inter> bytes lock = {})"

lemma subtract_safe:
  assumes inv: "refs_inv x w" and lk: "range_ok lock" and sa: "sa \<longrightarrow> stated obj w"
  obtains r w' where "subtract_lock_from_list u owner sa st lock obj w = Some (STATE_SUCCESS, r, w')"
    "refs_inv x w'" "safe y u obj w w'" "\<not> sa \<longrightarrow> cleared u owner lock (lock_list w' obj)"
proof -
  define h where "h = hit u owner sa st lock (state_seqid w)"
  have sa': "sa \<Longrightarrow> \<forall>e \<in> set (lock_list w obj). sle_state e \<noteq> None" using sa by (simp add: stated_def)
  obtain w' fs where S: "subtract_lock_from_list u owner sa st lock obj w
       = Some (STATE_SUCCESS, \<exists>e \<in> set (lock_list w obj). h e, w')"
    "refs_inv x w'" "list_only obj w w'" "calm w \<longrightarrow> calm w'"
    "lock_list w' obj = filter (\<lambda>e. \<not> h e) (lock_list w obj) @ concat fs"
    "list_all2 (pieces_of (bytes lock)) (filter h (lock_list w obj)) fs"
    using subtract_list_ok [OF inv lk sa', where u = u and owner = owner and st = st] unfolding h_def by blast
  have "below u (set (lock_list w' obj)) (set (lock_list w obj))"
    by (rule below_step [OF pieces_below(1) [OF S(6), of u]]) (auto simp: S(5))
  moreover have "waits (concat fs) = {}"
    by (rule pieces_below(2) [OF S(6)]) (simp add: h_def matches_def)
  then have "waits (lock_list w' obj) \<subseteq> waits (lock_list w obj)"
    unfolding S(5) by (auto simp: waits_def)
  ultimately have "safe y u obj w w'"
    using S(4) list_only_frame [OF S(3)] below_excl unfolding safe_def by blast
  moreover have "cleared u owner lock (lock_list w' obj)" if "\<not> sa"
    unfolding cleared_def S(5)
  proof (intro ballI impI)
    fix e assume e: "e \<in> set (filter (\<lambda>e. \<not> h e) (lock_list w obj) @ concat fs)" "granted e"
      "owner = None \<or> \<not> different_owners u (sle_owner e) owner"
    show "sle_bytes e \<inter> bytes lock = {}"
    proof (cases "e \<in> set (concat fs)")
      case True
      with pieces_outside [OF S(6)] show ?thesis by blast
    qed (use e that in \<open>auto simp: h_def matches_def\<close>)
  qed
  ultimately show thesis using that S(1,2) by blast
qed

lemma state_unlock_ok:
  assumes inv: "lock_inv (nsm_use_caller_name cx) w" and ok: "async_submit_ok cx" "range_ok lock"
    and sa: "sa \<longrightarrow> stated obj w"
  shows "\<exists>st w'. state_unlock cx obj state owner sa nsm_state lock w = Some (st, w')
    \<and> lock_inv (nsm_use_caller_name cx) w'
    \<and> (obj_is_regular cx obj \<longrightarrow> \<not> sa \<longrightarrow> cleared (nsm_use_caller_name cx) owner lock (lock_list w' obj))"
proof (cases "\<not> obj_is_regular cx obj \<or> lock_list w obj = []")
  case True
  then show ?thesis using inv by (auto simp: state_unlock_def cleared_def)
next
  case False
  let ?u = "nsm_use_caller_name cx"
  obtain x where x: "refs_inv x w" "\<And>ob. idle x ob w" "calm w" "\<And>ob. excl ?u (set (lock_list w ob))"
    using lock_invD [OF inv] by blast
  have d: "distinct (map sle_id (lock_list w obj))" using x(1) by (simp add: refs_inv_def entries_ok_def)
  have "\<exists>w'. cancel_loop cx owner sa nsm_state lock obj (map sle_id (lock_list w obj)) w = Some w' \<and> refs_inv x w'
      \<and> safe x ?u obj w w' \<and> (sa \<longrightarrow> stated obj w')"
    by (rule cancel_loop_ok [OF x(1) _ d sa]) simp
  then obtain w1 where c: "cancel_blocked_locks_range cx obj owner sa nsm_state lock w = Some w1" "refs_inv x w1"
    "safe x ?u obj w w1" "sa \<longrightarrow> stated obj w1"
    unfolding cancel_blocked_locks_range_def by blast
  obtain r w2 where s: "subtract_lock_from_list ?u owner sa nsm_state lock obj w1 = Some (STATE_SUCCESS, r, w2)"
    "refs_inv x w2" "safe x ?u obj w1 w2" "\<not> sa \<longrightarrow> cleared ?u owner lock (lock_list w2 obj)"
    by (rule subtract_safe [OF c(2) ok(2) c(4)])
  define w3 where "w3 = (if lock_list w2 obj = [] then w2\<lparr>obj_refcount := decr (obj_refcount w2) obj\<rparr> else w2)"
  obtain st w4 info where dl: "do_lock_op cx obj state FSAL_OP_UNLOCK owner lock False w3 = (st, w4, info)"
    by (metis prod_cases3)
  have C: "core w4 = core w2"
    using do_lock_op_core [OF dl] by (simp add: w3_def core_def split: if_splits)
  have i4: "refs_inv x w4" using s(2) by (simp only: refs_inv_core [OF C])
  obtain w5 where g: "grant_blocked_locks cx obj w4 = Some w5" "refs_inv x w5" "safe x ?u obj w4 w5"
    by (rule grants_safe [OF i4 ok(1)])
  have "state_unlock cx obj state owner sa nsm_state lock w = Some (st, w5)"
    using False c(1) s(1) dl g(1) unfolding state_unlock_def Let_def w3_def by simp
  moreover have "safe x ?u obj w w5"
    by (rule safe_trans [OF c(3) safe_trans [OF s(3) safe_trans [OF safe_core [OF C] g(3)]]])
  from lock_inv_safe [OF x g(2) this] have "lock_inv ?u w5" .
  moreover have "cleared ?u owner lock (lock_list w5 obj)" if "\<not> sa"
    unfolding cleared_def
  proof (intro ballI impI)
    fix z assume z: "z \<in> set (lock_list w5 obj)" "granted z" "owner = None \<or> \<not> different_owners ?u (sle_owner z) owner"
    obtain y where y: "y \<in> set (lock_list w4 obj)" "erase y = erase z"
      using grants_keep(2) [OF i4 ok(1) g(1) z(1,2)] by blast
    have "sle_owner y = sle_owner z" "sle_lock y = sle_lock z" "granted y"
      using y(2) z(2) unfolding granted_def by (metis erase_sel(2), metis erase_sel(5), metis erase_sel(4))
    moreover have "y \<in> set (lock_list w2 obj)" using y(1) C by (simp add: core_def)
    ultimately show "sle_bytes z \<inter> bytes lock = {}"
      using s(4) that z(3) unfolding cleared_def by metis
  qed
  ultimately show ?thesis by blast
qed

lemma cancel_target_in: "cancel_target u owner lock xs = Some e \<Longrightarrow> e \<in> set xs"
  by (induction xs) (auto split: if_splits)

lemma state_cancel_ok:
  assumes inv: "lock_inv (nsm_use_caller_name cx) w" and ok: "async_submit_ok cx"
  shows "\<exists>st w'. state_cancel cx obj owner lock w = Some (st, w') \<and> lock_inv (nsm_use_caller_name cx) w'"
proof (cases "\<not> obj_is_regular cx obj \<or> lock_list w obj = []
    \<or> cancel_target (nsm_use_caller_name cx) owner lock (lock_list w obj) = None")
  case True
  then show ?thesis using inv by (auto simp: state_cancel_def)
next
  case False
  let ?u = "nsm_use_caller_name cx"
  obtain x where x: "refs_inv x w" "\<And>ob. idle x ob w" "calm w" "\<And>ob. excl ?u (set (lock_list w ob))"
    using lock_invD [OF inv] by blast
  obtain e where t: "cancel_target ?u owner lock (lock_list w obj) = Some e" using False by auto
  obtain w1 where c: "cancel_blocked_lock cx obj e w = Some w1" "refs_inv x w1" "safe x ?u obj w w1"
    "cancelled e (view w obj) (view w1 obj)"
    by (rule cancel_blocked_ok [OF x(1) cancel_target_in [OF t]])
  obtain w2 where g: "grant_blocked_locks cx obj w1 = Some w2" "refs_inv x w2" "safe x ?u obj w1 w2"
    by (rule grants_safe [OF c(2) ok])
  have "state_cancel cx obj owner lock w = Some (STATE_SUCCESS, w2)"
    using False t c(1) g(1) by (simp add: state_cancel_def)
  with lock_inv_safe [OF x g(2) safe_trans [OF c(3) g(3)]] show ?thesis by blast
qed

lemma state_test_ok:
  "lock_inv u (snd (snd (state_test cx obj state owner lock w))) = lock_inv u w"
proof (rule lock_inv_core)
  obtain st w' info where d: "do_lock_op cx obj state FSAL_OP_LOCKT owner lock True w = (st, w', info)"
    by (metis prod_cases3)
  show "core (snd (snd (state_test cx obj state owner lock w))) = core w"
    using do_lock_op_core [OF d]
    by (cases "get_overlapping_entry (nsm_use_caller_name cx) (lock_list w obj) owner lock")
      (simp_all add: state_test_def d copy_conflict_def core_def split: option.splits)
qed

end
