(* ===== verification/LockGuarantees.thy ===== *)
theory LockGuarantees
  imports LockSafety Samples
begin

text \<open>
  What the lock manager guarantees to its callers, over single calls and over every sequence of
  them.  A call is made with a request context; the configuration flag that selects how NLM clients
  are compared is the same for all calls.
\<close>

section \<open>Calls and runs\<close>

definition no_locks :: "'f sal \<Rightarrow> bool" where
  "no_locks w \<longleftrightarrow> (\<forall>obj. lock_list w obj = []) \<and> detached w = [] \<and> ht_lock_cookies w = Map.empty"

inductive lock_step :: "bool \<Rightarrow> 'f sal \<Rightarrow> 'f sal \<Rightarrow> bool" for u where
  test: "nsm_use_caller_name cx = u \<Longrightarrow> state_test cx obj state owner lock w = (st, info, w') \<Longrightarrow> lock_step u w w'"
| lock: "nsm_use_caller_name cx = u \<Longrightarrow> async_submit_ok cx \<Longrightarrow> range_ok lock \<Longrightarrow> \<not> lock_reclaim lock
    \<Longrightarrow> \<not> fso_lock_support_async_block (fsal_export cx) \<Longrightarrow> (blocking = STATE_NLM_BLOCKING \<longrightarrow> bdata \<noteq> None \<and> is_STATE_LOCK_OWNER_NLM (so_owner p))
    \<Longrightarrow> state_lock cx obj p state blocking bdata lock w = Some (st, info, bdata', w') \<Longrightarrow> lock_step u w w'"
| unlock: "nsm_use_caller_name cx = u \<Longrightarrow> async_submit_ok cx \<Longrightarrow> range_ok lock \<Longrightarrow> (sa \<longrightarrow> stated obj w)
    \<Longrightarrow> state_unlock cx obj state owner sa nsm_state lock w = Some (st, w') \<Longrightarrow> lock_step u w w'"
| cancel: "nsm_use_caller_name cx = u \<Longrightarrow> async_submit_ok cx
    \<Longrightarrow> state_cancel cx obj owner lock w = Some (st, w') \<Longrightarrow> lock_step u w w'"
| reply: "nsm_use_caller_name cx = u \<Longrightarrow> async_submit_ok cx
    \<Longrightarrow> nlm4_Granted_Res cx cookie accepted w = Some w' \<Longrightarrow> lock_step u w w'"

lemma no_locks_inv: "no_locks w \<Longrightarrow> lock_inv u w"
  unfolding lock_inv_def
  by (intro conjI exI [of _ "\<lambda>_. 0"])
    (auto simp: no_locks_def refs_inv_def entries_ok_def refs_ok_def cookies_ok_def idle_def calm_def excl_def)

lemma lock_step_inv:
  assumes "lock_step u w w'" and "lock_inv u w"
  shows "lock_inv u w'"
  using assms(1)
proof (cases rule: lock_step.cases)
  case (test cx obj state owner lock st info)
  then show ?thesis using state_test_ok [of u cx obj state owner lock w] assms(2) by simp
next
  case (lock cx lock blocking bdata obj p state st info bdata')
  then show ?thesis
    using state_lock_ok [of cx w lock blocking bdata obj p state] assms(2) by auto
next
  case (unlock cx lock sa obj state owner nsm_state st)
  then show ?thesis
    using state_unlock_ok [of cx w lock sa obj state owner nsm_state] assms(2) by auto
next
  case (cancel cx obj owner lock st)
  then show ?thesis using state_cancel_ok [of cx w obj owner lock] assms(2) by auto
next
  case (reply cx cookie accepted)
  then show ?thesis using granted_res_ok [of cx w cookie accepted] assms(2) by auto
qed

lemma lock_run_inv: "(lock_step u)\<^sup>*\<^sup>* w w' \<Longrightarrow> lock_inv u w \<Longrightarrow> lock_inv u w'"
  by (induction rule: rtranclp_induct) (auto intro: lock_step_inv)

lemma sample_inv:
  assumes "distinct (map sle_id xs)"
    and "\<forall>e \<in> set xs. sle_obj e = 5 \<and> sle_id e < 100 \<and> range_ok (sle_lock e) \<and> sle_owner e \<noteq> None
      \<and> sle_ref_count e = 1 \<and> sle_blocked e = STATE_NON_BLOCKING"
    and "excl u (set xs)"
  shows "lock_inv u (sample_sal xs)"
proof -
  have "refs_inv (\<lambda>_. 0) (sample_sal xs)"
    using assms(1,2)
    by (auto simp: refs_inv_def entries_ok_def refs_ok_def cookies_ok_def ent_ok_def cookies_of_def at_rest_def
        waiting_def sample_sal_def)
  moreover have "\<forall>obj. idle (\<lambda>_. 0) obj (sample_sal xs)" by (simp add: idle_def)
  moreover have "calm (sample_sal xs)" by (simp add: calm_def sample_sal_def)
  moreover have "excl u (set (lock_list (sample_sal xs) obj))" for obj
    using assms(3) by (simp add: sample_sal_def excl_def)
  ultimately show ?thesis unfolding lock_inv_def by blast
qed

section \<open>Evaluation\<close>

text \<open>Sample calls, evaluated by rewriting with the definitions.\<close>

lemmas lock_defs =
  state_lock_def lock_proceed_def create_state_lock_entry_def do_lock_op_def merge_lock_entry_def
  merge_loop.simps merge_step_def grant_blocked_locks_def sample_sal_def sample_owner_def sample_lock_def
  lock_end_def different_owners_Some Let_def

lemmas unlock_defs =
  state_unlock_def cancel_blocked_locks_range_def subtract_lock_from_list_def subtract_lock_from_entry_def
  subtract_skips_def remove_from_locklist_def unlink_owner_def free_lock_entry_def try_to_grant_lock_def
  nlm_granted_callback_def state_add_grant_cookie_def next_granted_cookie_def grant_fsal_lock_def
  state_async_schedule_def find_entry_def put_entry_def

lemmas reply_defs =
  state_cancel_def cancel_blocked_lock_def state_find_grant_def nlm4_Granted_Res_def state_complete_grant_def
  free_cookie_def lock_entry_dec_ref_def different_lock_def

definition sample_block :: state_block_data where
  "sample_block =
     \<lparr>sbd_grant_type = STATE_GRANT_NONE, sbd_block_type = STATE_BLOCK_NONE, sbd_blocked_cookie = None\<rparr>"

text \<open>A lock owner of an NLM client; only these wait for locks.\<close>

definition sample_nlm_owner :: "nat \<Rightarrow> state_owner" where
  "sample_nlm_owner n =
     \<lparr>so_ptr = n,
      so_owner = STATE_LOCK_OWNER_NLM
        \<lparr>slc_ptr = 50,
         slc_nsm_client = \<lparr>ssc_ptr = 51, ssc_client = 52, ssc_nlm_caller_name = [99]\<rparr>,
         slc_client_type = 0, slc_server_addr = AF_INET 1 1, slc_nlm_caller_name = [99]\<rparr> (of_nat n),
      so_owner_val = [of_nat n]\<rparr>"

lemma bytes_of_ulong_not_Nil [simp]: "bytes_of_ulong x \<noteq> []"
  by (simp add: bytes_of_ulong_def)

lemma sample_no_locks: "no_locks (sample_sal [])"
  by (simp add: no_locks_def sample_sal_def)

lemma sample_lock_calls:
  "\<exists>w1 w2. state_lock sample_ctx 5 (sample_owner 2) None STATE_NON_BLOCKING None (sample_lock FSAL_LOCK_W 10 10)
       (sample_sal []) = Some (STATE_SUCCESS, None, None, w1)
     \<and> state_lock sample_ctx 5 (sample_owner 3) None STATE_NON_BLOCKING None (sample_lock FSAL_LOCK_R 30 10) w1
       = Some (STATE_SUCCESS, None, None, w2)
     \<and> lock_list w2 5 =
         [(sample_entry 100 2 (sample_lock FSAL_LOCK_W 10 10))\<lparr>sle_state := None\<rparr>,
          (sample_entry 101 3 (sample_lock FSAL_LOCK_R 30 10))\<lparr>sle_state := None\<rparr>]"
  by (simp add: lock_defs sample_entry_def)

text \<open>
  A run in which an owner waits for a lock and is granted it when the holder unlocks; the blocked
  lock is cancelled, or the grant message answered.
\<close>

definition sample_cookie :: "u8 list" where
  "sample_cookie = bytes_of_ulong 0 @ bytes_of_ulong 0 @ bytes_of_ulong 1"

lemma sample_cookie_bytes: "cookie_bytes \<lparr>gc_seconds = 0, gc_microseconds = 0, gc_cookie = 1\<rparr> = sample_cookie"
  by (simp add: cookie_bytes_def sample_cookie_def)

lemma sample_cookie_not_Nil [simp]: "sample_cookie \<noteq> []"
  by (simp add: sample_cookie_def)

lemma sample_grant_calls:
  "\<exists>w1 w2 w3. state_lock sample_ctx 5 (sample_owner 2) None STATE_NON_BLOCKING None (sample_lock FSAL_LOCK_W 10 10)
       (sample_sal []) = Some (STATE_SUCCESS, None, None, w1)
     \<and> state_lock sample_ctx 5 (sample_nlm_owner 3) None STATE_NLM_BLOCKING (Some sample_block)
         (sample_lock FSAL_LOCK_W 15 10) w1 = Some (STATE_LOCK_BLOCKED, None, None, w2)
     \<and> state_unlock sample_ctx 5 None (Some (sample_owner 2)) False 0 (sample_lock FSAL_LOCK_W 0 0) w2
       = Some (STATE_SUCCESS, w3)
     \<and> ht_lock_cookies w3 = [sample_cookie \<mapsto> \<lparr>sce_obj = 5, sce_lock_entry = 101, sce_cookie = sample_cookie\<rparr>]
     \<and> map sle_id (lock_list w2 5) = [100, 101] \<and> map sle_blocked (lock_list w2 5) = [STATE_NON_BLOCKING, STATE_NLM_BLOCKING]
     \<and> map sle_export (lock_list w2 5) = [6, 6] \<and> (\<forall>e \<in> set (tl (lock_list w2 5)). sle_block_data e \<noteq> None)
     \<and> ht_lock_cookies w2 = Map.empty
     \<and> map sle_id (lock_list w3 5) = [101] \<and> map sle_blocked (lock_list w3 5) = [STATE_GRANTING]
     \<and> map sle_ref_count (lock_list w3 5) = [2]
     \<and> (\<forall>e \<in> set (lock_list w3 5). sle_block_data e \<noteq> None)
     \<and> (\<exists>w4. state_cancel sample_ctx 5 (Some (sample_nlm_owner 3)) (sample_lock FSAL_LOCK_W 15 10) w2
             = Some (STATE_SUCCESS, w4) \<and> map sle_id (lock_list w4 5) = [100])
     \<and> (\<exists>w4. nlm4_Granted_Res sample_ctx sample_cookie True w3 = Some w4
             \<and> map sle_blocked (lock_list w4 5) = [STATE_NON_BLOCKING]
             \<and> map sle_ref_count (lock_list w4 5) = [1] \<and> ht_lock_cookies w4 = Map.empty)"
  by (simp add: lock_defs sample_block_def sample_nlm_owner_def)
    (simp add: lock_defs unlock_defs sample_cookie_bytes reply_defs)

lemma sample_steps:
  "state_lock sample_ctx obj p state blocking bdata (sample_lock t s n) w = Some (st, info, bdata', w')
     \<Longrightarrow> range_ok (sample_lock t s n)
     \<Longrightarrow> blocking = STATE_NLM_BLOCKING \<longrightarrow> bdata \<noteq> None \<and> is_STATE_LOCK_OWNER_NLM (so_owner p) \<Longrightarrow> lock_step False w w'"
  "state_unlock sample_ctx obj state owner False nsm_state (sample_lock t s n) w = Some (st, w')
     \<Longrightarrow> range_ok (sample_lock t s n) \<Longrightarrow> lock_step False w w'"
  by (erule lock_step.lock [rotated -1]; simp add: sample_lock_def)
    (erule lock_step.unlock [rotated -1]; simp)

lemma sample_run:
  obtains w1 w2 w3 where
    "state_lock sample_ctx 5 (sample_nlm_owner 3) None STATE_NLM_BLOCKING (Some sample_block)
       (sample_lock FSAL_LOCK_W 15 10) w1 = Some (STATE_LOCK_BLOCKED, None, None, w2)"
    "state_unlock sample_ctx 5 None (Some (sample_owner 2)) False 0 (sample_lock FSAL_LOCK_W 0 0) w2
       = Some (STATE_SUCCESS, w3)"
    "(lock_step False)\<^sup>*\<^sup>* (sample_sal []) w2" "(lock_step False)\<^sup>*\<^sup>* (sample_sal []) w3"
    "lock_inv False w2" "lock_inv False w3"
    "ht_lock_cookies w3 = [sample_cookie \<mapsto> \<lparr>sce_obj = 5, sce_lock_entry = 101, sce_cookie = sample_cookie\<rparr>]"
    "map sle_id (lock_list w2 5) = [100, 101]" "map sle_blocked (lock_list w2 5) = [STATE_NON_BLOCKING, STATE_NLM_BLOCKING]"
    "\<forall>e \<in> set (tl (lock_list w2 5)). sle_block_data e \<noteq> None" "ht_lock_cookies w2 = Map.empty"
    "map sle_id (lock_list w3 5) = [101]" "map sle_blocked (lock_list w3 5) = [STATE_GRANTING]"
    "map sle_ref_count (lock_list w3 5) = [2]" "\<forall>e \<in> set (lock_list w3 5). sle_block_data e \<noteq> None"
    "\<exists>w4. state_cancel sample_ctx 5 (Some (sample_nlm_owner 3)) (sample_lock FSAL_LOCK_W 15 10) w2
       = Some (STATE_SUCCESS, w4) \<and> map sle_id (lock_list w4 5) = [100]"
    "\<exists>w4. nlm4_Granted_Res sample_ctx sample_cookie True w3 = Some w4
       \<and> map sle_blocked (lock_list w4 5) = [STATE_NON_BLOCKING]
       \<and> map sle_ref_count (lock_list w4 5) = [1] \<and> ht_lock_cookies w4 = Map.empty"
proof -
  from sample_grant_calls obtain w1 w2 w3 where
    r: "state_lock sample_ctx 5 (sample_owner 2) None STATE_NON_BLOCKING None (sample_lock FSAL_LOCK_W 10 10)
          (sample_sal []) = Some (STATE_SUCCESS, None, None, w1)"
      "state_lock sample_ctx 5 (sample_nlm_owner 3) None STATE_NLM_BLOCKING (Some sample_block)
         (sample_lock FSAL_LOCK_W 15 10) w1 = Some (STATE_LOCK_BLOCKED, None, None, w2)"
      "state_unlock sample_ctx 5 None (Some (sample_owner 2)) False 0 (sample_lock FSAL_LOCK_W 0 0) w2
         = Some (STATE_SUCCESS, w3)"
    and facts: "ht_lock_cookies w3 = [sample_cookie \<mapsto> \<lparr>sce_obj = 5, sce_lock_entry = 101, sce_cookie = sample_cookie\<rparr>]"
      "map sle_id (lock_list w2 5) = [100, 101]" "map sle_blocked (lock_list w2 5) = [STATE_NON_BLOCKING, STATE_NLM_BLOCKING]"
      "\<forall>e \<in> set (tl (lock_list w2 5)). sle_block_data e \<noteq> None" "ht_lock_cookies w2 = Map.empty"
      "map sle_id (lock_list w3 5) = [101]" "map sle_blocked (lock_list w3 5) = [STATE_GRANTING]"
      "map sle_ref_count (lock_list w3 5) = [2]" "\<forall>e \<in> set (lock_list w3 5). sle_block_data e \<noteq> None"
      "\<exists>w4. state_cancel sample_ctx 5 (Some (sample_nlm_owner 3)) (sample_lock FSAL_LOCK_W 15 10) w2
         = Some (STATE_SUCCESS, w4) \<and> map sle_id (lock_list w4 5) = [100]"
      "\<exists>w4. nlm4_Granted_Res sample_ctx sample_cookie True w3 = Some w4
         \<and> map sle_blocked (lock_list w4 5) = [STATE_NON_BLOCKING]
         \<and> map sle_ref_count (lock_list w4 5) = [1] \<and> ht_lock_cookies w4 = Map.empty"
    by (elim exE) (rule that; elim conjE; assumption)
  have s: "lock_step False (sample_sal []) w1" "lock_step False w1 w2" "lock_step False w2 w3"
    using sample_steps(1) [OF r(1)] sample_steps(1) [OF r(2)] sample_steps(2) [OF r(3)]
    by (simp_all add: range_ok_def sample_nlm_owner_def)
  then have run: "(lock_step False)\<^sup>*\<^sup>* (sample_sal []) w2" "(lock_step False)\<^sup>*\<^sup>* (sample_sal []) w3"
    by (meson converse_rtranclp_into_rtranclp rtranclp.rtrancl_refl)+
  note inv = lock_run_inv [OF run(1) no_locks_inv [OF sample_no_locks]]
    lock_run_inv [OF run(2) no_locks_inv [OF sample_no_locks]]
  show thesis by (rule that [OF r(2,3) run inv facts])
qed

section \<open>Exclusion\<close>

text \<open>
  C1.  Mutual exclusion.  Starting without locks, after any sequence of lock tests, locks, unlocks,
  cancellations and replies to grants, the bytes one owner has locked for writing (or is being
  granted) are disjoint from the bytes any other owner has locked or is being granted on the same
  file.  The calls are those of lock_step: no reclaims, lock requests on exports whose file system
  does not block asynchronously, ranges that do not wrap around, asynchronous submissions that
  succeed, and NLM-blocking requests with block data and an owner of an NLM client.
\<close>

theorem locks_exclusive:
  assumes "no_locks w" and "(lock_step u)\<^sup>*\<^sup>* w w'"
    and "e \<in> set (lock_list w' obj)" "f \<in> set (lock_list w' obj)" "active e" "active f"
    and "sle_type e = FSAL_LOCK_W" "different_owners u (sle_owner e) (sle_owner f)"
  shows "sle_bytes e \<inter> sle_bytes f = {}"
proof -
  have "excl u (set (lock_list w' obj))"
    using lock_run_inv [OF assms(2) no_locks_inv [OF assms(1)]] unfolding lock_inv_def by blast
  with assms(3-8) show ?thesis unfolding excl_def by blast
qed

theorem locks_exclusive_witness:
  "\<exists>w'. no_locks (sample_sal []) \<and> (lock_step False)\<^sup>*\<^sup>* (sample_sal []) w'
     \<and> (\<exists>e \<in> set (lock_list w' 5). \<exists>f \<in> set (lock_list w' 5). active e \<and> active f \<and> sle_type e = FSAL_LOCK_W
          \<and> different_owners False (sle_owner e) (sle_owner f) \<and> sle_bytes e \<inter> sle_bytes f = {})"
proof -
  obtain w1 w2 where r: "state_lock sample_ctx 5 (sample_owner 2) None STATE_NON_BLOCKING None
      (sample_lock FSAL_LOCK_W 10 10) (sample_sal []) = Some (STATE_SUCCESS, None, None, w1)"
    "state_lock sample_ctx 5 (sample_owner 3) None STATE_NON_BLOCKING None (sample_lock FSAL_LOCK_R 30 10) w1
       = Some (STATE_SUCCESS, None, None, w2)"
    "lock_list w2 5 =
         [(sample_entry 100 2 (sample_lock FSAL_LOCK_W 10 10))\<lparr>sle_state := None\<rparr>,
          (sample_entry 101 3 (sample_lock FSAL_LOCK_R 30 10))\<lparr>sle_state := None\<rparr>]"
    using sample_lock_calls by blast
  have "lock_step False (sample_sal []) w1" "lock_step False w1 w2"
    using sample_steps(1) [OF r(1)] sample_steps(1) [OF r(2)] by (simp_all add: range_ok_def)
  then have run: "(lock_step False)\<^sup>*\<^sup>* (sample_sal []) w2" by simp
  note locks_exclusive [OF sample_no_locks run, of "lock_list w2 5 ! 0" 5 "lock_list w2 5 ! 1"]
  with r(3) run sample_no_locks show ?thesis
    by (intro exI [of _ w2]) (simp add: active_def)
qed

text \<open>
  C2.  Grant cookies never dangle.  After any sequence of calls of lock_step from a state without
  locks (no reclaims, no asynchronous blocking in the file system, asynchronous submissions that
  succeed), every cookie of the cookie table names a lock entry that is still allocated, belongs to
  the file the cookie names, and holds a reference for the cookie.
\<close>

theorem cookies_never_dangle:
  assumes "no_locks w" and "(lock_step u)\<^sup>*\<^sup>* w w'" and "ht_lock_cookies w' k = Some c"
  shows "\<exists>e. entry_at (sce_lock_entry c) w' = Some e \<and> sle_obj e = sce_obj c \<and> 0 < sle_ref_count e"
proof -
  obtain x where inv: "refs_inv x w'"
    using lock_run_inv [OF assms(2) no_locks_inv [OF assms(1)]] unfolding lock_inv_def by blast
  then have "entry_at (sce_lock_entry c) w' \<noteq> None" and ob: "sce_obj c = sle_file w' (sce_lock_entry c)"
    using assms(3) unfolding refs_inv_def cookies_ok_def by blast+
  then obtain e where e: "entry_at (sce_lock_entry c) w' = Some e" by blast
  have "sle_file w' (sce_lock_entry c) = sle_obj e \<and> 0 < sle_ref_count e"
    using inv by (cases rule: entry_at_cases [OF inv e]) (auto simp: refs_inv_def entries_ok_def refs_ok_def ent_ok_def)
  with e ob show ?thesis by simp
qed

theorem cookies_never_dangle_witness:
  "\<exists>w' c e. no_locks (sample_sal []) \<and> (lock_step False)\<^sup>*\<^sup>* (sample_sal []) w'
     \<and> ht_lock_cookies w' sample_cookie = Some c
     \<and> entry_at 101 w' = Some e \<and> sle_obj e = 5 \<and> 0 < sle_ref_count e"
proof -
  obtain w3 where run: "(lock_step False)\<^sup>*\<^sup>* (sample_sal []) w3"
    and c: "ht_lock_cookies w3 = [sample_cookie \<mapsto> \<lparr>sce_obj = 5, sce_lock_entry = 101, sce_cookie = sample_cookie\<rparr>]"
    by (rule sample_run) (rule that; assumption)
  from cookies_never_dangle [OF sample_no_locks run, of sample_cookie]
  show ?thesis using c run sample_no_locks by (intro exI [of _ w3]) auto
qed

text \<open>
  C3.  Reference counts stay small.  After any sequence of calls of lock_step from a state without
  locks, an entry on the list of a file has one or two references, at least one more than there are
  grant cookies that name it, so at most one grant of it is in flight; an entry that is off the list
  has exactly one.  The 32-bit counter of an entry therefore never wraps around.
\<close>

theorem entry_refs_bounded:
  assumes "no_locks w" and "(lock_step u)\<^sup>*\<^sup>* w w'"
  shows "(\<forall>e \<in> set (lock_list w' obj). sle_ref_count e \<in> {1, 2}
       \<and> finite {k. \<exists>c. ht_lock_cookies w' k = Some c \<and> sce_lock_entry c = sle_id e}
       \<and> int (card {k. \<exists>c. ht_lock_cookies w' k = Some c \<and> sce_lock_entry c = sle_id e}) < sle_ref_count e)
     \<and> (\<forall>e \<in> set (detached w'). sle_ref_count e = 1)"
proof -
  obtain x where inv: "refs_inv x w'"
    using lock_run_inv [OF assms(2) no_locks_inv [OF assms(1)]] unfolding lock_inv_def by blast
  have "sle_ref_count e \<in> {1, 2} \<and> finite (cookies_of w' (sle_id e))
      \<and> int (card (cookies_of w' (sle_id e))) < sle_ref_count e"
    if "e \<in> set (lock_list w' obj)" for e
    using list_entry(6,10) [OF inv that] cookies_of_finite [OF inv, of "sle_id e"] by (auto simp: at_rest_def)
  then show ?thesis using detached_entry(5) [OF inv] by (simp add: cookies_of_def)
qed

theorem entry_refs_bounded_witness:
  "\<exists>w' e. no_locks (sample_sal []) \<and> (lock_step False)\<^sup>*\<^sup>* (sample_sal []) w'
     \<and> ht_lock_cookies w' sample_cookie \<noteq> None \<and> e \<in> set (lock_list w' 5) \<and> sle_id e = 101
     \<and> sle_ref_count e \<in> {1, 2}"
proof -
  obtain w3 where run: "(lock_step False)\<^sup>*\<^sup>* (sample_sal []) w3"
    and c: "ht_lock_cookies w3 = [sample_cookie \<mapsto> \<lparr>sce_obj = 5, sce_lock_entry = 101, sce_cookie = sample_cookie\<rparr>]"
    and i: "map sle_id (lock_list w3 5) = [101]"
    by (rule sample_run) (rule that; assumption)
  from i obtain e where e: "e \<in> set (lock_list w3 5)" "sle_id e = 101" by auto
  from entry_refs_bounded [OF sample_no_locks run, of 5] e
  show ?thesis using c run sample_no_locks by (intro exI [of _ w3] exI [of _ e]) simp
qed

section \<open>What each call does\<close>

lemma sample_holder_inv: "lock_inv False (sample_sal [sample_entry 7 3 (sample_lock FSAL_LOCK_W 10 10)])"
  by (rule sample_inv) (simp_all add: excl_def range_ok_def, simp add: sample_entry_def)

text \<open>
  C4.  A lock request that is no reclaim and does not wrap around, on an export whose file system does
  not block asynchronously, always returns and keeps the invariant of the lock manager (references,
  cookies, exclusion), provided asynchronous submissions succeed and an NLM-blocking request has block
  data and an owner of an NLM client.  A successful answer means that every byte asked for is in an
  entry of the owner, of the type asked for, that is granted or whose grant is in progress.
\<close>

theorem state_lock_correct:
  assumes "lock_inv (nsm_use_caller_name cx) w" and "async_submit_ok cx" "range_ok lock"
    and "\<not> lock_reclaim lock" "\<not> fso_lock_support_async_block (fsal_export cx)"
    and "blocking = STATE_NLM_BLOCKING \<Longrightarrow> bdata \<noteq> None \<and> is_STATE_LOCK_OWNER_NLM (so_owner owner)"
  shows "\<exists>st info bdata' w'. state_lock cx obj owner state blocking bdata lock w = Some (st, info, bdata', w')
    \<and> lock_inv (nsm_use_caller_name cx) w'
    \<and> (st = STATE_SUCCESS \<longrightarrow> covered (nsm_use_caller_name cx) (Some owner) lock (lock_list w' obj))"
  using assms by (rule state_lock_ok)

theorem state_lock_correct_witness:
  "\<exists>info bdata' w'. state_lock sample_ctx 5 (sample_owner 2) None STATE_NON_BLOCKING None
       (sample_lock FSAL_LOCK_R 30 10) (sample_sal [sample_entry 7 3 (sample_lock FSAL_LOCK_W 10 10)])
         = Some (STATE_SUCCESS, info, bdata', w')
     \<and> covered False (Some (sample_owner 2)) (sample_lock FSAL_LOCK_R 30 10) (lock_list w' 5)"
proof -
  let ?w = "sample_sal [sample_entry 7 3 (sample_lock FSAL_LOCK_W 10 10)]"
  have "\<exists>r. state_lock sample_ctx 5 (sample_owner 2) None STATE_NON_BLOCKING None (sample_lock FSAL_LOCK_R 30 10) ?w
      = Some (STATE_SUCCESS, r)" by (simp add: lock_defs sample_entry_def)
  then show ?thesis
    using state_lock_correct [of sample_ctx ?w "sample_lock FSAL_LOCK_R 30 10" STATE_NON_BLOCKING None
        "sample_owner 2" 5 None] sample_holder_inv by (auto simp: range_ok_def sample_lock_def lock_end_def)
qed







text \<open>
  C5.  An unlock of a range that does not wrap around always returns and keeps the invariant of the lock
  manager, provided asynchronous submissions succeed and, when an NLM state number restricts the
  unlock, every entry of the file has a state.  On a regular file, and when no NLM state number
  restricts it, afterwards no granted lock of the owner has a byte of the range (of any owner, when
  none is given).
\<close>

theorem state_unlock_correct:
  assumes "lock_inv (nsm_use_caller_name cx) w" and "async_submit_ok cx" "range_ok lock"
    and "sa \<longrightarrow> stated obj w"
  shows "\<exists>st w'. state_unlock cx obj state owner sa nsm_state lock w = Some (st, w')
    \<and> lock_inv (nsm_use_caller_name cx) w'
    \<and> (obj_is_regular cx obj \<longrightarrow> \<not> sa \<longrightarrow> cleared (nsm_use_caller_name cx) owner lock (lock_list w' obj))"
  using assms by (rule state_unlock_ok)

theorem state_unlock_correct_witness:
  "\<exists>st w'. state_unlock sample_ctx 5 None (Some (sample_owner 3)) False 0 (sample_lock FSAL_LOCK_W 12 3)
       (sample_sal [sample_entry 7 3 (sample_lock FSAL_LOCK_W 10 10)]) = Some (st, w')
     \<and> cleared False (Some (sample_owner 3)) (sample_lock FSAL_LOCK_W 12 3) (lock_list w' 5)"
  using state_unlock_correct [of sample_ctx "sample_sal [sample_entry 7 3 (sample_lock FSAL_LOCK_W 10 10)]"
      "sample_lock FSAL_LOCK_W 12 3" False 5 None "Some (sample_owner 3)" 0] sample_holder_inv
  by (auto simp: range_ok_def)

text \<open>
  C15.  Provided asynchronous submissions succeed, cancelling a blocked lock and answering a grant
  message always return and keep the invariant of the lock manager, whatever cookie the client answers
  with and whether it accepts the lock.
\<close>

theorem cancel_and_reply_return:
  assumes "lock_inv (nsm_use_caller_name cx) w" and "async_submit_ok cx"
  shows "(\<exists>st w'. state_cancel cx obj owner lock w = Some (st, w') \<and> lock_inv (nsm_use_caller_name cx) w')
    \<and> (\<exists>w'. nlm4_Granted_Res cx cookie accepted w = Some w' \<and> lock_inv (nsm_use_caller_name cx) w')"
  using state_cancel_ok [OF assms] granted_res_ok [OF assms] by blast

theorem cancel_and_reply_return_witness:
  "(\<exists>w w'. map sle_id (lock_list w 5) = [100, 101]
      \<and> state_cancel sample_ctx 5 (Some (sample_nlm_owner 3)) (sample_lock FSAL_LOCK_W 15 10) w
          = Some (STATE_SUCCESS, w')
      \<and> map sle_id (lock_list w' 5) = [100] \<and> lock_inv False w')
   \<and> (\<exists>w w'. map sle_blocked (lock_list w 5) = [STATE_GRANTING] \<and> ht_lock_cookies w sample_cookie \<noteq> None
      \<and> nlm4_Granted_Res sample_ctx sample_cookie True w = Some w'
      \<and> map sle_blocked (lock_list w' 5) = [STATE_NON_BLOCKING] \<and> ht_lock_cookies w' = Map.empty
      \<and> lock_inv False w')"
proof -
  obtain w2 w3 where inv: "lock_inv False w2" "lock_inv False w3"
    and i: "map sle_id (lock_list w2 5) = [100, 101]" "map sle_blocked (lock_list w3 5) = [STATE_GRANTING]"
    and c: "ht_lock_cookies w3 = [sample_cookie \<mapsto> \<lparr>sce_obj = 5, sce_lock_entry = 101, sce_cookie = sample_cookie\<rparr>]"
    and r: "\<exists>w4. state_cancel sample_ctx 5 (Some (sample_nlm_owner 3)) (sample_lock FSAL_LOCK_W 15 10) w2
        = Some (STATE_SUCCESS, w4) \<and> map sle_id (lock_list w4 5) = [100]"
      "\<exists>w4. nlm4_Granted_Res sample_ctx sample_cookie True w3 = Some w4
        \<and> map sle_blocked (lock_list w4 5) = [STATE_NON_BLOCKING]
        \<and> map sle_ref_count (lock_list w4 5) = [1] \<and> ht_lock_cookies w4 = Map.empty"
    by (rule sample_run) (rule that; assumption)
  have "\<exists>w'. state_cancel sample_ctx 5 (Some (sample_nlm_owner 3)) (sample_lock FSAL_LOCK_W 15 10) w2
        = Some (STATE_SUCCESS, w') \<and> map sle_id (lock_list w' 5) = [100] \<and> lock_inv False w'"
    using cancel_and_reply_return [of sample_ctx w2 5 "Some (sample_nlm_owner 3)" "sample_lock FSAL_LOCK_W 15 10"]
      inv(1) r(1) by auto
  moreover have "\<exists>w'. nlm4_Granted_Res sample_ctx sample_cookie True w3 = Some w'
      \<and> map sle_blocked (lock_list w' 5) = [STATE_NON_BLOCKING] \<and> ht_lock_cookies w' = Map.empty \<and> lock_inv False w'"
    using cancel_and_reply_return [of sample_ctx w3 5 None "sample_lock FSAL_LOCK_W 15 10" sample_cookie True]
      inv(2) r(2) by auto
  moreover have "ht_lock_cookies w3 sample_cookie \<noteq> None" using c by simp
  ultimately show ?thesis using i by (intro conjI) metis+
qed

text \<open>
  C16.  The search of the lock list for a conflict, which compares the ends of 64-bit ranges, finds
  the first entry that is held or being granted, belongs to another owner, shares a byte with the
  request, and has or meets the write type.
\<close>

theorem get_overlapping_entry_finds:
  assumes "range_ok lock" and "\<forall>e \<in> set xs. range_ok (sle_lock e)"
  shows "get_overlapping_entry u xs owner lock = List.find (conflicts u owner lock) xs"
  using assms by (rule get_overlapping_find)

theorem get_overlapping_entry_finds_witness:
  "get_overlapping_entry False [sample_entry 7 3 (sample_lock FSAL_LOCK_W 10 10)] (Some (sample_owner 2))
     (sample_lock FSAL_LOCK_R 19 0)
     = List.find (conflicts False (Some (sample_owner 2)) (sample_lock FSAL_LOCK_R 19 0))
         [sample_entry 7 3 (sample_lock FSAL_LOCK_W 10 10)]"
  by (rule get_overlapping_entry_finds) (simp_all add: range_ok_def)

section \<open>What the client is told\<close>

lemma create_entry_sel:
  assumes "create_state_lock_entry obj exp blocked owner state lock w = (e, w')"
  shows "lock_list w' = lock_list w" "fsal_state w' = fsal_state w"
    "sle_obj e = obj" "sle_owner e = Some owner" "sle_lock e = lock" "sle_blocked e = blocked" "sle_ref_count e = 1"
  using assms by (auto simp: create_state_lock_entry_def Let_def split: option.splits if_splits)

lemma remove_entry_sel:
  "sle_obj e = obj \<Longrightarrow> lock_list w obj = [] \<Longrightarrow> lock_list (remove_from_locklist e w) obj = []"
  "fsal_state (remove_from_locklist e w) = fsal_state w"
  by (simp_all add: remove_from_locklist_def unlink_owner_def free_lock_entry_def Let_def split: option.splits)

text \<open>
  C9.  On a file without locks in the server the file system decides.  When the export supports locks
  but not asynchronous blocking, the file system is asked once, for a lock without waiting, and its
  answer reaches the client and the lock list consistently: an NLM client is told the lock is granted,
  and an NFSv4 client that the call succeeded, exactly when the file system reported no error, and
  exactly then the lock is listed as held; a conflict (ERR_FSAL_DELAY, ERR_FSAL_ACCESS) makes an
  NLM-blocking request wait, listed as such, and denies any other request with the conflicting range
  of the file system; in all other cases nothing is listed.
\<close>

theorem file_system_decides:
  assumes "lock_list w obj = []" and "fso_lock_support (fsal_export cx)"
    and "\<not> fso_lock_support_async_block (fsal_export cx)"
    and "blocking = STATE_NLM_BLOCKING \<Longrightarrow> bdata \<noteq> None"
    and "lock_op2 (fsal_export cx) obj state (Some owner) FSAL_OP_LOCK (lock\<lparr>lock_sle_type := FSAL_POSIX_LOCK\<rparr>)
           (fsal_state w) = (major, held, f')"
  shows "\<exists>status info bdata' w'. state_lock cx obj owner state blocking bdata lock w = Some (status, info, bdata', w')
    \<and> fsal_state w' = f'
    \<and> (nlm_convert_state_error status = NLM4_GRANTED \<longleftrightarrow> major = ERR_FSAL_NO_ERROR)
    \<and> (nfs4_Errno_state status = NFS4_OK \<longleftrightarrow> major = ERR_FSAL_NO_ERROR)
    \<and> (nlm_convert_state_error status = NLM4_BLOCKED
         \<longleftrightarrow> blocking = STATE_NLM_BLOCKING \<and> major \<in> {ERR_FSAL_DELAY, ERR_FSAL_ACCESS})
    \<and> (nlm_convert_state_error status = NLM4_DENIED
         \<longleftrightarrow> blocking \<noteq> STATE_NLM_BLOCKING \<and> major \<in> {ERR_FSAL_DELAY, ERR_FSAL_ACCESS} \<or> major = ERR_FSAL_SHARE_DENIED)
    \<and> (nfs4_Errno_state status = NFS4ERR_DENIED \<longleftrightarrow> major \<in> {ERR_FSAL_DELAY, ERR_FSAL_ACCESS})
    \<and> info = (if blocking \<noteq> STATE_NLM_BLOCKING \<and> major \<in> {ERR_FSAL_DELAY, ERR_FSAL_ACCESS}
               then Some (Some unknown_owner, held) else None)
    \<and> map (\<lambda>e. (sle_owner e, sle_lock e, sle_blocked e)) (lock_list w' obj)
        = (if major = ERR_FSAL_NO_ERROR then [(Some owner, lock, STATE_NON_BLOCKING)]
           else if blocking = STATE_NLM_BLOCKING \<and> major \<in> {ERR_FSAL_DELAY, ERR_FSAL_ACCESS}
           then [(Some owner, lock, STATE_NLM_BLOCKING)] else [])"
proof -
  obtain e w1 where c: "create_state_lock_entry obj (ctx_export cx) STATE_NON_BLOCKING owner state lock w = (e, w1)"
    by fastforce
  note C = create_entry_sel [OF c]
  have l: "lock_list w1 obj = []" using C(1) assms(1) by simp
  have p: "state_lock cx obj owner state blocking bdata lock w
      = lock_proceed cx obj owner state blocking bdata lock True None w"
    using assms(1) by (simp add: state_lock_def Let_def)
  have f: "lock_op2 (fsal_export cx) obj state (Some owner) FSAL_OP_LOCK (lock\<lparr>lock_sle_type := FSAL_POSIX_LOCK\<rparr>)
       (fsal_state w1) = (major, held, f')"
    using assms(5) C(2) by simp
  note D = lock_proceed_def c do_lock_op_def assms(2,3) l f C(3-7)
  consider (ok) "major = ERR_FSAL_NO_ERROR" | (conflict) "major = ERR_FSAL_DELAY \<or> major = ERR_FSAL_ACCESS"
    | (other) "state_error_convert major \<noteq> STATE_SUCCESS" "state_error_convert major \<noteq> STATE_LOCK_CONFLICT"
    by (cases major) simp_all
  then show ?thesis
  proof cases
    case ok
    then show ?thesis unfolding p
      by (simp add: D merge_lock_entry_def merge_loop.simps grant_blocked_locks_def nlm_convert_state_error_def)
  next
    case conflict
    then show ?thesis
    proof (cases "blocking = STATE_NLM_BLOCKING")
      case True
      then obtain b where "bdata = Some b" using assms(4) by blast
      with True conflict show ?thesis unfolding p by (auto simp: D nlm_convert_state_error_def)
    next
      case False
      with conflict show ?thesis unfolding p
        by (auto simp: D nlm_convert_state_error_def remove_entry_sel)
    qed
  next
    case other
    then show ?thesis unfolding p
      by (cases major) (simp_all add: D nlm_convert_state_error_def remove_entry_sel)
  qed
qed

definition denying_fsal :: "fsal_errors \<Rightarrow> unit fsal_ops" where
  "denying_fsal major =
     \<lparr>fso_lock_support = True, fso_lock_support_async_block = False,
      lock_op2 = (\<lambda>obj state owner op lock f. (major, sample_lock FSAL_LOCK_W 0 100, f))\<rparr>"

theorem file_system_decides_witness:
  "\<exists>status bdata' w'. state_lock (sample_ctx\<lparr>export_fsal := \<lambda>_. denying_fsal ERR_FSAL_DELAY\<rparr>) 5 (sample_owner 2) None
       STATE_NON_BLOCKING None (sample_lock FSAL_LOCK_R 30 10) (sample_sal [])
         = Some (status, Some (Some unknown_owner, sample_lock FSAL_LOCK_W 0 100), bdata', w')
     \<and> nlm_convert_state_error status = NLM4_DENIED \<and> nfs4_Errno_state status = NFS4ERR_DENIED \<and> lock_list w' 5 = []"
  using file_system_decides [of "sample_sal []" 5 "sample_ctx\<lparr>export_fsal := \<lambda>_. denying_fsal ERR_FSAL_DELAY\<rparr>"
      STATE_NON_BLOCKING None None "sample_owner 2" "sample_lock FSAL_LOCK_R 30 10" ERR_FSAL_DELAY
      "sample_lock FSAL_LOCK_W 0 100" "()"]
  by (simp add: denying_fsal_def) blast

end
