(* ===== verification/GrantFaults.thy ===== *)
theory GrantFaults
  imports LockGuarantees
begin

text \<open>
  Two ways in which a grant in progress goes wrong.  The message to the client cannot be submitted,
  and its cookie stays in the table after the lock entry is freed; or all locks of the file are
  removed while the message is under way, and the entry is released once too often when the client
  answers.
\<close>

section \<open>Finding entries\<close>

lemma find_entry_fields [simp]:
  "find_entry obj i (w\<lparr>ht_lock_cookies := h\<rparr>) = find_entry obj i w"
  "find_entry obj i (w\<lparr>slc_refcount := s\<rparr>) = find_entry obj i w"
  "find_entry obj i (w\<lparr>granted_cookie_ctr := g\<rparr>) = find_entry obj i w"
  "find_entry obj i (w\<lparr>state_blocked_locks := b\<rparr>) = find_entry obj i w"
  "find_entry obj i (w\<lparr>export_refcount := r\<rparr>) = find_entry obj i w"
  by (simp_all add: find_entry_def)

lemma find_put_entry:
  assumes "find_entry obj i w \<noteq> None" and "sle_id e = i" "sle_obj e = obj"
  shows "find_entry obj i (put_entry e w) = Some e"
proof -
  have "List.find (\<lambda>x. sle_id x = i) (map (\<lambda>x. if sle_id x = i then e else x) xs) = Some e"
    if "\<exists>x \<in> set xs. sle_id x = i" for xs
    using that assms(2) by (induction xs) auto
  from this [of "lock_list w obj @ detached w"] show ?thesis
    using assms by (auto simp: find_entry_def put_entry_def find_None_iff Let_def)
qed

lemma find_freed_entry: "find_entry (sle_obj e) (sle_id e) (free_lock_entry e w) = None"
  by (auto simp: find_entry_def free_lock_entry_def find_None_iff)

lemma find_removed_entry:
  "sle_ref_count e = 1 \<Longrightarrow> find_entry (sle_obj e) (sle_id e) (remove_from_locklist e w) = None"
  using find_freed_entry [of "e\<lparr>sle_owner := None, sle_ref_count := 0\<rparr>"]
  by (simp add: remove_from_locklist_def Let_def)

lemma remove_fields [simp]:
  "ht_lock_cookies (remove_from_locklist e w) = ht_lock_cookies w" "sle_file (remove_from_locklist e w) = sle_file w"
  by (simp_all add: remove_from_locklist_def unlink_owner_def free_lock_entry_def Let_def split: option.splits)

lemma put_fields [simp]:
  "ht_lock_cookies (put_entry e w) = ht_lock_cookies w" "sle_file (put_entry e w) = sle_file w"
  "granted_cookie_ctr (put_entry e w) = granted_cookie_ctr w"
  by (simp_all add: put_entry_def Let_def)

section \<open>A grant that cannot be submitted\<close>

text \<open>Without locks in the file system, every kind of grant succeeds there.\<close>

lemma grant_fsal_supported:
  "\<not> fso_lock_support (fsal_export cx) \<Longrightarrow> t \<noteq> STATE_GRANT_NONE \<Longrightarrow> grant_fsal_lock cx obj e t w = (STATE_SUCCESS, w)"
  by (cases t) (simp_all add: grant_fsal_lock_def do_lock_op_def)

lemma callback_unscheduled:
  assumes e: "find_entry (sle_obj e) (sle_id e) w \<noteq> None" "nlm_owned e" "sle_block_data e = Some b"
      "sbd_grant_type b \<noteq> STATE_GRANT_NONE" "sle_ref_count e \<noteq> 0"
    and cx: "\<not> async_submit_ok cx" "\<not> fso_lock_support (fsal_export cx)"
    and k: "fst (next_granted_cookie w) = k" "ht_lock_cookies w k = None"
  shows "\<exists>w' e'. nlm_granted_callback cx (sle_obj e) e w = Some (STATE_SIGNAL_ERROR, w')
    \<and> find_entry (sle_obj e) (sle_id e) w' = Some e' \<and> sle_ref_count e' = sle_ref_count e
    \<and> sle_id e' = sle_id e \<and> sle_obj e' = sle_obj e \<and> sle_file w' = sle_file w
    \<and> ht_lock_cookies w' k = Some \<lparr>sce_obj = sle_obj e, sce_lock_entry = sle_id e, sce_cookie = k\<rparr>"
proof -
  let ?o = "sle_obj e" and ?i = "sle_id e"
  define w1 where "w1 = snd (next_granted_cookie w)"
  let ?c = "\<lparr>sce_obj = ?o, sce_lock_entry = ?i, sce_cookie = k\<rparr>"
  let ?w2 = "w1\<lparr>ht_lock_cookies := (ht_lock_cookies w1)(k \<mapsto> ?c)\<rparr>"
  define e1 where "e1 = e\<lparr>sle_ref_count := sle_ref_count e + 1,
                           sle_block_data := Some (b\<lparr>sbd_blocked_cookie := Some k\<rparr>)\<rparr>"
  have e1: "sle_obj e1 = ?o" "sle_id e1 = ?i" "sle_ref_count e1 = sle_ref_count e + 1" by (simp_all add: e1_def)
  obtain owner cl sv where o: "sle_owner e = Some owner" "so_owner owner = STATE_LOCK_OWNER_NLM cl sv"
    using e(2) unfolding nlm_owned_def by (metis so_kind.collapse(1))
  have n: "next_granted_cookie w = (k, w1)" using k(1) by (simp add: prod_eq_iff w1_def)
  have N: "ht_lock_cookies w1 = ht_lock_cookies w" "sle_file w1 = sle_file w" "find_entry obj j w1 = find_entry obj j w" for obj j
    by (simp_all add: next_granted_cookie_def Let_def w1_def)
  have "k \<noteq> []" using k(1) by (auto simp: next_granted_cookie_def cookie_bytes_def bytes_of_ulong_def)
  then have a: "state_add_grant_cookie cx ?o k e w1 = (STATE_SUCCESS, Some ?c, put_entry e1 ?w2)"
    using e(3,4) k(2) by (simp add: state_add_grant_cookie_def N grant_fsal_supported [OF cx(2)] e1_def Let_def)
  have f: "find_entry ?o ?i (put_entry e1 ?w2) = Some e1"
    by (rule find_put_entry) (use e(1) e1 N in simp_all)
  let ?w3 = "(put_entry e1 ?w2)\<lparr>slc_refcount := decr (incr (slc_refcount (put_entry e1 ?w2)) (slc_ptr cl)) (slc_ptr cl)\<rparr>"
  define e2 where "e2 = e1\<lparr>sle_block_data := map_option (\<lambda>b. b\<lparr>sbd_blocked_cookie := None\<rparr>) (sle_block_data e1),
                             sle_ref_count := sle_ref_count e\<rparr>"
  have "nlm_granted_callback cx ?o e w = Some (STATE_SIGNAL_ERROR, put_entry e2 ?w3)"
    using o f e(5) e1(3)
    by (simp add: nlm_granted_callback_def n a state_async_schedule_def cx state_cancel_grant_def do_lock_op_def
        free_cookie_def lock_entry_dec_ref_def e2_def)
  moreover have "find_entry ?o ?i (put_entry e2 ?w3) = Some e2"
    by (rule find_put_entry) (use f e1 in \<open>simp_all add: e2_def\<close>)
  ultimately show ?thesis using e1 N by (intro exI [of _ "put_entry e2 ?w3"] exI [of _ e2]) (simp add: e2_def)
qed

text \<open>
  C18.  When the grant message of a waiting lock cannot be submitted, the entry is freed but its
  cookie stays in the table and dangles.
\<close>

theorem unscheduled_grant_dangles:
  assumes "lock_inv u w" and "e \<in> set (lock_list w obj)" "waiting e" "sle_block_data e \<noteq> None"
    and "export_ready cx (sle_export e)" "\<not> fso_lock_support (fsal_export cx)" "\<not> async_submit_ok cx"
    and "ht_lock_cookies w (fst (next_granted_cookie w)) = None"
  shows "\<exists>w' c. try_to_grant_lock cx e w = Some w'
    \<and> ht_lock_cookies w' (fst (next_granted_cookie w)) = Some c \<and> sce_lock_entry c = sle_id e
    \<and> entry_at (sle_id e) w' = None"
proof -
  obtain x where x: "refs_inv x w" using assms(1) unfolding lock_inv_def by blast
  note E = list_entry [OF x assms(2)]
  obtain b where b: "sle_block_data e = Some b" using assms(4) by blast
  define g where "g = (if sbd_grant_type b = STATE_GRANT_NONE then STATE_GRANT_INTERNAL else sbd_grant_type b)"
  define e1 where "e1 = e\<lparr>sle_blocked := STATE_GRANTING, sle_block_data := Some (b\<lparr>sbd_grant_type := g\<rparr>)\<rparr>"
  have e1: "sle_obj e1 = obj" "sle_id e1 = sle_id e" "sle_ref_count e1 = 1" "nlm_owned e1"
    "sle_block_data e1 = Some (b\<lparr>sbd_grant_type := g\<rparr>)" "g \<noteq> STATE_GRANT_NONE"
    using E(1,6,9,11,12) assms(3) by (simp_all add: e1_def g_def nlm_owned_def)
  have f: "find_entry obj (sle_id e) (put_entry e1 w) = Some e1"
    by (rule find_put_entry) (use find_entry_list [OF x assms(2)] e1 in simp_all)
  have k: "fst (next_granted_cookie (put_entry e1 w)) = fst (next_granted_cookie w)"
    by (simp add: next_granted_cookie_def Let_def)
  obtain w' e' where c: "nlm_granted_callback cx obj e1 (put_entry e1 w) = Some (STATE_SIGNAL_ERROR, w')"
    and e': "find_entry obj (sle_id e) w' = Some e'" "sle_ref_count e' = 1" "sle_id e' = sle_id e" "sle_obj e' = obj"
      "sle_file w' = sle_file w"
    and h: "ht_lock_cookies w' (fst (next_granted_cookie w))
       = Some \<lparr>sce_obj = obj, sce_lock_entry = sle_id e, sce_cookie = fst (next_granted_cookie w)\<rparr>"
    using callback_unscheduled [of e1 "put_entry e1 w" "b\<lparr>sbd_grant_type := g\<rparr>" cx "fst (next_granted_cookie w)"]
      e1 f k assms(6,7,8) by auto
  let ?w2 = "w'\<lparr>state_blocked_locks := remove1 (sle_id e) (state_blocked_locks w')\<rparr>"
  have t: "try_to_grant_lock cx e w = Some (remove_from_locklist e' ?w2)"
    using c e'(1) b assms(3,5) E(1)
    by (auto simp: try_to_grant_lock_def waiting_def g_def [symmetric] e1_def [symmetric])
  have "entry_at (sle_id e) (remove_from_locklist e' ?w2) = None"
    using find_removed_entry [OF e'(2), of ?w2] e'(3-5) E(2) by (simp add: entry_at_def)
  with t h show ?thesis by simp
qed

theorem unscheduled_grant_dangles_witness:
  "\<exists>w e w' c. lock_inv False w \<and> e \<in> set (lock_list w 5) \<and> waiting e
     \<and> try_to_grant_lock (sample_ctx\<lparr>async_submit_ok := False\<rparr>) e w = Some w'
     \<and> ht_lock_cookies w' (fst (next_granted_cookie w)) = Some c \<and> sce_lock_entry c = 101 \<and> entry_at 101 w' = None"
proof -
  obtain w2 :: "unit sal" where inv: "lock_inv False w2" and i: "map sle_id (lock_list w2 5) = [100, 101]"
      "map sle_blocked (lock_list w2 5) = [STATE_NON_BLOCKING, STATE_NLM_BLOCKING]"
      "\<forall>e \<in> set (tl (lock_list w2 5)). sle_block_data e \<noteq> None" "ht_lock_cookies w2 = Map.empty"
    by (rule sample_run) (rule that; assumption)
  from i obtain d e where e: "lock_list w2 5 = [d, e]" "sle_id e = 101" "waiting e" "sle_block_data e \<noteq> None"
    by (auto simp: waiting_def)
  obtain w' c where "try_to_grant_lock (sample_ctx\<lparr>async_submit_ok := False\<rparr>) e w2 = Some w'"
    "ht_lock_cookies w' (fst (next_granted_cookie w2)) = Some c" "sce_lock_entry c = 101" "entry_at 101 w' = None"
    using unscheduled_grant_dangles [OF inv, of e 5 "sample_ctx\<lparr>async_submit_ok := False\<rparr>"] e i(4) by auto
  then show ?thesis using e inv by (intro exI [of _ w2] exI [of _ e] exI [of _ w'] exI [of _ c] conjI) simp_all
qed

section \<open>Removing the locks of a file\<close>

lemma free_list_fields [simp]:
  "ht_lock_cookies (free_list es w) = ht_lock_cookies w"
  by (induction es w rule: free_list.induct) simp_all

lemma free_list_keeps:
  "d \<in> set (detached w) \<Longrightarrow> \<forall>e \<in> set es. sle_id e \<noteq> sle_id d \<Longrightarrow> d \<in> set (detached (free_list es w))"
  by (induction es w rule: free_list.induct)
    (auto simp: remove_from_locklist_def unlink_owner_def free_lock_entry_def Let_def split: option.splits)

lemma free_list_detaches:
  assumes "e \<in> set es" "distinct (map sle_id es)" "sle_ref_count e = 2"
  shows "e\<lparr>sle_owner := None, sle_ref_count := 1\<rparr> \<in> set (detached (free_list es w))"
  using assms
proof (induction es arbitrary: w)
  case (Cons f es)
  show ?case
  proof (cases "e = f")
    case True
    let ?d = "e\<lparr>sle_owner := None, sle_ref_count := 1\<rparr>"
    have "?d \<in> set (detached (remove_from_locklist e w))"
      using Cons.prems(3) by (simp add: remove_from_locklist_def Let_def)
    moreover have "\<forall>g \<in> set es. sle_id g \<noteq> sle_id ?d" using Cons.prems(2) True by (auto simp: image_iff)
    ultimately show ?thesis using True free_list_keeps [of ?d "remove_from_locklist e w" es] by simp
  next
    case False
    then show ?thesis using Cons by simp
  qed
qed simp

lemma free_list_empties:
  assumes "\<forall>e \<in> set es. sle_obj e = obj"
  shows "set (lock_list (free_list es w) obj) \<subseteq> {y \<in> set (lock_list w obj). sle_id y \<notin> sle_id ` set es}"
  using assms
proof (induction es arbitrary: w)
  case (Cons e es)
  have "set (lock_list (remove_from_locklist e w) obj) \<subseteq> {y \<in> set (lock_list w obj). sle_id y \<noteq> sle_id e}"
    using Cons.prems by (auto simp: remove_from_locklist_def unlink_owner_def free_lock_entry_def Let_def split: option.splits)
  then show ?case using Cons.IH [of "remove_from_locklist e w"] Cons.prems by auto
qed simp

lemma wipe_inv:
  assumes inv: "refs_inv x w"
  shows "refs_inv x (snd (state_lock_wipe obj w))"
proof (cases "lock_list w obj = []")
  case False
  let ?xs = "lock_list w obj" and ?w = "free_list (lock_list w obj) w"
  have o: "\<forall>e \<in> set ?xs. sle_obj e = obj" using list_entry(1) [OF inv] by blast
  have d: "distinct ?xs" using ids_distinct [of x obj w ?xs] inv by (simp add: distinct_map)
  have "refs_inv x (with_list obj ?w (filter (\<lambda>e. e \<notin> set ?xs) ?xs))"
    using free_list_world [of x obj w ?xs ?xs] inv d by simp
  then have "refs_inv x (with_list obj ?w [])" by (simp add: filter_False)
  moreover have "lock_list ?w obj = []" using free_list_empties [OF o, of w] by (simp add: subset_iff) (metis image_eqI list.set_intros(1) neq_Nil_conv)
  ultimately have "refs_inv x ?w" using with_list_sel(8) [of obj ?w] by simp
  with False show ?thesis by (simp add: state_lock_wipe_def)
qed (simp add: state_lock_wipe_def inv)

text \<open>
  C17.  A grant is under way: the entry is being granted and a cookie names it.  All locks of the file
  are removed, and then the client refuses the lock.  On an export whose file system keeps no locks,
  the answer then releases the last reference to the entry and afterwards reaches the freed entry
  again.
\<close>

theorem wipe_then_refused:
  assumes "lock_inv u w" and "e \<in> set (lock_list w obj)" "sle_blocked e = STATE_GRANTING" "sle_block_data e \<noteq> None"
    and "ht_lock_cookies w k = Some c" "sce_lock_entry c = sle_id e"
    and "\<not> fso_lock_support (export_fsal cx (sle_export e))"
  shows "nlm4_Granted_Res cx k False (snd (state_lock_wipe obj w)) = None"
proof -
  obtain x where x: "refs_inv x w" using assms(1) unfolding lock_inv_def by blast
  note E = list_entry [OF x assms(2)]
  let ?w = "snd (state_lock_wipe obj w)" and ?d = "e\<lparr>sle_owner := None, sle_ref_count := 1\<rparr>"
  have "k \<in> cookies_of w (sle_id e)" using assms(5,6) by (auto simp: cookies_of_def)
  then have "0 < card (cookies_of w (sle_id e))" using cookies_of_finite [OF x] card_gt_0_iff by blast
  then have two: "sle_ref_count e = 2" using E(6,10) by (simp add: at_rest_def)
  have w: "?w = free_list (lock_list w obj) w" using assms(2) by (auto simp: state_lock_wipe_def)
  have "distinct (map sle_id (lock_list w obj))" using x by (auto simp: refs_inv_def entries_ok_def)
  then have "?d \<in> set (detached ?w)" unfolding w using free_list_detaches [OF assms(2) _ two] by simp
  from find_entry_detached [OF wipe_inv [OF x] this] have f: "find_entry obj (sle_id e) ?w = Some ?d" by simp
  have c: "sce_obj c = obj" using x assms(5,6) E(2) by (auto simp: refs_inv_def cookies_ok_def)
  have h: "ht_lock_cookies ?w k = Some c" using assms(5) by (simp add: w)
  let ?cx = "cx\<lparr>ctx_export := sle_export e\<rparr>"
  let ?w1 = "?w\<lparr>ht_lock_cookies := (ht_lock_cookies ?w)(k := None)\<rparr>"
  let ?w2 = "?w1\<lparr>export_refcount := incr (export_refcount ?w1) (sle_export e)\<rparr>"
  let ?d1 = "?d\<lparr>sle_blocked := STATE_CANCELED\<rparr>"
  have r: "find_entry obj (sle_id e) (remove_from_locklist ?d1 (put_entry ?d1 ?w2)) = None"
    using find_removed_entry [of ?d1 "put_entry ?d1 ?w2"] E(1) by simp
  have "state_release_grant ?cx c ?w2 = None"
    using f c assms(3,6,7) r by (simp add: state_release_grant_def do_lock_op_def free_cookie_def Let_def)
  then show ?thesis
    using f c h assms(4,6) by (simp add: nlm4_Granted_Res_def state_find_grant_def)
qed

theorem wipe_then_refused_witness:
  "\<exists>w. lock_inv False w \<and> map sle_blocked (lock_list w 5) = [STATE_GRANTING]
     \<and> nlm4_Granted_Res sample_ctx sample_cookie False (snd (state_lock_wipe 5 w)) = None"
proof -
  obtain w3 :: "unit sal" where inv: "lock_inv False w3"
    and c: "ht_lock_cookies w3 = [sample_cookie \<mapsto> \<lparr>sce_obj = 5, sce_lock_entry = 101, sce_cookie = sample_cookie\<rparr>]"
    and i: "map sle_id (lock_list w3 5) = [101]" "map sle_blocked (lock_list w3 5) = [STATE_GRANTING]"
      "\<forall>e \<in> set (lock_list w3 5). sle_block_data e \<noteq> None"
    by (rule sample_run) (rule that; assumption)
  from i obtain e where "lock_list w3 5 = [e]" "sle_id e = 101" "sle_blocked e = STATE_GRANTING" "sle_block_data e \<noteq> None"
    by auto
  then show ?thesis using wipe_then_refused [of False w3 e 5 sample_cookie _ sample_ctx] inv c i
    by (intro exI [of _ w3]) simp
qed

end
