(* ===== verification/EdgexMap.thy ===== *)
theory EdgexMap
  imports Prelude
begin

text \<open>
  The string-keyed hash map of the EdgeX device SDK (device-sdk-c/src/c/map.c).  A bucket, a chain of
  nodes linked by their \<open>next\<close> pointers, is the list of its nodes; the array of buckets is a list of
  buckets, empty while the pointer is NULL.  A key is the list of the bytes before its terminating
  NUL.  Whether an allocation succeeds is a parameter.  The value None is an access outside the
  array of buckets.
\<close>

section \<open>Nodes and buckets\<close>

record 'v edgex_map_node =
  node_hash :: u32
  node_key :: "u8 list"
  node_value :: 'v

record 'v edgex_map_base =
  buckets :: "'v edgex_map_node list list"
  nbuckets :: u32
  nnodes :: u32


text \<open>A char is signed, so it is sign-extended before the exclusive or.\<close>

fun edgex_hash_from :: "u32 \<Rightarrow> u8 list \<Rightarrow> u32" where
  "edgex_hash_from hash [] = hash"
| "edgex_hash_from hash (c # str) = edgex_hash_from ((push_bit 5 hash + hash) XOR scast c) str"

definition edgex_hash :: "u8 list \<Rightarrow> u32" where
  "edgex_hash str = edgex_hash_from 5381 str"



definition edgex_map_bucketidx :: "'v edgex_map_base \<Rightarrow> u32 \<Rightarrow> nat" where
  "edgex_map_bucketidx m hash = unat (hash AND (nbuckets m - 1))"

definition bucket_at :: "'v edgex_map_base \<Rightarrow> nat \<Rightarrow> 'v edgex_map_node list option" where
  "bucket_at m n = (if n < length (buckets m) then Some (buckets m ! n) else None)"





section \<open>Lookup, update and removal\<close>






section \<open>Iteration\<close>

text \<open>The node pointer of an iterator is the rest of its bucket, empty when it is NULL.\<close>

record 'v edgex_map_iterator =
  bucketidx :: u32
  iter_node :: "'v edgex_map_node list"

definition edgex_map_iter :: "'v edgex_map_iterator" where
  "edgex_map_iter = \<lparr>bucketidx = - 1, iter_node = []\<rparr>"

function next_bucket :: "'v edgex_map_base \<Rightarrow> u32 \<Rightarrow> 'v edgex_map_iterator option" where
  "next_bucket m i =
     (if nbuckets m \<le> i + 1 then Some \<lparr>bucketidx = i + 1, iter_node = []\<rparr>
      else case bucket_at m (unat (i + 1)) of
             None \<Rightarrow> None
           | Some [] \<Rightarrow> next_bucket m (i + 1)
           | Some b \<Rightarrow> Some \<lparr>bucketidx = i + 1, iter_node = b\<rparr>)"
  by pat_completeness auto

definition edgex_map_next ::
  "'v edgex_map_base \<Rightarrow> 'v edgex_map_iterator \<Rightarrow> (u8 list option \<times> 'v edgex_map_iterator) option" where
  "edgex_map_next m iter =
     map_option (\<lambda>it. (case iter_node it of [] \<Rightarrow> None | node # _ \<Rightarrow> Some (node_key node), it))
       (case iter_node iter of
          _ # node # rest \<Rightarrow> Some (iter\<lparr>iter_node := node # rest\<rparr>)
        | _ \<Rightarrow> next_bucket m (bucketidx iter))"

text \<open>The keys a caller sees that calls it until it returns NULL, and at most \<open>fuel\<close> times.\<close>

fun edgex_map_keys :: "nat \<Rightarrow> 'v edgex_map_base \<Rightarrow> 'v edgex_map_iterator \<Rightarrow> u8 list list option" where
  "edgex_map_keys 0 m iter = None"
| "edgex_map_keys (Suc fuel) m iter =
     (case edgex_map_next m iter of
        None \<Rightarrow> None
      | Some (None, _) \<Rightarrow> Some []
      | Some (Some key, iter') \<Rightarrow> map_option (Cons key) (edgex_map_keys fuel m iter'))"

lemma bucket_step:
  assumes "\<not> nbuckets m \<le> i + 1"
  shows "unat (i + 1 + 1) = Suc (unat (i + 1))" "unat (i + 1) < unat (nbuckets m)"
proof -
  show "unat (i + 1) < unat (nbuckets m)" using assms by (simp add: word_le_nat_alt not_le)
  then have "i + 1 \<noteq> - 1" using assms by (metis word_max_le)
  then show "unat (i + 1 + 1) = Suc (unat (i + 1))" by (metis unatSuc add.commute add.inverse_unique)
qed

termination next_bucket
  by (relation "measure (\<lambda>(m, i). unat (nbuckets m) - unat (i + 1))")
    (simp, simp only: in_measure prod.case bucket_step, simp add: bucket_step diff_less_mono2)

declare next_bucket.simps [simp del]


section \<open>The layout of the buckets\<close>

definition all_nodes :: "'v edgex_map_base \<Rightarrow> 'v edgex_map_node list" where
  "all_nodes m = concat (buckets m)"

definition in_place :: "'v edgex_map_base \<Rightarrow> nat \<Rightarrow> 'v edgex_map_node \<Rightarrow> bool" where
  "in_place m i x \<longleftrightarrow>
     node_hash x = edgex_hash (node_key x) \<and> edgex_map_bucketidx m (node_hash x) = i"

definition layout :: "'v edgex_map_base \<Rightarrow> bool" where
  "layout m \<longleftrightarrow>
     length (buckets m) = unat (nbuckets m)
     \<and> (\<forall>i < length (buckets m). \<forall>x \<in> set (buckets m ! i). in_place m i x)
     \<and> distinct (map node_key (all_nodes m))"

text \<open>
  The number of buckets is zero or a power of two, and a bucket has at most one node on average.
\<close>

definition edgex_ok :: "'v edgex_map_base \<Rightarrow> bool" where
  "edgex_ok m \<longleftrightarrow>
     layout m \<and> (nbuckets m = 0 \<or> (\<exists>k \<le> 30. unat (nbuckets m) = 2 ^ k))
     \<and> unat (nnodes m) = length (all_nodes m) \<and> nnodes m \<le> nbuckets m"

definition edgex_abs :: "'v edgex_map_base \<Rightarrow> u8 list \<rightharpoonup> 'v" where
  "edgex_abs m = map_of (map (\<lambda>x. (node_key x, node_value x)) (all_nodes m))"




lemma in_place_value [simp]: "in_place m i (x\<lparr>node_value := v\<rparr>) = in_place m i x"
  by (simp add: in_place_def)

lemma layout_length: "layout m \<Longrightarrow> length (buckets m) = unat (nbuckets m)"
  by (simp add: layout_def)

lemma layout_distinct: "layout m \<Longrightarrow> distinct (map node_key (all_nodes m))"
  by (simp add: layout_def)





lemma abs_None: "edgex_abs m k = None \<longleftrightarrow> k \<notin> node_key ` set (all_nodes m)"
  by (force simp: edgex_abs_def map_of_eq_None_iff)









section \<open>The operations as operations on a finite map\<close>










section \<open>Iteration visits every node once\<close>

definition pending :: "'v edgex_map_base \<Rightarrow> 'v edgex_map_iterator \<Rightarrow> 'v edgex_map_node list" where
  "pending m it = tl (iter_node it) @ concat (drop (unat (bucketidx it + 1)) (buckets m))"

lemma next_bucket_ok:
  assumes "layout m"
  shows "\<exists>it. next_bucket m i = Some it
    \<and> (case iter_node it of [] \<Rightarrow> concat (drop (unat (i + 1)) (buckets m)) = []
       | x # _ \<Rightarrow> concat (drop (unat (i + 1)) (buckets m)) = x # pending m it)"
  using assms
proof (induction m i rule: next_bucket.induct)
  case (1 m i)
  show ?case
  proof (cases "nbuckets m \<le> i + 1")
    case True
    then show ?thesis using layout_length [OF 1(2)] by (simp add: next_bucket.simps [of m i] word_le_nat_alt)
  next
    case False
    note st = bucket_step [OF False]
    then have d: "drop (unat (i + 1)) (buckets m) = buckets m ! unat (i + 1) # drop (unat (i + 1 + 1)) (buckets m)"
      using layout_length [OF 1(2)] by (simp add: Cons_nth_drop_Suc)
    have b: "bucket_at m (unat (i + 1)) = Some (buckets m ! unat (i + 1))"
      using st layout_length [OF 1(2)] by (simp add: bucket_at_def)
    show ?thesis
    proof (cases "buckets m ! unat (i + 1)")
      case Nil
      then have e: "concat (drop (unat (i + 1)) (buckets m)) = concat (drop (unat (i + 1 + 1)) (buckets m))"
        by (simp only: d) simp
      have "next_bucket m i = next_bucket m (i + 1)" using False b Nil by (simp add: next_bucket.simps [of m i])
      then show ?thesis using 1(1) [OF False _ _ 1(2)] b Nil unfolding e by simp
    next
      case (Cons x xs)
      then show ?thesis using False b d by (simp add: next_bucket.simps [of m i] pending_def)
    qed
  qed
qed

lemma next_ok:
  assumes "layout m"
  shows "\<exists>it'. edgex_map_next m it = Some (map_option node_key (if pending m it = [] then None else Some (hd (pending m it))), it')
    \<and> (pending m it \<noteq> [] \<longrightarrow> pending m it' = tl (pending m it))"
proof (cases "tl (iter_node it)")
  case Nil
  then have n: "edgex_map_next m it =
      map_option (\<lambda>it. (case iter_node it of [] \<Rightarrow> None | node # _ \<Rightarrow> Some (node_key node), it)) (next_bucket m (bucketidx it))"
    by (auto simp: edgex_map_next_def split: list.split)
  obtain it' where it': "next_bucket m (bucketidx it) = Some it'"
    "case iter_node it' of [] \<Rightarrow> concat (drop (unat (bucketidx it + 1)) (buckets m)) = []
       | x # _ \<Rightarrow> concat (drop (unat (bucketidx it + 1)) (buckets m)) = x # pending m it'"
    using next_bucket_ok [OF assms] by blast
  have p: "pending m it = concat (drop (unat (bucketidx it + 1)) (buckets m))" using Nil by (simp add: pending_def)
  show ?thesis using it' n unfolding p [symmetric] by (cases "iter_node it'") simp_all
next
  case (Cons y ys)
  then obtain x where "iter_node it = x # y # ys" by (cases "iter_node it") auto
  then show ?thesis by (simp add: edgex_map_next_def pending_def)
qed

lemma keys_ok:
  assumes "layout m" "length (pending m it) < fuel"
  shows "edgex_map_keys fuel m it = Some (map node_key (pending m it))"
  using assms(2)
proof (induction fuel arbitrary: it)
  case (Suc fuel)
  obtain it' where n: "edgex_map_next m it = Some (map_option node_key (if pending m it = [] then None else Some (hd (pending m it))), it')"
    "pending m it \<noteq> [] \<longrightarrow> pending m it' = tl (pending m it)"
    using next_ok [OF assms(1)] by blast
  then show ?case using Suc by (cases "pending m it") simp_all
qed simp

section \<open>The interface of a store\<close>







section \<open>Properties\<close>







definition sample_map :: "nat edgex_map_base" where
  "sample_map =
     \<lparr>buckets = [[\<lparr>node_hash = edgex_hash [97, 98], node_key = [97, 98], node_value = 7\<rparr>]], nbuckets = 1, nnodes = 1\<rparr>"

lemma sample_map_ok: "edgex_ok sample_map"
  by (auto simp: sample_map_def edgex_ok_def layout_def in_place_def edgex_map_bucketidx_def all_nodes_def intro: exI [of _ 0])


text \<open>
  C12.  A caller that iterates over a map until NULL sees every key of the map, each exactly once,
  after as many calls as the map has nodes and one more.
\<close>

theorem edgex_map_keys_complete:
  assumes "edgex_ok m"
  shows "\<exists>keys. edgex_map_keys (Suc (unat (nnodes m))) m edgex_map_iter = Some keys
    \<and> distinct keys \<and> set keys = dom (edgex_abs m)"
proof -
  have l: "layout m" using assms by (simp add: edgex_ok_def)
  have "pending m edgex_map_iter = all_nodes m" by (simp add: pending_def edgex_map_iter_def all_nodes_def)
  then have "edgex_map_keys (Suc (unat (nnodes m))) m edgex_map_iter = Some (map node_key (all_nodes m))"
    using keys_ok [OF l, of edgex_map_iter "Suc (unat (nnodes m))"] assms by (simp add: edgex_ok_def del: edgex_map_keys.simps)
  moreover have "set (map node_key (all_nodes m)) = dom (edgex_abs m)" using abs_None [of m] by (auto simp: dom_def)
  ultimately show ?thesis using layout_distinct [OF l] by blast
qed

theorem edgex_map_keys_complete_witness:
  "\<exists>keys. edgex_map_keys 2 sample_map edgex_map_iter = Some keys \<and> distinct keys \<and> set keys = {[97, 98]}"
  using edgex_map_keys_complete [OF sample_map_ok]
  by (simp add: sample_map_def edgex_abs_def all_nodes_def numeral_2_eq_2)

text \<open>
  C19.  Masking with the number of buckets minus one selects the bucket the remainder would select, for
  every map the operations reach; the comment in the source asks for exactly that.
\<close>

theorem edgex_map_bucketidx_mod:
  assumes "edgex_ok m" and "nbuckets m \<noteq> 0"
  shows "edgex_map_bucketidx m h = unat h mod unat (nbuckets m)"
proof -
  obtain k where k: "k \<le> 30" "unat (nbuckets m) = 2 ^ k" using assms by (auto simp: edgex_ok_def)
  have "unat (nbuckets m - 1) = 2 ^ k - 1" using assms(2) k(2) by (simp add: unat_minus_one)
  then have "unat (h AND (nbuckets m - 1)) = unat h AND mask k"
    by (simp add: unsigned_and_eq mask_eq_exp_minus_1)
  then show ?thesis by (simp add: edgex_map_bucketidx_def k(2) take_bit_eq_mask [symmetric] take_bit_eq_mod)
qed

theorem edgex_map_bucketidx_mod_witness:
  "edgex_map_bucketidx sample_map 12345 = unat (12345 :: u32) mod unat (nbuckets sample_map)"
  by (rule edgex_map_bucketidx_mod) (simp_all add: sample_map_ok, simp add: sample_map_def)



end
