(* ===== verification/Spec2Isabelle.thy ===== *)
theory Spec2Isabelle
  imports GrantFaults EdgexMap
begin

text \<open>
  A verification development of two parts of the edge computing repository: the byte-range lock
  manager of the NFS server NFS-Ganesha (src/nfs-ganesha/src) and the hash map of the EdgeX device SDK
  (src/device-sdk-c/src/c/map.c).

  \<^bold>\<open>The lock manager.\<close>  Requests of NLM and NFSv4 clients reach the functions of SAL/state_lock.c, which
  keep for every file a list of lock entries.  An entry is held, waits for a conflicting lock to go
  away, or is being granted: then a message to its NLM client is under way and a grant cookie, under
  which the client's reply is looked up, refers to the entry.

  \<^item> LockTypes: lock descriptions (fsal_types.h), the end of a range in 64-bit arithmetic (lock_end),
    owners and their comparison (different_owners in SAL/state_misc.c and the compare functions it
    calls), lock entries (sal_data.h).  The locale owner_identity states that comparing owners is an
    equivalence away from NULL; it is interpreted on different_owners.
  \<^item> StateErrors: the status codes and the tables that translate them (SAL/state_misc.c, nlm_util.c).
  \<^item> SalState: the state, a record with the lock lists, the cookie table, the blocked locks and the
    reference counts; creation, sharing and release of entries; do_lock_op, the call of the file
    system.  The file system is a parameter of the request context (lock_op2 and two flags).
  \<^item> LockList: conflict search, merge and subtraction on one lock list.
  \<^item> BlockedLocks: grant cookies, the grant callback of Protocols/NLM/nlm_util.c, granting, completing,
    releasing and cancelling blocked locks, and the reply handler nlm_Granted_Res.c.
  \<^item> LockManager: state_test, state_lock, state_unlock, state_cancel, the locks of a rebooted client
    (state_nlm_notify), polling, upcalls of the file system, and state_lock_wipe.

  A C function is a function on the state with the same name.  The value None of an operation is the
  dereference of a NULL or dangling pointer; entries are kept by value, and a freed entry is in no list,
  so a use after free is a search that fails.  Loops over a list that changes under them are
  recursions over the entries still to visit; merge_loop, whose list can grow, is a
  partial_function.  Locks and threads are not modelled: every handler runs alone, as it does under
  the state lock of the file.

  \<^bold>\<open>What is shown.\<close>

  \<^item> LockSemantics: which bytes each owner holds after a merge and after a subtraction, that the merge
    loop ends, and that the wrap-around of the end of a range makes the merge ignore other locks.
  \<^item> EntryRefs, GrantInvariant, MergeInvariant: the invariant refs_inv says that the reference count of
    an entry is the number of its holders and that every cookie names an allocated entry; every
    operation keeps it and, under it, returns.
  \<^item> Exclusion, LockSafety: the invariant lock_inv adds that no byte is held by one owner for writing and
    by another owner at all.  Every call keeps it.
  \<^item> LockGuarantees: the properties of single calls and of every sequence of calls (lock_step), and what
    the client is told for each result of the file system.
  \<^item> GrantFaults: two cases in which a grant in progress leaves a dangling reference: the message cannot
    be submitted, or all locks of the file are removed meanwhile.

  The invariants need: ranges that do not wrap around (the protocol handlers reject the others), no
  reclaims (a reclaim skips the conflict check), exports whose file system does not block
  asynchronously (its upcalls are modelled but not part of lock_step), block data and an NLM owner
  for a request that blocks (as nlm_Lock.c provides them), and submissions to the asynchronous thread
  that succeed; GrantFaults shows that the last condition cannot be dropped.  Samples evaluates the
  definitions on small states, and the witnesses use these.

  \<^bold>\<open>The hash map.\<close>  EdgexMap models every function of map.c but the destructor.  An array of buckets is a
  list of lists; whether malloc and realloc succeed are parameters.  The locale store states what a
  user of a key/value store relies on and proves that a run of calls acts as on a finite map; it is
  interpreted on the functions of map.c.  An iteration needs one call more than the map has nodes,
  which is the fuel of edgex_map_keys.  Properties: the refinement, the exact outcome of an insertion
  including failed allocations, the completeness of the iteration, the equality of masking and
  remainder, and the alignment of values.

  \<^bold>\<open>Not modelled.\<close>  The share half of state_nlm_notify and the unlock-all functions that delete NFSv4
  states; NFSv4 states, sessions, leases and recovery; delegations, layouts and share reservations; the
  protocol decoders; the file system modules; the rest of the device SDK; the simulation, web, PHP and
  database parts.  They are I/O, glue over libraries, or separate subsystems the lock manager does
  not call.
\<close>

end
